(* ===== verification/AOK_Prelude.thy ===== *)
theory AOK_Prelude
  imports
    Main
    "HOL-Library.Word"
    "HOL-Library.AList"
    "HOL-Library.Char_ord"
    "HOL-Library.List_Lexorder"
begin

text \<open>
  Shared vocabulary of the development: Go's machine integers, strings and maps, the error
  values of package \<^verbatim>\<open>runtime\<close>, and the small library of lemmas the components use.

  \<^item> a Go \<^verbatim>\<open>string\<close> or \<^verbatim>\<open>[]byte\<close> is a \<open>string\<close>: a list of 8-bit characters;
  \<^item> \<^verbatim>\<open>uint64\<close> and \<^verbatim>\<open>uint32\<close> are machine words, so that \<open>+\<close> wraps around;
  \<^item> \<^verbatim>\<open>int64\<close> clock readings and sizes are \<open>int\<close>;
  \<^item> a Go map is an association list: lookup, store and delete behave as on a finite map, and
    the order of the list is the (unspecified) iteration order of the map;
  \<^item> a Go \<^verbatim>\<open>(T, error)\<close> result is a value of \<open>error + 'a\<close>, \<open>Inl\<close> for the error.
\<close>

type_synonym u64 = "64 word"
type_synonym u32 = "32 word"
type_synonym 'v gomap = "(string \<times> 'v) list"

named_theorems frame \<open>fields an operation leaves alone\<close>
named_theorems audited \<open>operations that keep the audit chain\<close>

section \<open>Errors\<close>

text \<open>The sentinel errors of the package, the storage layer's errors, and
  \<^verbatim>\<open>errors.New\<close> with its message.\<close>

datatype error =
    ErrApplicationNotFound
  | ErrApplicationRetired
  | ErrDuplicateMessage
  | ErrCapabilityDenied
  | ErrMailboxFull
  | ErrTaintBlocked
  | ErrConfirmationPending string
  | ErrRouteDenied
  | ErrTurnBusy
  | ErrContextAccess
  | ErrContextCorrupt
  | ErrContextIdempotency
  | ErrUsageSequence
  | ErrQuota
  | ErrRevocationCapacity
  | ErrWitnessMismatch
  | ErrChannelNotFound
  | ErrConversationNotFound
  | ErrConversationBound
  | ErrMountNotFound
  | ErrMountDenied
  | ErrWebDenied
  | ErrWebLayerMismatch
  | ErrEventHistoryExpired
  | ErrRestartIntensity
  | ErrStorage
  | EAGAIN
  | EBUSY
  | ErrMsg string

type_synonym 'a result = "error + 'a"

section \<open>Maps\<close>

abbreviation gget :: "'v gomap \<Rightarrow> string \<Rightarrow> 'v option" where
  "gget m k \<equiv> map_of m k"

abbreviation gput :: "string \<Rightarrow> 'v \<Rightarrow> 'v gomap \<Rightarrow> 'v gomap" where
  "gput k v m \<equiv> AList.update k v m"

abbreviation gdel :: "string \<Rightarrow> 'v gomap \<Rightarrow> 'v gomap" where
  "gdel k m \<equiv> AList.delete k m"

lemma gget_gput [simp]: "gget (gput k v m) k' = (if k' = k then Some v else gget m k')"
  by (simp add: update_conv')

lemma gget_gdel [simp]: "gget (gdel k m) k' = (if k' = k then None else gget m k')"
  by (simp add: delete_conv')

lemma gput_distinct [simp]:
  "distinct (map fst m) \<Longrightarrow> distinct (map fst (gput k v m))"
  by (rule distinct_update)

lemma gput_entries: "e \<in> set (gput k v m) \<Longrightarrow> e = (k, v) \<or> e \<in> set m"
  by (induction m) (auto split: if_splits)

lemma gput_keys [simp]: "fst ` set (gput k v m) = insert k (fst ` set m)"
  by (induction m) auto

lemma gget_map_values: "gget (map (\<lambda>(k, v). (k, f v)) m) k = map_option f (gget m k)"
  by (induction m) auto

section \<open>Decimal numbers\<close>

text \<open>\<^verbatim>\<open>%d\<close>, \<^verbatim>\<open>strconv.FormatUint\<close> and \<^verbatim>\<open>strconv.ParseUint\<close> in base ten.\<close>

definition digit :: "nat \<Rightarrow> char" where
  "digit n = char_of (48 + n)"

fun dec :: "nat \<Rightarrow> string" where
  "dec n = (if n < 10 then [digit n] else dec (n div 10) @ [digit (n mod 10)])"

declare dec.simps [simp del]

definition dec_int :: "int \<Rightarrow> string" where
  "dec_int i = (if i < 0 then CHR ''-'' # dec (nat (- i)) else dec (nat i))"

definition is_digit :: "char \<Rightarrow> bool" where
  "is_digit c \<longleftrightarrow> 48 \<le> (of_char c :: nat) \<and> (of_char c :: nat) \<le> 57"

definition undigit :: "char \<Rightarrow> nat" where
  "undigit c = of_char c - 48"

definition undec :: "string \<Rightarrow> nat" where
  "undec s = foldl (\<lambda>n c. 10 * n + undigit c) 0 s"

text \<open>\<^verbatim>\<open>strconv.ParseUint(s, 10, 64)\<close>.\<close>

definition parseUint :: "string \<Rightarrow> u64 option" where
  "parseUint s =
     (if s \<noteq> [] \<and> list_all is_digit s \<and> undec s < 2 ^ 64 then Some (of_nat (undec s)) else None)"

lemma of_char_digit: "n < 10 \<Longrightarrow> (of_char (digit n) :: nat) = 48 + n"
  by (simp add: digit_def)

lemma is_digit_digit [simp]: "n < 10 \<Longrightarrow> is_digit (digit n)"
  by (simp add: is_digit_def of_char_digit)

lemma undigit_digit [simp]: "n < 10 \<Longrightarrow> undigit (digit n) = n"
  by (simp add: undigit_def of_char_digit)

lemma dec_nonempty [simp]: "dec n \<noteq> []"
  by (subst dec.simps) simp

lemma undec_snoc [simp]: "undec (s @ [c]) = 10 * undec s + undigit c"
  by (simp add: undec_def)

lemma undec_dec [simp]: "undec (dec n) = n"
proof (induction n rule: dec.induct)
  case (1 n)
  show ?case
  proof (cases "n < 10")
    case True
    then show ?thesis by (subst dec.simps) (simp add: undec_def)
  next
    case False
    with "1.IH" have "undec (dec (n div 10)) = n div 10" by simp
    with False show ?thesis by (subst dec.simps) simp
  qed
qed

lemma dec_digits: "list_all is_digit (dec n)"
proof (induction n rule: dec.induct)
  case (1 n)
  then show ?case
    by (subst dec.simps) (simp add: list_all_append)
qed

lemma dec_inject [simp]: "dec m = dec n \<longleftrightarrow> m = n"
  by (metis undec_dec)

lemma parseUint_dec: "n < 2 ^ 64 \<Longrightarrow> parseUint (dec n) = Some (of_nat n)"
  by (simp add: parseUint_def dec_digits)

lemma parseUint_dec_unat [simp]: "parseUint (dec (unat (w :: u64))) = Some w"
proof -
  have "unat w < 2 ^ 64" using unsigned_less [of w] by simp
  then show ?thesis by (simp add: parseUint_dec)
qed

end
