(* ===== verification/Ledger.thy ===== *)
theory Ledger
  imports AOK_Prelude
begin

text \<open>
  The token ledger of an engine session (\<^verbatim>\<open>runtime/ledger.go\<close>) and the saturating addition
  every token account of the runtime uses.
\<close>

section \<open>Definitions\<close>

record ledger =
  l_HardLimit :: u64
  l_Used :: u64
  l_LastID :: u64
  l_LastSeq :: u64

definition saturatingAdd :: "u64 \<Rightarrow> u64 \<Rightarrow> u64" where
  "saturatingAdd a b = (if - 1 - a < b then - 1 else a + b)"

definition Ledger_Apply :: "ledger \<Rightarrow> u64 \<Rightarrow> u64 \<Rightarrow> u64 \<Rightarrow> error option \<times> ledger" where
  "Ledger_Apply l rid seq amount =
     (if rid = l_LastID l \<and> rid \<noteq> 0 then (None, l)
      else if seq \<le> l_LastSeq l then (Some ErrUsageSequence, l)
      else if l_HardLimit l \<noteq> 0 \<and>
              (l_Used l > l_HardLimit l \<or> amount > l_HardLimit l - l_Used l)
        then (Some ErrQuota, l)
      else
        let l1 = (if - 1 - l_Used l < amount then l\<lparr>l_Used := - 1\<rparr>
                  else l\<lparr>l_Used := l_Used l + amount\<rparr>)
        in (None, l1\<lparr>l_LastID := rid, l_LastSeq := seq\<rparr>))"

text \<open>A history of charges \<open>(id, seq, amount)\<close>, and the amounts among them that the ledger
  accepted as new: not a replay of the last id, and not refused.\<close>

fun ledger_run :: "ledger \<Rightarrow> (u64 \<times> u64 \<times> u64) list \<Rightarrow> ledger" where
  "ledger_run l [] = l"
| "ledger_run l ((rid, seq, amount) # cs) = ledger_run (snd (Ledger_Apply l rid seq amount)) cs"

fun ledger_charged :: "ledger \<Rightarrow> (u64 \<times> u64 \<times> u64) list \<Rightarrow> u64 list" where
  "ledger_charged l [] = []"
| "ledger_charged l ((rid, seq, amount) # cs) =
     (let (e, l') = Ledger_Apply l rid seq amount
      in (if e = None \<and> \<not> (rid = l_LastID l \<and> rid \<noteq> 0) then [amount] else [])
         @ ledger_charged l' cs)"

section \<open>Saturating addition\<close>

lemma unat_max_u64: "unat (- 1 :: u64) = 2 ^ 64 - 1"
  by (simp add: unsigned_minus_1_eq_mask mask_eq_exp_minus_1)

lemma unat_complement_u64: "unat (- 1 - (a :: u64)) = 2 ^ 64 - 1 - unat a"
proof -
  have "a \<le> - 1" by simp
  then show ?thesis by (simp add: unat_sub unat_max_u64)
qed

lemma saturatingAdd_unat:
  "unat (saturatingAdd a b) = min (2 ^ 64 - 1) (unat a + unat b)"
proof -
  have a: "unat a < 2 ^ 64" and b: "unat b < 2 ^ 64"
    using unsigned_less [of a] unsigned_less [of b] by simp_all
  show ?thesis
  proof (cases "- 1 - a < b")
    case True
    then have "2 ^ 64 - 1 - unat a < unat b"
      by (simp only: word_less_nat_alt unat_complement_u64)
    with True show ?thesis
      by (simp add: saturatingAdd_def unat_max_u64)
  next
    case False
    then have le: "unat b \<le> 2 ^ 64 - 1 - unat a"
      by (simp only: word_less_nat_alt unat_complement_u64 not_less)
    with a have "unat a + unat b < 2 ^ 64" by simp
    then have "unat (a + b) = unat a + unat b"
      by (subst unat_add_lem [THEN iffD1]) simp_all
    with False le a show ?thesis
      by (simp add: saturatingAdd_def)
  qed
qed

lemma saturatingAdd_0 [simp]: "saturatingAdd a 0 = a" "saturatingAdd 0 b = b"
  by (simp_all add: saturatingAdd_def)

lemma saturatingAdd_ge: "a \<le> saturatingAdd a b"
proof -
  have "unat a < 2 ^ 64" using unsigned_less [of a] by simp
  then show ?thesis by (simp add: word_le_nat_alt saturatingAdd_unat)
qed

lemma saturatingAdd_commute: "saturatingAdd a b = saturatingAdd b a"
  by (simp add: word_unat_eq_iff saturatingAdd_unat add.commute)

lemma saturatingAdd_assoc:
  "saturatingAdd (saturatingAdd a b) c = saturatingAdd a (saturatingAdd b c)"
  by (simp add: word_unat_eq_iff saturatingAdd_unat min_def)

section \<open>The ledger\<close>

lemma Ledger_Apply_charge:
  assumes "Ledger_Apply l rid seq amount = (None, l')" and "\<not> (rid = l_LastID l \<and> rid \<noteq> 0)"
  shows "l_Used l' = saturatingAdd (l_Used l) amount" and "l_LastSeq l < l_LastSeq l'"
    and "l_HardLimit l' = l_HardLimit l"
    and "l_HardLimit l \<noteq> 0 \<Longrightarrow> l_Used l \<le> l_HardLimit l \<and> amount \<le> l_HardLimit l - l_Used l"
  using assms by (auto simp: Ledger_Apply_def Let_def saturatingAdd_def not_less not_le split: if_splits)

lemma Ledger_Apply_no_charge:
  assumes "Ledger_Apply l rid seq amount = (e, l')"
    and "e \<noteq> None \<or> (rid = l_LastID l \<and> rid \<noteq> 0)"
  shows "l' = l"
  using assms by (auto simp: Ledger_Apply_def Let_def split: if_splits)

lemma word_add_le_limit:
  assumes "(u :: u64) \<le> h" and "a \<le> h - u"
  shows "saturatingAdd u a \<le> h"
proof -
  have "unat (h - u) = unat h - unat u"
    using assms(1) by (simp add: unat_sub)
  with assms have "unat u + unat a \<le> unat h"
    by (simp add: word_le_nat_alt)
  moreover have "unat h < 2 ^ 64" using unsigned_less [of h] by simp
  ultimately show ?thesis
    by (simp add: word_le_nat_alt saturatingAdd_unat min_def)
qed

definition ledger_ok :: "ledger \<Rightarrow> bool" where
  "ledger_ok l \<longleftrightarrow> l_HardLimit l \<noteq> 0 \<longrightarrow> l_Used l \<le> l_HardLimit l"

lemma Ledger_Apply_ok:
  assumes "ledger_ok l"
  shows "ledger_ok (snd (Ledger_Apply l rid seq amount))"
proof (cases "fst (Ledger_Apply l rid seq amount) = None \<and> \<not> (rid = l_LastID l \<and> rid \<noteq> 0)")
  case True
  then have eq: "Ledger_Apply l rid seq amount = (None, snd (Ledger_Apply l rid seq amount))"
    by (simp add: prod_eq_iff)
  note charge = Ledger_Apply_charge [OF eq] True
  then show ?thesis
    by (auto simp: ledger_ok_def intro!: word_add_le_limit)
next
  case False
  then have "snd (Ledger_Apply l rid seq amount) = l"
    using Ledger_Apply_no_charge [of l rid seq amount "fst (Ledger_Apply l rid seq amount)"]
    by (simp add: prod_eq_iff) blast
  with assms show ?thesis by simp
qed

text \<open>C28. Over any history of charges the ledger's balance is exactly the sum of the charges it
  accepted as new, clamped at the largest \<^verbatim>\<open>uint64\<close>: replays and refused charges are never
  counted, and an accepted one is counted once.\<close>

theorem ledger_balance:
  "unat (l_Used (ledger_run l cs)) =
     min (2 ^ 64 - 1) (unat (l_Used l) + sum_list (map unat (ledger_charged l cs)))"
proof (induction cs arbitrary: l)
  case Nil
  have "unat (l_Used l) < 2 ^ 64" using unsigned_less [of "l_Used l"] by simp
  then show ?case by simp
next
  case (Cons c cs)
  obtain rid seq amount where c: "c = (rid, seq, amount)" by (cases c)
  obtain e l' where app: "Ledger_Apply l rid seq amount = (e, l')" by fastforce
  show ?case
  proof (cases "e = None \<and> \<not> (rid = l_LastID l \<and> rid \<noteq> 0)")
    case True
    with app Ledger_Apply_charge(1) [of l rid seq amount l']
    have "unat (l_Used l') = min (2 ^ 64 - 1) (unat (l_Used l) + unat amount)"
      by (simp add: saturatingAdd_unat)
    with True app c Cons.IH [of l'] show ?thesis
      by (simp add: Let_def min_def)
  next
    case False
    with app Ledger_Apply_no_charge [of l rid seq amount e l'] have "l' = l" by auto
    moreover have "\<not> (e = None \<and> (rid = l_LastID l \<longrightarrow> rid = 0))"
      using False by simp
    ultimately show ?thesis using app c Cons.IH [of l]
      by (auto simp: Let_def)
  qed
qed

text \<open>C29. A ledger with a hard limit never exceeds it: from a balance within the limit, no history
  of charges, whatever their ids, sequence numbers and amounts, takes it over.\<close>

theorem ledger_within_limit:
  "ledger_ok l \<Longrightarrow> ledger_ok (ledger_run l cs)"
  by (induction l cs rule: ledger_run.induct) (auto intro: Ledger_Apply_ok)

definition sample_ledger :: ledger where
  "sample_ledger = \<lparr>l_HardLimit = 10, l_Used = 4, l_LastID = 0, l_LastSeq = 0\<rparr>"

theorem ledger_within_limit_witness:
  "ledger_ok sample_ledger \<and> ledger_ok (ledger_run sample_ledger [(1, 1, 5), (1, 1, 5), (2, 2, 9)])"
proof -
  have "ledger_ok sample_ledger" by (simp add: ledger_ok_def sample_ledger_def)
  then show ?thesis using ledger_within_limit by blast
qed

end
