(* ===== verification/GoJSON.thy ===== *)
theory GoJSON
  imports AOK_Prelude
begin

text \<open>
  The part of Go's \<^verbatim>\<open>encoding/json\<close> the runtime relies on: the byte-driven scanner with its
  parse stack and nesting bound (\<^verbatim>\<open>json.Valid\<close>), the decoding of object members into struct
  fields (\<^verbatim>\<open>json.Unmarshal\<close>), string escaping and \<^verbatim>\<open>RawMessage\<close> compaction
  (\<^verbatim>\<open>json.Marshal\<close>). The lemmas show that what the runtime marshals scans back to the
  members it wrote, whatever bytes the marshalled strings hold.
\<close>

section \<open>Bytes and UTF-8\<close>

abbreviation code :: "char \<Rightarrow> nat" where
  "code c \<equiv> of_char c"

definition QUOTE :: char where "QUOTE = CHR 0x22"
definition BSLASH :: char where "BSLASH = CHR 0x5C"

definition utf8_cont :: "char \<Rightarrow> bool" where
  "utf8_cont c \<longleftrightarrow> 128 \<le> code c \<and> code c \<le> 191"

text \<open>The length of the well-formed UTF-8 sequence at the front of a byte string; 0 if there is
  none (\<^verbatim>\<open>utf8.DecodeRune\<close> then returns the replacement character and width 1).\<close>

fun utf8_len :: "string \<Rightarrow> nat" where
  "utf8_len [] = 0"
| "utf8_len (c # cs) =
     (if code c < 128 then 1
      else if 194 \<le> code c \<and> code c \<le> 223 then
        (case cs of c1 # _ \<Rightarrow> if utf8_cont c1 then 2 else 0 | _ \<Rightarrow> 0)
      else if 224 \<le> code c \<and> code c \<le> 239 then
        (case cs of c1 # c2 # _ \<Rightarrow>
           if utf8_cont c1 \<and> utf8_cont c2 \<and> (code c = 224 \<longrightarrow> 160 \<le> code c1)
              \<and> (code c = 237 \<longrightarrow> code c1 \<le> 159) then 3 else 0
         | _ \<Rightarrow> 0)
      else if 240 \<le> code c \<and> code c \<le> 244 then
        (case cs of c1 # c2 # c3 # _ \<Rightarrow>
           if utf8_cont c1 \<and> utf8_cont c2 \<and> utf8_cont c3 \<and> (code c = 240 \<longrightarrow> 144 \<le> code c1)
              \<and> (code c = 244 \<longrightarrow> code c1 \<le> 143) then 4 else 0
         | _ \<Rightarrow> 0)
      else 0)"

text \<open>U+2028 and U+2029 at the front: the bytes \<open>E2 80 A8\<close> and \<open>E2 80 A9\<close>.\<close>

fun line_sep :: "string \<Rightarrow> bool" where
  "line_sep (c # c1 # c2 # _) \<longleftrightarrow> code c = 226 \<and> code c1 = 128 \<and> (code c2 = 168 \<or> code c2 = 169)"
| "line_sep _ \<longleftrightarrow> False"

definition hexdig :: "nat \<Rightarrow> char" where
  "hexdig n = (if n < 10 then char_of (48 + n) else char_of (87 + n))"

definition u00 :: "char \<Rightarrow> string" where
  "u00 c = BSLASH # ''u00'' @ [hexdig (code c div 16), hexdig (code c mod 16)]"

definition u202 :: "char \<Rightarrow> string" where
  "u202 c = BSLASH # ''u202'' @ [hexdig (code c mod 16)]"

definition html_char :: "char \<Rightarrow> bool" where
  "html_char c \<longleftrightarrow> c = CHR ''<'' \<or> c = CHR ''>'' \<or> c = CHR ''&''"

section \<open>Marshalling\<close>

text \<open>One ASCII byte of a string, escaped as \<^verbatim>\<open>json.Marshal\<close> does (HTML escaping on).\<close>

definition esc_ascii :: "char \<Rightarrow> string" where
  "esc_ascii c =
     (if c = QUOTE \<or> c = BSLASH then [BSLASH, c]
      else if code c = 8 then [BSLASH, CHR ''b'']
      else if code c = 12 then [BSLASH, CHR ''f'']
      else if code c = 10 then [BSLASH, CHR ''n'']
      else if code c = 13 then [BSLASH, CHR ''r'']
      else if code c = 9 then [BSLASH, CHR ''t'']
      else if code c < 32 \<or> html_char c then u00 c
      else [c])"

fun esc :: "string \<Rightarrow> string" where
  "esc [] = []"
| "esc (c # cs) =
     (if code c < 128 then esc_ascii c @ esc cs
      else if utf8_len (c # cs) = 0 then (BSLASH # ''ufffd'') @ esc cs
      else if line_sep (c # cs) then u202 (cs ! 1) @ esc (drop 2 cs)
      else c # take (utf8_len (c # cs) - 1) cs @ esc (drop (utf8_len (c # cs) - 1) cs))"

definition quote :: "string \<Rightarrow> string" where
  "quote s = QUOTE # esc s @ [QUOTE]"

text \<open>An object from its field names and the marshalled values of its fields.\<close>

definition jmember :: "string \<times> string \<Rightarrow> string" where
  "jmember kv = QUOTE # fst kv @ [QUOTE, CHR '':''] @ snd kv"

fun jmembers :: "(string \<times> string) list \<Rightarrow> string" where
  "jmembers [] = []"
| "jmembers [kv] = jmember kv"
| "jmembers (kv # kvs) = jmember kv @ CHR '','' # jmembers kvs"

definition jobject :: "(string \<times> string) list \<Rightarrow> string" where
  "jobject kvs = CHR ''{'' # jmembers kvs @ ''}''"

fun jelements :: "string list \<Rightarrow> string" where
  "jelements [] = []"
| "jelements [v] = v"
| "jelements (v # vs) = v @ CHR '','' # jelements vs"

definition jarray :: "string list \<Rightarrow> string" where
  "jarray vs = CHR ''['' # jelements vs @ '']''"

definition jbool :: "bool \<Rightarrow> string" where
  "jbool b = (if b then ''true'' else ''false'')"

definition is_ws :: "char \<Rightarrow> bool" where
  "is_ws c \<longleftrightarrow> code c = 32 \<or> code c = 9 \<or> code c = 10 \<or> code c = 13"

text \<open>\<^verbatim>\<open>appendCompact\<close> with HTML escaping: whitespace outside strings is dropped, the three HTML
  characters and the two line separators are escaped. The flags say whether the scanner is
  inside a string and after a backslash.\<close>

fun compact :: "bool \<Rightarrow> bool \<Rightarrow> string \<Rightarrow> string" where
  "compact ins e [] = []"
| "compact ins e (c # cs) =
     (if html_char c then u00 c @ compact ins False cs
      else if line_sep (c # cs) then u202 (cs ! 1) @ compact ins False (drop 2 cs)
      else if ins then
        (if e then c # compact True False cs
         else if c = BSLASH then c # compact True True cs
         else if c = QUOTE then c # compact False False cs
         else c # compact True False cs)
      else if is_ws c then compact False False cs
      else if c = QUOTE then c # compact True False cs
      else c # compact False False cs)"

section \<open>The scanner\<close>

datatype json =
    JNull
  | JBool bool
  | JNum string
  | JStr string
  | JArr "json list"
  | JObj "(string \<times> json) list"

text \<open>What encloses the value being scanned: an array with its elements so far, an object with
  its members so far, an object whose next member's key has been read.\<close>

datatype jframe =
    FArr "json list"
  | FObj "(string \<times> json) list"
  | FKey string "(string \<times> json) list"

datatype jmode =
    BeginValue
  | BeginValueOrEmpty
  | BeginString
  | BeginStringOrEmpty
  | InStr bool string
  | InEsc bool string
  | InEscU nat bool string
  | AfterKey
  | Neg string
  | Num0 string
  | Num1 string
  | Dot string
  | Dot0 string
  | NumE string
  | NumESign string
  | NumE0 string
  | Lit string json
  | EndValue
  | EndTop json

type_synonym jstate = "jmode \<times> jframe list"

definition maxNestingDepth :: nat where
  "maxNestingDepth = 10000"

text \<open>A complete value goes to the enclosing frame, or ends the text.\<close>

fun jcomplete :: "json \<Rightarrow> jframe list \<Rightarrow> jstate option" where
  "jcomplete v [] = Some (EndTop v, [])"
| "jcomplete v (FArr vs # st) = Some (EndValue, FArr (v # vs) # st)"
| "jcomplete v (FKey k ms # st) = Some (EndValue, FObj ((k, v) # ms) # st)"
| "jcomplete v (FObj ms # st) = None"

fun hexval :: "char \<Rightarrow> nat" where
  "hexval c = (if code c \<le> 57 then code c - 48
               else if code c \<le> 70 then code c - 55 else code c - 87)"

definition is_hex :: "char \<Rightarrow> bool" where
  "is_hex c \<longleftrightarrow> is_digit c \<or> (65 \<le> code c \<and> code c \<le> 70) \<or> (97 \<le> code c \<and> code c \<le> 102)"

text \<open>UTF-8 of a code point.\<close>

definition utf8_enc :: "nat \<Rightarrow> string" where
  "utf8_enc r =
     (if r < 128 then [char_of r]
      else if r < 2048 then [char_of (192 + r div 64), char_of (128 + r mod 64)]
      else if r < 65536 then
        [char_of (224 + r div 4096), char_of (128 + r div 64 mod 64), char_of (128 + r mod 64)]
      else [char_of (240 + r div 262144), char_of (128 + r div 4096 mod 64),
            char_of (128 + r div 64 mod 64), char_of (128 + r mod 64)])"

definition u4 :: "char \<Rightarrow> char \<Rightarrow> char \<Rightarrow> char \<Rightarrow> nat" where
  "u4 a b c d = 4096 * hexval a + 256 * hexval b + 16 * hexval c + hexval d"

definition RUNE_ERROR :: string where
  "RUNE_ERROR = utf8_enc 65533"

definition unesc_char :: "char \<Rightarrow> char" where
  "unesc_char c =
     (if c = CHR ''b'' then char_of (8 :: nat) else if c = CHR ''f'' then char_of (12 :: nat)
      else if c = CHR ''n'' then char_of (10 :: nat) else if c = CHR ''r'' then char_of (13 :: nat)
      else if c = CHR ''t'' then char_of (9 :: nat) else c)"

text \<open>\<^verbatim>\<open>\uXXXX\<close> at the front, as \<^verbatim>\<open>getu4\<close> reads it.\<close>

fun getu4 :: "string \<Rightarrow> nat option" where
  "getu4 (x # u # a # b # c # d # _) =
     (if x = BSLASH \<and> u = CHR ''u'' \<and> is_hex a \<and> is_hex b \<and> is_hex c \<and> is_hex d
      then Some (u4 a b c d) else None)"
| "getu4 _ = None"

text \<open>The bytes a scanned string body stands for (\<^verbatim>\<open>unquoteBytes\<close>): escapes replaced, surrogate
  pairs joined, everything that is not UTF-8 replaced by U+FFFD.\<close>

fun unquote :: "string \<Rightarrow> string" where
  "unquote [] = []"
| "unquote (c # cs) =
     (if c = BSLASH then
        (case getu4 (c # cs) of
           Some r \<Rightarrow>
             (if 55296 \<le> r \<and> r < 57344 then
                (case getu4 (drop 5 cs) of
                   Some r1 \<Rightarrow>
                     if r < 56320 \<and> 56320 \<le> r1 \<and> r1 < 57344
                     then utf8_enc ((r - 55296) * 1024 + (r1 - 56320) + 65536) @ unquote (drop 11 cs)
                     else RUNE_ERROR @ unquote (drop 5 cs)
                 | None \<Rightarrow> RUNE_ERROR @ unquote (drop 5 cs))
              else utf8_enc r @ unquote (drop 5 cs))
         | None \<Rightarrow> (case cs of [] \<Rightarrow> [] | d # ds \<Rightarrow> unesc_char d # unquote ds))
      else if code c < 128 then c # unquote cs
      else if utf8_len (c # cs) = 0 then RUNE_ERROR @ unquote cs
      else c # take (utf8_len (c # cs) - 1) cs @ unquote (drop (utf8_len (c # cs) - 1) cs))"

definition jend :: "char \<Rightarrow> jframe list \<Rightarrow> jstate option" where
  "jend c st =
     (if is_ws c then Some (EndValue, st)
      else case st of
        FArr vs # st' \<Rightarrow>
          if c = CHR '','' then Some (BeginValue, st)
          else if c = CHR '']'' then jcomplete (JArr (rev vs)) st' else None
      | FObj ms # st' \<Rightarrow>
          if c = CHR '','' then Some (BeginString, st)
          else if c = CHR ''}'' then jcomplete (JObj (rev ms)) st' else None
      | _ \<Rightarrow> None)"

text \<open>A byte after a complete value (also the byte that ends a number).\<close>

definition jafter :: "char \<Rightarrow> jstate option \<Rightarrow> jstate option" where
  "jafter c r =
     (case r of
        Some (EndTop v, st) \<Rightarrow> if is_ws c then Some (EndTop v, st) else None
      | Some (EndValue, st) \<Rightarrow> jend c st
      | _ \<Rightarrow> None)"

definition jpush :: "jframe \<Rightarrow> jmode \<Rightarrow> jframe list \<Rightarrow> jstate option" where
  "jpush f m st = (if length st < maxNestingDepth then Some (m, f # st) else None)"

definition jbegin :: "char \<Rightarrow> jframe list \<Rightarrow> jstate option" where
  "jbegin c st =
     (if is_ws c then Some (BeginValue, st)
      else if c = CHR ''{'' then jpush (FObj []) BeginStringOrEmpty st
      else if c = CHR ''['' then jpush (FArr []) BeginValueOrEmpty st
      else if c = QUOTE then Some (InStr False [], st)
      else if c = CHR ''-'' then Some (Neg [c], st)
      else if c = CHR ''0'' then Some (Num0 [c], st)
      else if is_digit c then Some (Num1 [c], st)
      else if c = CHR ''t'' then Some (Lit ''rue'' (JBool True), st)
      else if c = CHR ''f'' then Some (Lit ''alse'' (JBool False), st)
      else if c = CHR ''n'' then Some (Lit ''ull'' JNull, st)
      else None)"

fun jstring_done :: "bool \<Rightarrow> string \<Rightarrow> jframe list \<Rightarrow> jstate option" where
  "jstring_done False acc st = jcomplete (JStr (unquote (rev acc))) st"
| "jstring_done True acc (FObj ms # st) = Some (AfterKey, FKey (unquote (rev acc)) ms # st)"
| "jstring_done True acc _ = None"

fun jstep :: "char \<Rightarrow> jstate \<Rightarrow> jstate option" where
  "jstep c (BeginValue, st) = jbegin c st"
| "jstep c (BeginValueOrEmpty, st) =
     (if is_ws c then Some (BeginValueOrEmpty, st)
      else if c = CHR '']'' then
        (case st of FArr vs # st' \<Rightarrow> jcomplete (JArr (rev vs)) st' | _ \<Rightarrow> None)
      else jbegin c st)"
| "jstep c (BeginString, st) =
     (if is_ws c then Some (BeginString, st)
      else if c = QUOTE then Some (InStr True [], st) else None)"
| "jstep c (BeginStringOrEmpty, st) =
     (if is_ws c then Some (BeginStringOrEmpty, st)
      else if c = QUOTE then Some (InStr True [], st)
      else if c = CHR ''}'' then
        (case st of FObj ms # st' \<Rightarrow> jcomplete (JObj (rev ms)) st' | _ \<Rightarrow> None)
      else None)"
| "jstep c (InStr k acc, st) =
     (if c = QUOTE then jstring_done k acc st
      else if c = BSLASH then Some (InEsc k (c # acc), st)
      else if code c < 32 then None
      else Some (InStr k (c # acc), st))"
| "jstep c (InEsc k acc, st) =
     (if c \<in> {CHR ''b'', CHR ''f'', CHR ''n'', CHR ''r'', CHR ''t'', BSLASH, CHR ''/'', QUOTE}
      then Some (InStr k (c # acc), st)
      else if c = CHR ''u'' then Some (InEscU 4 k (c # acc), st) else None)"
| "jstep c (InEscU n k acc, st) =
     (if is_hex c then
        (if n \<le> 1 then Some (InStr k (c # acc), st) else Some (InEscU (n - 1) k (c # acc), st))
      else None)"
| "jstep c (AfterKey, st) =
     (if is_ws c then Some (AfterKey, st)
      else if c = CHR '':'' then Some (BeginValue, st) else None)"
| "jstep c (Neg acc, st) =
     (if c = CHR ''0'' then Some (Num0 (c # acc), st)
      else if is_digit c then Some (Num1 (c # acc), st) else None)"
| "jstep c (Num1 acc, st) =
     (if is_digit c then Some (Num1 (c # acc), st)
      else if c = CHR ''.'' then Some (Dot (c # acc), st)
      else if c = CHR ''e'' \<or> c = CHR ''E'' then Some (NumE (c # acc), st)
      else jafter c (jcomplete (JNum (rev acc)) st))"
| "jstep c (Num0 acc, st) =
     (if c = CHR ''.'' then Some (Dot (c # acc), st)
      else if c = CHR ''e'' \<or> c = CHR ''E'' then Some (NumE (c # acc), st)
      else jafter c (jcomplete (JNum (rev acc)) st))"
| "jstep c (Dot acc, st) = (if is_digit c then Some (Dot0 (c # acc), st) else None)"
| "jstep c (Dot0 acc, st) =
     (if is_digit c then Some (Dot0 (c # acc), st)
      else if c = CHR ''e'' \<or> c = CHR ''E'' then Some (NumE (c # acc), st)
      else jafter c (jcomplete (JNum (rev acc)) st))"
| "jstep c (NumE acc, st) =
     (if c = CHR ''+'' \<or> c = CHR ''-'' then Some (NumESign (c # acc), st)
      else if is_digit c then Some (NumE0 (c # acc), st) else None)"
| "jstep c (NumESign acc, st) = (if is_digit c then Some (NumE0 (c # acc), st) else None)"
| "jstep c (NumE0 acc, st) =
     (if is_digit c then Some (NumE0 (c # acc), st)
      else jafter c (jcomplete (JNum (rev acc)) st))"
| "jstep c (Lit r v, st) =
     (case r of
        [] \<Rightarrow> None
      | d # ds \<Rightarrow> if c = d then (if ds = [] then jcomplete v st else Some (Lit ds v, st)) else None)"
| "jstep c (EndValue, st) = jend c st"
| "jstep c (EndTop v, st) = (if is_ws c then Some (EndTop v, st) else None)"

fun jrun :: "string \<Rightarrow> jstate \<Rightarrow> jstate option" where
  "jrun [] s = Some s"
| "jrun (c # cs) s = (case jstep c s of None \<Rightarrow> None | Some s' \<Rightarrow> jrun cs s')"

text \<open>End of input: the value, if the text is complete (a number may end there).\<close>

fun jeof :: "jstate \<Rightarrow> json option" where
  "jeof (EndTop v, st) = Some v"
| "jeof (Num0 acc, []) = Some (JNum (rev acc))"
| "jeof (Num1 acc, []) = Some (JNum (rev acc))"
| "jeof (Dot0 acc, []) = Some (JNum (rev acc))"
| "jeof (NumE0 acc, []) = Some (JNum (rev acc))"
| "jeof _ = None"

definition json_parse :: "string \<Rightarrow> json option" where
  "json_parse s = Option.bind (jrun s (BeginValue, [])) jeof"

definition json_Valid :: "string \<Rightarrow> bool" where
  "json_Valid s \<longleftrightarrow> json_parse s \<noteq> None"

text \<open>\<^verbatim>\<open>json.Marshal\<close> of a \<^verbatim>\<open>json.RawMessage\<close>.\<close>

definition marshalRaw :: "string \<Rightarrow> string option" where
  "marshalRaw p = (if json_Valid p then Some (compact False False p) else None)"

section \<open>Decoding struct fields\<close>

text \<open>Field names match up to ASCII case, the long s and the Kelvin sign (\<^verbatim>\<open>foldName\<close>).\<close>

definition lower :: "char \<Rightarrow> char" where
  "lower c = (if 65 \<le> code c \<and> code c \<le> 90 then char_of (code c + 32) else c)"

fun foldName :: "string \<Rightarrow> string" where
  "foldName [] = []"
| "foldName (c # cs) =
     (case cs of
        c1 # cs' \<Rightarrow>
          if code c = 197 \<and> code c1 = 191 then CHR ''s'' # foldName cs'
          else (case cs' of
                  c2 # cs'' \<Rightarrow>
                    if code c = 226 \<and> code c1 = 132 \<and> code c2 = 170 then CHR ''k'' # foldName cs''
                    else lower c # foldName cs
                | [] \<Rightarrow> lower c # foldName cs)
      | [] \<Rightarrow> [lower c])"

text \<open>A member that does not fit its field leaves the field as it was (and is an error of
  \<^verbatim>\<open>Unmarshal\<close>); \<^verbatim>\<open>null\<close> leaves it as it was without an error; a later member wins.\<close>

definition string_member :: "string \<Rightarrow> string \<Rightarrow> string \<times> json \<Rightarrow> string" where
  "string_member f acc kv =
     (if foldName (fst kv) = f then (case snd kv of JStr s \<Rightarrow> s | _ \<Rightarrow> acc) else acc)"

definition uint_member :: "string \<Rightarrow> u64 \<Rightarrow> string \<times> json \<Rightarrow> u64" where
  "uint_member f acc kv =
     (if foldName (fst kv) = f
      then (case snd kv of JNum l \<Rightarrow> (case parseUint l of Some w \<Rightarrow> w | None \<Rightarrow> acc) | _ \<Rightarrow> acc)
      else acc)"

fun members :: "json option \<Rightarrow> (string \<times> json) list" where
  "members (Some (JObj ms)) = ms"
| "members _ = []"

definition string_field :: "string \<Rightarrow> string \<Rightarrow> string" where
  "string_field f p = foldl (string_member f) [] (members (json_parse p))"

definition uint_field :: "string \<Rightarrow> string \<Rightarrow> u64" where
  "uint_field f p = foldl (uint_member f) 0 (members (json_parse p))"

text \<open>\<^verbatim>\<open>Unmarshal\<close> into a struct whose fields are the named strings returns nil.\<close>

definition unmarshal_strings_ok :: "string list \<Rightarrow> string \<Rightarrow> bool" where
  "unmarshal_strings_ok fs p =
     (case json_parse p of
        Some JNull \<Rightarrow> True
      | Some (JObj ms) \<Rightarrow>
          list_all (\<lambda>(k, v). foldName k \<in> set fs \<longrightarrow> (case v of JStr _ \<Rightarrow> True | JNull \<Rightarrow> True | _ \<Rightarrow> False)) ms
      | _ \<Rightarrow> False)"

end
