(* ===== verification/GoPath.thy ===== *)
theory GoPath
  imports GoJSON
begin

text \<open>
  Go's \<^verbatim>\<open>strings\<close> and \<^verbatim>\<open>path/filepath\<close> functions (Unix) as the policy code uses them. The
  lemmas show what a path that equals its own \<^verbatim>\<open>filepath.Clean\<close> looks like: no empty, dot or
  dot-dot component, so a textual prefix of it names a real ancestor directory.
\<close>

section \<open>Strings\<close>

definition hasPrefix :: "string \<Rightarrow> string \<Rightarrow> bool" where
  "hasPrefix s p \<longleftrightarrow> take (length p) s = p"

definition hasSuffix :: "string \<Rightarrow> string \<Rightarrow> bool" where
  "hasSuffix s t \<longleftrightarrow> length t \<le> length s \<and> drop (length s - length t) s = t"

definition trimSuffix :: "string \<Rightarrow> string \<Rightarrow> string" where
  "trimSuffix s t = (if hasSuffix s t then take (length s - length t) s else s)"

definition containsAny :: "string \<Rightarrow> string \<Rightarrow> bool" where
  "containsAny s cs \<longleftrightarrow> list_ex (\<lambda>c. c \<in> set cs) s"

definition equalFold :: "string \<Rightarrow> string \<Rightarrow> bool" where
  "equalFold s t \<longleftrightarrow> map lower s = map lower t"

fun joinStr :: "string \<Rightarrow> string list \<Rightarrow> string" where
  "joinStr sep [] = []"
| "joinStr sep [x] = x"
| "joinStr sep (x # xs) = x @ sep @ joinStr sep xs"

text \<open>The length of the Unicode white space at the front, 0 if there is none.\<close>

fun space_len :: "string \<Rightarrow> nat" where
  "space_len [] = 0"
| "space_len (c # cs) =
     (if code c = 32 \<or> (9 \<le> code c \<and> code c \<le> 13) then 1
      else case cs of
        c1 # cs' \<Rightarrow>
          if code c = 194 \<and> (code c1 = 133 \<or> code c1 = 160) then 2
          else (case cs' of
                  c2 # _ \<Rightarrow>
                    if code c = 225 \<and> code c1 = 154 \<and> code c2 = 128 then 3
                    else if code c = 226 \<and> code c1 = 128 \<and>
                       ((128 \<le> code c2 \<and> code c2 \<le> 138) \<or> code c2 = 168 \<or> code c2 = 169 \<or> code c2 = 175) then 3
                    else if code c = 226 \<and> code c1 = 129 \<and> code c2 = 159 then 3
                    else if code c = 227 \<and> code c1 = 128 \<and> code c2 = 128 then 3
                    else 0
                | [] \<Rightarrow> 0)
      | [] \<Rightarrow> 0)"

text \<open>\<^verbatim>\<open>strings.TrimSpace(s) == ""\<close>.\<close>

fun all_space :: "string \<Rightarrow> bool" where
  "all_space [] = True"
| "all_space (c # cs) =
     (space_len (c # cs) \<noteq> 0 \<and> all_space (drop (space_len (c # cs) - 1) cs))"

section \<open>Paths\<close>

abbreviation SLASH :: char where
  "SLASH \<equiv> CHR ''/''"

definition isAbs :: "string \<Rightarrow> bool" where
  "isAbs p \<longleftrightarrow> hasPrefix p ''/''"

fun splitSlash :: "string \<Rightarrow> string list" where
  "splitSlash [] = [[]]"
| "splitSlash (c # cs) =
     (if c = SLASH then [] # splitSlash cs
      else case splitSlash cs of [] \<Rightarrow> [[c]] | x # xs \<Rightarrow> (c # x) # xs)"

text \<open>One path element of \<^verbatim>\<open>filepath.Clean\<close>; the output elements so far are kept in order.\<close>

definition clean_elem :: "bool \<Rightarrow> string list \<Rightarrow> string \<Rightarrow> string list" where
  "clean_elem rooted out x =
     (if x = [] \<or> x = ''.'' then out
      else if x = ''..'' then
        (if out \<noteq> [] \<and> last out \<noteq> ''..'' then butlast out
         else if rooted then out else out @ [''..''])
      else out @ [x])"

definition Clean :: "string \<Rightarrow> string" where
  "Clean p =
     (if p = [] then ''.''
      else
        let rooted = isAbs p;
            out = foldl (clean_elem rooted) [] (splitSlash p)
        in if rooted then SLASH # joinStr ''/'' out
           else if out = [] then ''.'' else joinStr ''/'' out)"

section \<open>Clean paths\<close>

definition plain :: "string \<Rightarrow> bool" where
  "plain x \<longleftrightarrow> x \<noteq> [] \<and> x \<noteq> ''.'' \<and> x \<noteq> ''..'' \<and> SLASH \<notin> set x"

lemma splitSlash_nonempty [simp]: "splitSlash s \<noteq> []"
  by (cases s) (auto split: list.splits)

lemma splitSlash_no_slash: "x \<in> set (splitSlash s) \<Longrightarrow> SLASH \<notin> set x"
proof (induction s arbitrary: x)
  case Nil
  then show ?case by simp
next
  case (Cons c cs)
  obtain y ys where "splitSlash cs = y # ys"
    using splitSlash_nonempty by (cases "splitSlash cs") auto
  with Cons show ?case by (auto split: if_splits)
qed

lemma splitSlash_atom: "SLASH \<notin> set x \<Longrightarrow> splitSlash x = [x]"
  by (induction x) auto

lemma splitSlash_append: "SLASH \<notin> set x \<Longrightarrow> splitSlash (x @ SLASH # s) = x # splitSlash s"
  by (induction x) auto

lemma joinStr_Cons: "xs \<noteq> [] \<Longrightarrow> joinStr sep (x # xs) = x @ sep @ joinStr sep xs"
  by (cases xs) simp_all

lemma splitSlash_join:
  "xs \<noteq> [] \<Longrightarrow> list_all plain xs \<Longrightarrow> splitSlash (joinStr ''/'' xs) = xs"
proof (induction xs)
  case (Cons x xs)
  then show ?case
    by (cases "xs = []") (simp_all add: plain_def splitSlash_atom joinStr_Cons splitSlash_append)
qed simp

lemma join_splitSlash: "joinStr ''/'' (splitSlash s) = s"
proof (induction s)
  case Nil
  then show ?case by simp
next
  case (Cons c cs)
  obtain y ys where ys: "splitSlash cs = y # ys"
    using splitSlash_nonempty by (cases "splitSlash cs") auto
  with Cons show ?case by (cases ys) auto
qed

lemma clean_elem_plain:
  assumes "list_all plain out" and "SLASH \<notin> set x"
  shows "list_all plain (clean_elem True out x)"
proof -
  have "list_all plain (butlast out)"
    using assms(1) by (auto simp: list_all_iff dest: in_set_butlastD)
  moreover have "plain x" if "x \<noteq> []" "x \<noteq> ''.''" "x \<noteq> ''..''"
    using that assms(2) by (simp add: plain_def)
  ultimately show ?thesis
    using assms(1) by (auto simp: clean_elem_def)
qed

lemma foldl_clean_elem_plain:
  "list_all plain out \<Longrightarrow> \<forall>x \<in> set xs. SLASH \<notin> set x \<Longrightarrow>
     list_all plain (foldl (clean_elem True) out xs)"
  by (induction xs arbitrary: out) (auto simp: clean_elem_plain)

lemma foldl_clean_elem_id:
  "list_all plain xs \<Longrightarrow> foldl (clean_elem rooted) out xs = out @ xs"
  by (induction xs arbitrary: out) (auto simp: clean_elem_def plain_def)

text \<open>The components of a rooted path after cleaning.\<close>

definition clean_comps :: "string \<Rightarrow> string list" where
  "clean_comps p = foldl (clean_elem True) [] (splitSlash p)"

lemma Clean_rooted: "isAbs p \<Longrightarrow> Clean p = SLASH # joinStr ''/'' (clean_comps p)"
  by (auto simp: Clean_def clean_comps_def isAbs_def hasPrefix_def)

lemma clean_comps_plain: "list_all plain (clean_comps p)"
  unfolding clean_comps_def
  by (rule foldl_clean_elem_plain) (auto dest: splitSlash_no_slash)

lemma clean_comps_join:
  assumes "list_all plain xs"
  shows "clean_comps (SLASH # joinStr ''/'' xs) = xs"
proof (cases "xs = []")
  case True
  then show ?thesis by (simp add: clean_comps_def clean_elem_def)
next
  case False
  then have "splitSlash (SLASH # joinStr ''/'' xs) = [] # xs"
    using assms by (simp add: splitSlash_join)
  then show ?thesis
    using assms foldl_clean_elem_id [of xs True "[]"]
    by (simp add: clean_comps_def clean_elem_def)
qed

lemma Clean_idem: "isAbs p \<Longrightarrow> Clean (Clean p) = Clean p"
  using clean_comps_join [OF clean_comps_plain [of p]]
  by (simp add: Clean_rooted isAbs_def hasPrefix_def)

text \<open>A rooted path is clean exactly when it is a slash-joined list of plain components.\<close>

definition cleanAbs :: "string \<Rightarrow> bool" where
  "cleanAbs p \<longleftrightarrow> isAbs p \<and> Clean p = p"

lemma cleanAbs_comps:
  "cleanAbs p \<Longrightarrow> p = SLASH # joinStr ''/'' (clean_comps p) \<and> list_all plain (clean_comps p)"
  using Clean_rooted [of p] clean_comps_plain [of p] by (simp add: cleanAbs_def)

lemma joinStr_append:
  "xs \<noteq> [] \<Longrightarrow> ys \<noteq> [] \<Longrightarrow> joinStr sep (xs @ ys) = joinStr sep xs @ sep @ joinStr sep ys"
proof (induction xs)
  case (Cons x xs)
  then show ?case by (cases "xs = []") (simp_all add: joinStr_Cons)
qed simp

lemma hasPrefix_append: "hasPrefix s p \<longleftrightarrow> (\<exists>r. s = p @ r)"
  by (metis append_take_drop_id append_eq_conv_conj hasPrefix_def)

lemma hasSuffix_append: "hasSuffix s t \<longleftrightarrow> (\<exists>r. s = r @ t)"
proof
  assume "hasSuffix s t"
  then show "\<exists>r. s = r @ t"
    by (metis append_take_drop_id hasSuffix_def)
next
  assume "\<exists>r. s = r @ t"
  then show "hasSuffix s t" by (auto simp: hasSuffix_def)
qed

lemma trimSuffix_append [simp]: "trimSuffix (r @ t) t = r"
  by (simp add: trimSuffix_def hasSuffix_def)

lemma splitSlash_append_slash: "splitSlash (a @ SLASH # b) = splitSlash a @ splitSlash b"
proof (induction a)
  case Nil
  then show ?case by simp
next
  case (Cons c cs)
  obtain y ys where "splitSlash cs = y # ys"
    using splitSlash_nonempty by (cases "splitSlash cs") auto
  with Cons show ?case by auto
qed

lemma cleanAbs_split:
  assumes "cleanAbs p"
  shows "p = ''/'' \<or> splitSlash p = [] # clean_comps p"
proof -
  have p: "p = SLASH # joinStr ''/'' (clean_comps p)" and pl: "list_all plain (clean_comps p)"
    using cleanAbs_comps [OF assms] by blast+
  show ?thesis
  proof (cases "clean_comps p = []")
    case True
    then show ?thesis by (subst p) simp
  next
    case False
    have "splitSlash (SLASH # joinStr ''/'' (clean_comps p)) = [] # clean_comps p"
      using splitSlash_join [OF False pl] by simp
    with p show ?thesis by simp
  qed
qed

text \<open>The textual test \<^verbatim>\<open>strings.HasPrefix(path, base + "/")\<close> on clean paths is containment of
  the component lists.\<close>

lemma prefix_slash_comps:
  assumes "cleanAbs p" and "cleanAbs b" and "hasPrefix p (b @ ''/'')"
  shows "\<exists>cs. clean_comps p = clean_comps b @ cs"
proof (cases "b = ''/''")
  case True
  then show ?thesis by (simp add: clean_comps_def clean_elem_def)
next
  case False
  from assms(3) obtain r where p: "p = b @ SLASH # r"
    by (auto simp: hasPrefix_append)
  have "b \<noteq> []" using assms(2) by (auto simp: cleanAbs_def isAbs_def hasPrefix_def)
  then have "p \<noteq> ''/''" using p by (cases b) auto
  then have "[] # clean_comps p = splitSlash p" using cleanAbs_split [OF assms(1)] by simp
  also have "\<dots> = splitSlash b @ splitSlash r" by (simp add: p splitSlash_append_slash)
  also have "\<dots> = [] # (clean_comps b @ splitSlash r)"
    using cleanAbs_split [OF assms(2)] False by simp
  finally show ?thesis by auto
qed

end
