(* ===== verification/SHA256.thy ===== *)
theory SHA256
  imports GoJSON
begin

unbundle bit_operations_syntax

text \<open>
  SHA-256 (FIPS 180-4), the digest of \<^verbatim>\<open>crypto/sha256\<close> that the audit chain, the content
  store and the capability registry use, always through \<^verbatim>\<open>hex.EncodeToString\<close>. The
  definitions are executable. Beyond the shape of a digest (64 hexadecimal digits, below) no proof
  of the development unfolds them: what the runtime needs of the digest is stated as an explicit
  alternative (equal inputs, or a named collision).
\<close>

definition sha_K :: "u32 list" where
  "sha_K =
     [1116352408, 1899447441, 3049323471, 3921009573, 961987163, 1508970993, 2453635748, 2870763221,
      3624381080, 310598401, 607225278, 1426881987, 1925078388, 2162078206, 2614888103, 3248222580,
      3835390401, 4022224774, 264347078, 604807628, 770255983, 1249150122, 1555081692, 1996064986,
      2554220882, 2821834349, 2952996808, 3210313671, 3336571891, 3584528711, 113926993, 338241895,
      666307205, 773529912, 1294757372, 1396182291, 1695183700, 1986661051, 2177026350, 2456956037,
      2730485921, 2820302411, 3259730800, 3345764771, 3516065817, 3600352804, 4094571909, 275423344,
      430227734, 506948616, 659060556, 883997877, 958139571, 1322822218, 1537002063, 1747873779,
      1955562222, 2024104815, 2227730452, 2361852424, 2428436474, 2756734187, 3204031479, 3329325298]"

definition sha_H0 :: "u32 list" where
  "sha_H0 =
     [1779033703, 3144134277, 1013904242, 2773480762, 1359893119, 2600822924, 528734635, 1541459225]"

definition sha_byte :: "nat \<Rightarrow> nat \<Rightarrow> char" where
  "sha_byte k n = char_of (n div 256 ^ k mod 256)"

text \<open>The message, a one bit, zeros up to 56 bytes modulo 64, the length in bits.\<close>

definition sha_pad :: "string \<Rightarrow> string" where
  "sha_pad s = s @ char_of (128 :: nat) # replicate ((119 - length s mod 64) mod 64) (char_of (0 :: nat))
                 @ map (\<lambda>k. sha_byte k (8 * length s)) (rev [0..<8])"

fun sha_words :: "string \<Rightarrow> u32 list" where
  "sha_words (a # b # c # d # cs) =
     of_nat (((code a * 256 + code b) * 256 + code c) * 256 + code d) # sha_words cs"
| "sha_words _ = []"

definition sha_s0 :: "u32 \<Rightarrow> u32" where
  "sha_s0 x = word_rotr 7 x XOR word_rotr 18 x XOR drop_bit 3 x"

definition sha_s1 :: "u32 \<Rightarrow> u32" where
  "sha_s1 x = word_rotr 17 x XOR word_rotr 19 x XOR drop_bit 10 x"

text \<open>The message schedule, latest word first.\<close>

fun sha_schedule :: "nat \<Rightarrow> u32 list \<Rightarrow> u32 list" where
  "sha_schedule 0 ws = ws"
| "sha_schedule (Suc n) ws =
     sha_schedule n ((sha_s1 (ws ! 1) + ws ! 6 + sha_s0 (ws ! 14) + ws ! 15) # ws)"

fun sha_round :: "u32 list \<Rightarrow> u32 \<times> u32 \<Rightarrow> u32 list" where
  "sha_round [a, b, c, d, e, f, g, h] (k, w) =
     (let t1 = h + (word_rotr 6 e XOR word_rotr 11 e XOR word_rotr 25 e)
               + ((e AND f) XOR ((NOT e) AND g)) + k + w;
          t2 = (word_rotr 2 a XOR word_rotr 13 a XOR word_rotr 22 a)
               + ((a AND b) XOR (a AND c) XOR (b AND c))
      in [t1 + t2, a, b, c, d + t1, e, f, g])"
| "sha_round hs _ = hs"

definition sha_block :: "u32 list \<Rightarrow> u32 list \<Rightarrow> u32 list" where
  "sha_block hs ws =
     map2 (+) hs (foldl sha_round hs (zip sha_K (rev (sha_schedule 48 (rev ws)))))"

fun sha_blocks :: "u32 list \<Rightarrow> u32 list \<Rightarrow> u32 list" where
  "sha_blocks hs [] = hs"
| "sha_blocks hs (w # ws) = sha_blocks (sha_block hs (take 16 (w # ws))) (drop 15 ws)"

definition hex32 :: "u32 \<Rightarrow> string" where
  "hex32 w = map (\<lambda>k. hexdig (unat w div 16 ^ k mod 16)) (rev [0..<8])"

definition sha256hex :: "string \<Rightarrow> string" where
  "sha256hex s = concat (map hex32 (sha_blocks sha_H0 (sha_words (sha_pad s))))"

section \<open>The shape of a digest\<close>

lemma sha_round_length: "length hs = 8 \<Longrightarrow> length (sha_round hs kw) = 8"
  by (cases kw; auto simp: length_Suc_conv eval_nat_numeral Let_def)

lemma foldl_sha_round_length: "length hs = 8 \<Longrightarrow> length (foldl sha_round hs kws) = 8"
  by (induction kws arbitrary: hs) (auto simp: sha_round_length)

lemma sha_blocks_length: "length hs = 8 \<Longrightarrow> length (sha_blocks hs ws) = 8"
  by (induction hs ws rule: sha_blocks.induct) (simp_all add: sha_block_def foldl_sha_round_length)

lemma sha256hex_length [simp]: "length (sha256hex s) = 64"
proof -
  have "length (sha_blocks sha_H0 (sha_words (sha_pad s))) = 8"
    by (rule sha_blocks_length) (simp add: sha_H0_def)
  then show ?thesis
    by (simp add: sha256hex_def length_concat comp_def hex32_def sum_list_triv)
qed

lemma sha256hex_nonempty [simp]: "sha256hex s \<noteq> []"
  using sha256hex_length [of s] by (metis list.size(3) zero_neq_numeral)

lemma hexdig_code: "n < 16 \<Longrightarrow> code (hexdig n) = (if n < 10 then 48 + n else 87 + n)"
  by (simp add: hexdig_def)

lemma sha256hex_digits: "c \<in> set (sha256hex s) \<Longrightarrow> \<exists>n < 16. c = hexdig n"
proof -
  have "\<exists>n < 16. hexdig (m mod 16) = hexdig n" for m :: nat
    by (rule exI [of _ "m mod 16"]) simp
  then show "c \<in> set (sha256hex s) \<Longrightarrow> \<exists>n < 16. c = hexdig n"
    by (auto simp: sha256hex_def hex32_def)
qed

end
