(* ===== verification/ContextStore.thy ===== *)
theory ContextStore
  imports GoPath SHA256
begin

text \<open>
  The context store (\<^verbatim>\<open>runtime/context_store.go\<close>): content-addressed blobs, contexts with sealed
  pages and a tail, checkpoint and artifact grants, idempotent operations and the commit log.

  The SQLite tables are the fields of \<open>cstore\<close>; a transaction is a function that returns either an
  error, and then the tables are as before (\<^verbatim>\<open>tx.Rollback\<close>), or a result and the new tables.
  \<open>db_outcomes\<close> lists what the storage engine does with the next transactions: \<open>False\<close> is a
  transaction that fails (at \<^verbatim>\<open>Begin\<close>, at a statement or at \<^verbatim>\<open>Commit\<close>) and is rolled back;
  past the end of the list transactions succeed. Random identifiers are arguments; \<open>None\<close> is
  a failing \<^verbatim>\<open>rand.Read\<close>.
\<close>

section \<open>Tables\<close>

record contextrow =
  c_Owner :: string
  c_Tail :: "string option"

record lsfscommit =
  lc_Cursor :: int
  lc_ContextID :: string
  lc_Kind :: string
  lc_Handle :: string
  lc_IdempotencyKey :: string

record cstore =
  db_blobs :: "string gomap"
  db_contexts :: "contextrow gomap"
  db_pages :: "(string \<times> nat \<times> string) list"
  db_grants :: "(string \<times> string \<times> string) list"
  db_operations :: "((string \<times> string) \<times> (string \<times> string)) list"
  db_commits :: "lsfscommit list"
  db_outcomes :: "bool list"

definition empty_cstore :: cstore where
  "empty_cstore = \<lparr>db_blobs = [], db_contexts = [], db_pages = [], db_grants = [],
     db_operations = [], db_commits = [], db_outcomes = []\<rparr>"

record contextpage =
  cp_Hash :: string
  cp_Bytes :: int

record contextsnapshot =
  sn_ContextID :: string
  sn_Prefix :: "contextpage list"
  sn_Tail :: "contextpage option"

record contextstats =
  st_Contexts :: nat
  st_References :: nat
  st_UniqueBlobs :: nat
  st_SharedBlobs :: nat
  st_LogicalBytes :: int
  st_UniqueBytes :: int
  st_SavedBytes :: int

type_synonym 'a tx = "cstore \<Rightarrow> error + ('a \<times> cstore)"

text \<open>The outcome of the next transaction.\<close>

definition begin_tx :: "cstore \<Rightarrow> bool \<times> cstore" where
  "begin_tx st = (case db_outcomes st of [] \<Rightarrow> (True, st) | b # bs \<Rightarrow> (b, st\<lparr>db_outcomes := bs\<rparr>))"

section \<open>Blobs and access\<close>

definition contextHash :: "string \<Rightarrow> string" where
  "contextHash data = sha256hex data"

definition contextBlob :: "cstore \<Rightarrow> string \<Rightarrow> string result" where
  "contextBlob st hash =
     (case gget (db_blobs st) hash of
        None \<Rightarrow> Inl ErrContextCorrupt
      | Some data \<Rightarrow> if contextHash data \<noteq> hash then Inl ErrContextCorrupt else Inr data)"

definition insert_blob :: "string \<Rightarrow> string \<Rightarrow> cstore \<Rightarrow> cstore" where
  "insert_blob hash data st =
     (if gget (db_blobs st) hash = None then st\<lparr>db_blobs := (hash, data) # db_blobs st\<rparr> else st)"

definition putContextBlob :: "string \<Rightarrow> string tx" where
  "putContextBlob data st =
     (let hash = contextHash data; st1 = insert_blob hash data st
      in case contextBlob st1 hash of Inl e \<Rightarrow> Inl e | Inr _ \<Rightarrow> Inr (hash, st1))"

definition authorizeContext :: "cstore \<Rightarrow> string \<Rightarrow> string \<Rightarrow> error option" where
  "authorizeContext st owner cid =
     (if owner = [] then Some ErrContextAccess
      else case gget (db_contexts st) cid of
        None \<Rightarrow> Some ErrContextAccess
      | Some row \<Rightarrow> if c_Owner row \<noteq> owner then Some ErrContextAccess else None)"

definition hexbytes :: "string \<Rightarrow> string" where
  "hexbytes bs = concat (map (\<lambda>c. [hexdig (code c div 16), hexdig (code c mod 16)]) bs)"

definition newContextID :: "string option \<Rightarrow> string result" where
  "newContextID rnd = (case rnd of None \<Rightarrow> Inl (ErrMsg ''rand'') | Some bs \<Rightarrow> Inr (hexbytes bs))"

definition insert_context :: "string \<Rightarrow> string \<Rightarrow> cstore \<Rightarrow> cstore result" where
  "insert_context cid owner st =
     (if gget (db_contexts st) cid \<noteq> None then Inl ErrStorage
      else Inr (st\<lparr>db_contexts := (cid, \<lparr>c_Owner = owner, c_Tail = None\<rparr>) # db_contexts st\<rparr>))"

definition insert_page :: "string \<Rightarrow> nat \<Rightarrow> string \<Rightarrow> cstore \<Rightarrow> cstore result" where
  "insert_page cid pos hash st =
     (if list_ex (\<lambda>(c, p, _). c = cid \<and> p = pos) (db_pages st) then Inl ErrStorage
      else Inr (st\<lparr>db_pages := db_pages st @ [(cid, pos, hash)]\<rparr>))"

definition set_tail :: "string \<Rightarrow> string option \<Rightarrow> cstore \<Rightarrow> cstore" where
  "set_tail cid tail st =
     (case gget (db_contexts st) cid of
        None \<Rightarrow> st
      | Some row \<Rightarrow> st\<lparr>db_contexts := gput cid (row\<lparr>c_Tail := tail\<rparr>) (db_contexts st)\<rparr>)"

definition get_tail :: "string \<Rightarrow> cstore \<Rightarrow> string option result" where
  "get_tail cid st =
     (case gget (db_contexts st) cid of None \<Rightarrow> Inl ErrStorage | Some row \<Rightarrow> Inr (c_Tail row))"

text \<open>\<^verbatim>\<open>SELECT hash FROM pages WHERE context_id=? ORDER BY position\<close>.\<close>

definition page_rows :: "string \<Rightarrow> cstore \<Rightarrow> (nat \<times> string) list" where
  "page_rows cid st = map snd (filter (\<lambda>(c, _). c = cid) (db_pages st))"

definition page_hashes :: "string \<Rightarrow> cstore \<Rightarrow> string list" where
  "page_hashes cid st = map snd (sort_key fst (page_rows cid st))"

definition next_position :: "string \<Rightarrow> cstore \<Rightarrow> nat" where
  "next_position cid st = foldr max (map (\<lambda>(p, _). Suc p) (page_rows cid st)) 0"

definition insert_grant :: "string \<Rightarrow> string \<Rightarrow> string \<Rightarrow> cstore \<Rightarrow> cstore" where
  "insert_grant cid hash kind st =
     (if (cid, hash, kind) \<in> set (db_grants st) then st
      else st\<lparr>db_grants := (cid, hash, kind) # db_grants st\<rparr>)"

section \<open>Operations\<close>

definition ContextStore_Create :: "cstore \<Rightarrow> string \<Rightarrow> string \<Rightarrow> string option \<Rightarrow> string result \<times> cstore" where
  "ContextStore_Create st owner pre rnd =
     (if all_space owner then (Inl ErrContextAccess, st)
      else case newContextID rnd of
        Inl e \<Rightarrow> (Inl e, st)
      | Inr cid \<Rightarrow>
          (case begin_tx st of (ok, st1) \<Rightarrow>
             if \<not> ok then (Inl ErrStorage, st1)
             else case insert_context cid owner st1 of
               Inl e \<Rightarrow> (Inl e, st1)
             | Inr st2 \<Rightarrow>
                 if pre = [] then (Inr cid, st2)
                 else case putContextBlob pre st2 of
                   Inl e \<Rightarrow> (Inl e, st1)
                 | Inr (hash, st3) \<Rightarrow>
                     (case insert_page cid 0 hash st3 of Inl e \<Rightarrow> (Inl e, st1) | Inr st4 \<Rightarrow> (Inr cid, st4))))"

text \<open>\<^verbatim>\<open>mutate\<close> binds an idempotency key to its input and its result in one transaction.\<close>

definition op_digest :: "string \<Rightarrow> string \<Rightarrow> string" where
  "op_digest kind input = contextHash (kind @ CHR 0x00 # input)"

definition record_operation :: "string \<Rightarrow> string \<Rightarrow> string \<Rightarrow> string \<Rightarrow> string \<Rightarrow> cstore \<Rightarrow> cstore" where
  "record_operation cid key kind digest res st =
     st\<lparr>db_operations := ((cid, key), (digest, res)) # db_operations st,
        db_commits := db_commits st @
          [\<lparr>lc_Cursor = (if db_commits st = [] then 1 else lc_Cursor (last (db_commits st)) + 1),
            lc_ContextID = cid, lc_Kind = kind, lc_Handle = res, lc_IdempotencyKey = key\<rparr>]\<rparr>"

definition mutate ::
  "cstore \<Rightarrow> string \<Rightarrow> string \<Rightarrow> string \<Rightarrow> string \<Rightarrow> string \<Rightarrow> string tx \<Rightarrow> string result \<times> cstore" where
  "mutate st owner cid key kind input fn =
     (if key = [] \<or> length key > 1024 then (Inl (ErrMsg ''bounded idempotency key required''), st)
      else case begin_tx st of (ok, st1) \<Rightarrow>
        if \<not> ok then (Inl ErrStorage, st1)
        else case authorizeContext st1 owner cid of
          Some e \<Rightarrow> (Inl e, st1)
        | None \<Rightarrow>
            (case map_of (db_operations st1) (cid, key) of
               Some (oldDigest, res) \<Rightarrow>
                 if oldDigest \<noteq> op_digest kind input then (Inl ErrContextIdempotency, st1)
                 else (Inr res, st1)
             | None \<Rightarrow>
                 (case fn st1 of
                    Inl e \<Rightarrow> (Inl e, st1)
                  | Inr (res, st2) \<Rightarrow>
                      (Inr res, record_operation cid key kind (op_digest kind input) res st2))))"

definition append_tx :: "string \<Rightarrow> string \<Rightarrow> string tx" where
  "append_tx cid data st =
     (case get_tail cid st of
        Inl e \<Rightarrow> Inl e
      | Inr tail \<Rightarrow>
          (case (case tail of None \<Rightarrow> Inr [] | Some h \<Rightarrow> contextBlob st h) of
             Inl e \<Rightarrow> Inl e
           | Inr previous \<Rightarrow>
               (case putContextBlob (previous @ data) st of
                  Inl e \<Rightarrow> Inl e
                | Inr (hash, st1) \<Rightarrow> Inr (hash, set_tail cid (Some hash) st1))))"

definition ContextStore_Append :: "cstore \<Rightarrow> string \<Rightarrow> string \<Rightarrow> string \<Rightarrow> string \<Rightarrow> string result \<times> cstore" where
  "ContextStore_Append st owner cid key data =
     mutate st owner cid key ''append'' data (append_tx cid data)"

text \<open>Seal the parent's tail, then copy its pages to the child.\<close>

definition seal_tail :: "string \<Rightarrow> cstore \<Rightarrow> cstore result" where
  "seal_tail cid st =
     (case gget (db_contexts st) cid of
        None \<Rightarrow> Inr st
      | Some row \<Rightarrow>
          (case c_Tail row of
             None \<Rightarrow> Inr st
           | Some h \<Rightarrow> insert_page cid (next_position cid st) h st))"

fun copy_pages :: "string \<Rightarrow> (nat \<times> string) list \<Rightarrow> cstore \<Rightarrow> cstore result" where
  "copy_pages child [] st = Inr st"
| "copy_pages child ((pos, h) # rows) st =
     (case insert_page child pos h st of Inl e \<Rightarrow> Inl e | Inr st1 \<Rightarrow> copy_pages child rows st1)"

definition fork_tx :: "string \<Rightarrow> string \<Rightarrow> string option \<Rightarrow> string tx" where
  "fork_tx parentID childOwner rnd st =
     (case newContextID rnd of
        Inl e \<Rightarrow> Inl e
      | Inr child \<Rightarrow>
          (case insert_context child childOwner st of
             Inl e \<Rightarrow> Inl e
           | Inr st1 \<Rightarrow>
               (case seal_tail parentID st1 of
                  Inl e \<Rightarrow> Inl e
                | Inr st2 \<Rightarrow>
                    let st3 = set_tail parentID None st2
                    in case copy_pages child (page_rows parentID st3) st3 of
                         Inl e \<Rightarrow> Inl e
                       | Inr st4 \<Rightarrow> Inr (child, st4))))"

definition ContextStore_ForkTo ::
  "cstore \<Rightarrow> string \<Rightarrow> string \<Rightarrow> string \<Rightarrow> string \<Rightarrow> string option \<Rightarrow> string result \<times> cstore" where
  "ContextStore_ForkTo st parentOwner parentID childOwner key rnd =
     (if all_space childOwner then (Inl ErrContextAccess, st)
      else mutate st parentOwner parentID key ''fork'' [] (fork_tx parentID childOwner rnd))"

definition ContextStore_Fork :: "cstore \<Rightarrow> string \<Rightarrow> string \<Rightarrow> string \<Rightarrow> string option \<Rightarrow> string result \<times> cstore" where
  "ContextStore_Fork st owner cid key rnd = ContextStore_ForkTo st owner cid owner key rnd"

definition ContextStore_Pages :: "cstore \<Rightarrow> string \<Rightarrow> string \<Rightarrow> (string list \<times> string) result \<times> cstore" where
  "ContextStore_Pages st owner cid =
     (case begin_tx st of (ok, st1) \<Rightarrow>
        if \<not> ok then (Inl ErrStorage, st1)
        else case authorizeContext st1 owner cid of
          Some e \<Rightarrow> (Inl e, st1)
        | None \<Rightarrow>
            (case get_tail cid st1 of
               Inl e \<Rightarrow> (Inl e, st1)
             | Inr tail \<Rightarrow> (Inr (page_hashes cid st1, case tail of None \<Rightarrow> [] | Some h \<Rightarrow> h), st1)))"

definition blob_page :: "cstore \<Rightarrow> string \<Rightarrow> contextpage result" where
  "blob_page st hash =
     (case contextBlob st hash of
        Inl e \<Rightarrow> Inl e
      | Inr data \<Rightarrow> Inr \<lparr>cp_Hash = hash, cp_Bytes = int (length data)\<rparr>)"

fun blob_pages :: "cstore \<Rightarrow> string list \<Rightarrow> contextpage list result" where
  "blob_pages st [] = Inr []"
| "blob_pages st (h # hs) =
     (case blob_page st h of
        Inl e \<Rightarrow> Inl e
      | Inr p \<Rightarrow> (case blob_pages st hs of Inl e \<Rightarrow> Inl e | Inr ps \<Rightarrow> Inr (p # ps)))"

definition snapshotContext :: "cstore \<Rightarrow> string \<Rightarrow> contextsnapshot result" where
  "snapshotContext st cid =
     (case blob_pages st (page_hashes cid st) of
        Inl e \<Rightarrow> Inl e
      | Inr pre \<Rightarrow>
          (case get_tail cid st of
             Inl e \<Rightarrow> Inl e
           | Inr None \<Rightarrow> Inr \<lparr>sn_ContextID = cid, sn_Prefix = pre, sn_Tail = None\<rparr>
           | Inr (Some h) \<Rightarrow>
               (case blob_page st h of
                  Inl e \<Rightarrow> Inl e
                | Inr p \<Rightarrow> Inr \<lparr>sn_ContextID = cid, sn_Prefix = pre, sn_Tail = Some p\<rparr>)))"

definition ContextStore_Snapshot :: "cstore \<Rightarrow> string \<Rightarrow> string \<Rightarrow> contextsnapshot result \<times> cstore" where
  "ContextStore_Snapshot st owner cid =
     (case begin_tx st of (ok, st1) \<Rightarrow>
        if \<not> ok then (Inl ErrStorage, st1)
        else case authorizeContext st1 owner cid of
          Some e \<Rightarrow> (Inl e, st1)
        | None \<Rightarrow> (snapshotContext st1 cid, st1))"

definition page_json :: "contextpage \<Rightarrow> string" where
  "page_json p = jobject [(''hash'', quote (cp_Hash p)), (''bytes'', dec_int (cp_Bytes p))]"

definition snapshot_json :: "contextsnapshot \<Rightarrow> string" where
  "snapshot_json s = jobject
     ([(''context_id'', quote (sn_ContextID s)), (''prefix'', jarray (map page_json (sn_Prefix s)))]
      @ (case sn_Tail s of None \<Rightarrow> [] | Some p \<Rightarrow> [(''tail'', page_json p)]))"

definition checkpoint_tx :: "string \<Rightarrow> string tx" where
  "checkpoint_tx cid st =
     (case snapshotContext st cid of
        Inl e \<Rightarrow> Inl e
      | Inr snap \<Rightarrow>
          (case putContextBlob (snapshot_json snap) st of
             Inl e \<Rightarrow> Inl e
           | Inr (hash, st1) \<Rightarrow> Inr (hash, insert_grant cid hash ''checkpoint'' st1)))"

definition ContextStore_Checkpoint :: "cstore \<Rightarrow> string \<Rightarrow> string \<Rightarrow> string \<Rightarrow> string result \<times> cstore" where
  "ContextStore_Checkpoint st owner cid key =
     mutate st owner cid key ''checkpoint'' [] (checkpoint_tx cid)"

text \<open>Decoding a snapshot: \<^verbatim>\<open>json.Unmarshal\<close> into \<^verbatim>\<open>ContextSnapshot\<close>; \<open>None\<close> is a type error.\<close>

definition parseInt :: "string \<Rightarrow> int option" where
  "parseInt l =
     (case l of
        [] \<Rightarrow> None
      | c # cs \<Rightarrow>
          if c = CHR ''-'' then
            (if cs \<noteq> [] \<and> list_all is_digit cs \<and> undec cs \<le> 2 ^ 63 then Some (- int (undec cs)) else None)
          else if list_all is_digit l \<and> undec l < 2 ^ 63 then Some (int (undec l)) else None)"

fun decode_page_member :: "contextpage option \<Rightarrow> string \<times> json \<Rightarrow> contextpage option" where
  "decode_page_member None _ = None"
| "decode_page_member (Some p) (k, v) =
     (if foldName k = ''hash'' then
        (case v of JStr h \<Rightarrow> Some (p\<lparr>cp_Hash := h\<rparr>) | JNull \<Rightarrow> Some p | _ \<Rightarrow> None)
      else if foldName k = ''bytes'' then
        (case v of JNum l \<Rightarrow> map_option (\<lambda>n. p\<lparr>cp_Bytes := n\<rparr>) (parseInt l) | JNull \<Rightarrow> Some p | _ \<Rightarrow> None)
      else Some p)"

definition decode_page :: "json \<Rightarrow> contextpage option" where
  "decode_page j =
     (case j of
        JNull \<Rightarrow> Some \<lparr>cp_Hash = [], cp_Bytes = 0\<rparr>
      | JObj ms \<Rightarrow> foldl decode_page_member (Some \<lparr>cp_Hash = [], cp_Bytes = 0\<rparr>) ms
      | _ \<Rightarrow> None)"

fun decode_pages :: "json list \<Rightarrow> contextpage list option" where
  "decode_pages [] = Some []"
| "decode_pages (j # js) =
     (case decode_page j of None \<Rightarrow> None | Some p \<Rightarrow> map_option ((#) p) (decode_pages js))"

fun decode_snapshot_member :: "contextsnapshot option \<Rightarrow> string \<times> json \<Rightarrow> contextsnapshot option" where
  "decode_snapshot_member None _ = None"
| "decode_snapshot_member (Some s) (k, v) =
     (if foldName k = ''context_id'' then
        (case v of JStr c \<Rightarrow> Some (s\<lparr>sn_ContextID := c\<rparr>) | JNull \<Rightarrow> Some s | _ \<Rightarrow> None)
      else if foldName k = ''prefix'' then
        (case v of
           JArr js \<Rightarrow> map_option (\<lambda>ps. s\<lparr>sn_Prefix := ps\<rparr>) (decode_pages js)
         | JNull \<Rightarrow> Some (s\<lparr>sn_Prefix := []\<rparr>) | _ \<Rightarrow> None)
      else if foldName k = ''tail'' then
        (case v of
           JNull \<Rightarrow> Some (s\<lparr>sn_Tail := None\<rparr>)
         | _ \<Rightarrow> map_option (\<lambda>p. s\<lparr>sn_Tail := Some p\<rparr>) (decode_page v))
      else Some s)"

definition decode_snapshot :: "string \<Rightarrow> contextsnapshot option" where
  "decode_snapshot data =
     (let zero = \<lparr>sn_ContextID = [], sn_Prefix = [], sn_Tail = None\<rparr>
      in case json_parse data of
           Some JNull \<Rightarrow> Some zero
         | Some (JObj ms) \<Rightarrow> foldl decode_snapshot_member (Some zero) ms
         | _ \<Rightarrow> None)"

definition check_page :: "cstore \<Rightarrow> contextpage \<Rightarrow> error option" where
  "check_page st p =
     (case contextBlob st (cp_Hash p) of
        Inl e \<Rightarrow> Some e
      | Inr data \<Rightarrow> if int (length data) \<noteq> cp_Bytes p then Some ErrContextCorrupt else None)"

fun restore_pages :: "string \<Rightarrow> nat \<Rightarrow> contextpage list \<Rightarrow> cstore \<Rightarrow> cstore result" where
  "restore_pages cid i [] st = Inr st"
| "restore_pages cid i (p # ps) st =
     (case check_page st p of
        Some e \<Rightarrow> Inl e
      | None \<Rightarrow>
          (case insert_page cid i (cp_Hash p) st of
             Inl e \<Rightarrow> Inl e
           | Inr st1 \<Rightarrow> restore_pages cid (Suc i) ps st1))"

definition delete_pages :: "string \<Rightarrow> cstore \<Rightarrow> cstore" where
  "delete_pages cid st = st\<lparr>db_pages := filter (\<lambda>(c, _). c \<noteq> cid) (db_pages st)\<rparr>"

definition restore_tx :: "string \<Rightarrow> string \<Rightarrow> string tx" where
  "restore_tx cid checkpoint st =
     (if (cid, checkpoint, ''checkpoint'') \<notin> set (db_grants st) then Inl ErrContextAccess
      else case contextBlob st checkpoint of
        Inl e \<Rightarrow> Inl e
      | Inr data \<Rightarrow>
          (case decode_snapshot data of
             None \<Rightarrow> Inl ErrContextCorrupt
           | Some snap \<Rightarrow>
               if sn_ContextID snap \<noteq> cid then Inl ErrContextCorrupt
               else (case restore_pages cid 0 (sn_Prefix snap) (delete_pages cid st) of
                       Inl e \<Rightarrow> Inl e
                     | Inr st1 \<Rightarrow>
                         (case sn_Tail snap of
                            None \<Rightarrow> Inr (checkpoint, set_tail cid None st1)
                          | Some p \<Rightarrow>
                              (case check_page st1 p of
                                 Some e \<Rightarrow> Inl e
                               | None \<Rightarrow> Inr (checkpoint, set_tail cid (Some (cp_Hash p)) st1))))))"

definition ContextStore_Restore :: "cstore \<Rightarrow> string \<Rightarrow> string \<Rightarrow> string \<Rightarrow> string \<Rightarrow> string result \<times> cstore" where
  "ContextStore_Restore st owner cid key checkpoint =
     mutate st owner cid key ''restore'' checkpoint (restore_tx cid checkpoint)"

definition artifact_tx :: "string \<Rightarrow> string \<Rightarrow> string tx" where
  "artifact_tx cid data st =
     (case putContextBlob data st of
        Inl e \<Rightarrow> Inl e
      | Inr (hash, st1) \<Rightarrow> Inr (hash, insert_grant cid hash ''artifact'' st1))"

definition ContextStore_CommitArtifact ::
  "cstore \<Rightarrow> string \<Rightarrow> string \<Rightarrow> string \<Rightarrow> string \<Rightarrow> string result \<times> cstore" where
  "ContextStore_CommitArtifact st owner cid key data =
     mutate st owner cid key ''artifact'' data (artifact_tx cid data)"

definition ContextStore_ReadArtifact :: "cstore \<Rightarrow> string \<Rightarrow> string \<Rightarrow> string \<Rightarrow> string result \<times> cstore" where
  "ContextStore_ReadArtifact st owner cid handle =
     (case begin_tx st of (ok, st1) \<Rightarrow>
        if \<not> ok then (Inl ErrStorage, st1)
        else case authorizeContext st1 owner cid of
          Some e \<Rightarrow> (Inl e, st1)
        | None \<Rightarrow>
            if (cid, handle, ''artifact'') \<notin> set (db_grants st1) then (Inl ErrContextAccess, st1)
            else (contextBlob st1 handle, st1))"

definition ContextStore_ReadPage :: "cstore \<Rightarrow> string \<Rightarrow> string \<Rightarrow> string \<Rightarrow> string result \<times> cstore" where
  "ContextStore_ReadPage st owner cid hash =
     (case begin_tx st of (ok, st1) \<Rightarrow>
        if \<not> ok then (Inl ErrStorage, st1)
        else case authorizeContext st1 owner cid of
          Some e \<Rightarrow> (Inl e, st1)
        | None \<Rightarrow>
            if hash \<notin> set (page_hashes cid st1)
               \<and> (case gget (db_contexts st1) cid of None \<Rightarrow> True | Some row \<Rightarrow> c_Tail row \<noteq> Some hash)
            then (Inl ErrContextAccess, st1)
            else (contextBlob st1 hash, st1))"

text \<open>The loop of \<^verbatim>\<open>Stats\<close> over the context ids: the pages of every context met for the first
  time, and how many contexts there are.\<close>

fun stats_pages :: "cstore \<Rightarrow> string \<Rightarrow> string set \<Rightarrow> string list \<Rightarrow> (nat \<times> contextpage list) result" where
  "stats_pages st owner seen [] = Inr (0, [])"
| "stats_pages st owner seen (cid # ids) =
     (if cid \<in> seen then stats_pages st owner seen ids
      else case authorizeContext st owner cid of
        Some e \<Rightarrow> Inl e
      | None \<Rightarrow>
          (case snapshotContext st cid of
             Inl e \<Rightarrow> Inl e
           | Inr snap \<Rightarrow>
               (case stats_pages st owner (insert cid seen) ids of
                  Inl e \<Rightarrow> Inl e
                | Inr (n, ps) \<Rightarrow>
                    Inr (Suc n, sn_Prefix snap @ (case sn_Tail snap of None \<Rightarrow> [] | Some p \<Rightarrow> [p]) @ ps))))"

definition page_size :: "contextpage list \<Rightarrow> string \<Rightarrow> int" where
  "page_size ps h = (case map_of (rev (map (\<lambda>p. (cp_Hash p, cp_Bytes p)) ps)) h of None \<Rightarrow> 0 | Some n \<Rightarrow> n)"

definition stats_of :: "nat \<Rightarrow> contextpage list \<Rightarrow> contextstats" where
  "stats_of n ps =
     (let hs = map cp_Hash ps;
          logical = sum_list (map cp_Bytes ps);
          unique = sum_list (map (page_size ps) (remdups hs))
      in \<lparr>st_Contexts = n, st_References = length ps, st_UniqueBlobs = length (remdups hs),
          st_SharedBlobs = length (filter (\<lambda>h. count_list hs h > 1) (remdups hs)),
          st_LogicalBytes = logical, st_UniqueBytes = unique, st_SavedBytes = logical - unique\<rparr>)"

definition ContextStore_Stats :: "cstore \<Rightarrow> string \<Rightarrow> string list \<Rightarrow> contextstats result \<times> cstore" where
  "ContextStore_Stats st owner ids =
     (case begin_tx st of (ok, st1) \<Rightarrow>
        if \<not> ok then (Inl ErrStorage, st1)
        else case stats_pages st1 owner {} ids of
          Inl e \<Rightarrow> (Inl e, st1)
        | Inr (n, ps) \<Rightarrow> (Inr (stats_of n ps), st1))"

definition ContextStore_Commits ::
  "cstore \<Rightarrow> string \<Rightarrow> string \<Rightarrow> int \<Rightarrow> int \<Rightarrow> lsfscommit list result \<times> cstore" where
  "ContextStore_Commits st owner cid after limit =
     (if after < 0 \<or> limit < 1 \<or> limit > 1000 then (Inl (ErrMsg ''invalid commit cursor or limit''), st)
      else case begin_tx st of (ok, st1) \<Rightarrow>
        if \<not> ok then (Inl ErrStorage, st1)
        else case authorizeContext st1 owner cid of
          Some e \<Rightarrow> (Inl e, st1)
        | None \<Rightarrow>
            (Inr (take (nat limit)
                   (sort_key lc_Cursor
                      (filter (\<lambda>c. lc_ContextID c = cid \<and> lc_Cursor c > after) (db_commits st1)))), st1))"

end
