(* ===== verification/GoJSON_Scan.thy ===== *)
theory GoJSON_Scan
  imports GoJSON
begin

text \<open>
  What the marshalled texts of the runtime scan to. \<open>yields d t v\<close>: scanning the value text
  \<open>t\<close> inside any stack that leaves \<open>d\<close> levels, up to the byte that ends the value,
  produces \<open>v\<close>. Strings, numbers, arrays and objects as the runtime marshals them yield the
  values they stand for; a string never ends early, whatever bytes it holds.
\<close>

section \<open>Runs\<close>

lemma jrun_append: "jrun (s @ t) x = Option.bind (jrun s x) (jrun t)"
  by (induction s arbitrary: x) (auto split: option.splits)

definition closing :: "char \<Rightarrow> bool" where
  "closing c \<longleftrightarrow> c = CHR '','' \<or> c = CHR '']'' \<or> c = CHR ''}''"

definition yields :: "nat \<Rightarrow> string \<Rightarrow> json \<Rightarrow> bool" where
  "yields d t v \<longleftrightarrow> (\<forall>st c. length st + d \<le> maxNestingDepth \<longrightarrow> closing c \<longrightarrow>
     jrun (t @ [c]) (BeginValue, st) = jafter c (jcomplete v st))"

lemma jcomplete_cases:
  assumes "jcomplete v st = Some x"
  obtains "x = (EndTop v, [])" "st = []" | st' where "x = (EndValue, st')"
  using assms by (cases "(v, st)" rule: jcomplete.cases) auto

lemma jstep_complete: "jcomplete v st = Some x \<Longrightarrow> jstep c x = jafter c (Some x)"
  by (erule jcomplete_cases) (simp_all add: jafter_def)

text \<open>A text whose run completes its value by itself yields it.\<close>

lemma yields_completed:
  assumes "\<And>st. length st + d \<le> maxNestingDepth \<Longrightarrow> jrun t (BeginValue, st) = jcomplete v st"
  shows "yields d t v"
  unfolding yields_def
proof (intro allI impI)
  fix st :: "jframe list" and c assume "length st + d \<le> maxNestingDepth"
  with assms have "jrun (t @ [c]) (BeginValue, st) = Option.bind (jcomplete v st) (jrun [c])"
    by (simp add: jrun_append)
  then show "jrun (t @ [c]) (BeginValue, st) = jafter c (jcomplete v st)"
    using jstep_complete [of v st _ c]
    by (cases "jcomplete v st") (auto simp: jafter_def split: option.splits)
qed

lemma yields_mono: "yields d t v \<Longrightarrow> d \<le> d' \<Longrightarrow> yields d' t v"
  by (simp add: yields_def)

section \<open>Strings\<close>

lemma hexdig_is_hex: "n < 16 \<Longrightarrow> is_hex (hexdig n)"
  by (auto simp: is_hex_def hexdig_def is_digit_def)

lemma code_less: "code c < 256"
  using of_char_mod_256 [of c, where ?'a = nat] mod_less_divisor [of 256 "code c"] by simp

lemma jrun_u00: "jrun (u00 c) (InStr k acc, st) = Some (InStr k (rev (u00 c) @ acc), st)"
proof -
  have "is_hex (hexdig (code c div 16))" "is_hex (hexdig (code c mod 16))"
    using code_less [of c] by (simp_all add: hexdig_is_hex less_mult_imp_div_less)
  moreover have "is_hex (CHR ''0'')" by (simp add: is_hex_def is_digit_def)
  ultimately show ?thesis by (simp add: u00_def BSLASH_def QUOTE_def)
qed

lemma jrun_u202: "jrun (u202 c) (InStr k acc, st) = Some (InStr k (rev (u202 c) @ acc), st)"
proof -
  have "is_hex (hexdig (code c mod 16))" by (auto intro!: hexdig_is_hex)
  moreover have "is_hex (CHR ''2'')" "is_hex (CHR ''0'')" by (simp_all add: is_hex_def is_digit_def)
  ultimately show ?thesis by (simp add: u202_def BSLASH_def QUOTE_def)
qed

definition inert :: "char \<Rightarrow> bool" where
  "inert c \<longleftrightarrow> c \<noteq> QUOTE \<and> c \<noteq> BSLASH \<and> 32 \<le> code c"

lemma jrun_inert:
  "list_all inert cs \<Longrightarrow> jrun cs (InStr k acc, st) = Some (InStr k (rev cs @ acc), st)"
  by (induction cs arbitrary: acc) (auto simp: inert_def)

lemma inert_high: "128 \<le> code c \<Longrightarrow> inert c"
  by (auto simp: inert_def QUOTE_def BSLASH_def)

lemma jrun_esc_ascii: "jrun (esc_ascii c) (InStr k acc, st) = Some (InStr k (rev (esc_ascii c) @ acc), st)"
proof (cases "code c < 32 \<or> html_char c \<or> c = QUOTE \<or> c = BSLASH")
  case True
  then show ?thesis
    using jrun_u00 [of c k acc st]
    by (auto simp: esc_ascii_def BSLASH_def QUOTE_def)
next
  case False
  then have "inert c" and "esc_ascii c = [c]" by (auto simp: inert_def esc_ascii_def)
  then show ?thesis using jrun_inert [of "[c]" k acc st] by simp
qed

lemma utf8_len_cont:
  assumes "utf8_len (c # cs) = n" and "n \<noteq> 0" and "\<not> code c < 128"
  shows "list_all (\<lambda>c. 128 \<le> code c) (take (n - 1) cs)" and "n - 1 \<le> length cs"
  using assms by (auto simp: utf8_cont_def split: list.splits if_splits)

lemma jrun_esc: "jrun (esc s) (InStr k acc, st) = Some (InStr k (rev (esc s) @ acc), st)"
proof (induction s arbitrary: acc rule: esc.induct)
  case (2 c cs)
  have fffd: "jrun (BSLASH # ''ufffd'') (InStr k acc, st) = Some (InStr k (rev (BSLASH # ''ufffd'') @ acc), st)"
    by (simp add: BSLASH_def QUOTE_def is_hex_def is_digit_def)
  consider "code c < 128" | "\<not> code c < 128" "utf8_len (c # cs) = 0"
    | "\<not> code c < 128" "utf8_len (c # cs) \<noteq> 0" "line_sep (c # cs)"
    | "\<not> code c < 128" "utf8_len (c # cs) \<noteq> 0" "\<not> line_sep (c # cs)"
    by blast
  then show ?case
  proof cases
    case 1
    then have e: "esc (c # cs) = esc_ascii c @ esc cs" by simp
    show ?thesis
      unfolding e jrun_append jrun_esc_ascii by (simp add: "2.IH"(1) [OF 1] del: jrun.simps)
  next
    case 2
    then have e: "esc (c # cs) = (BSLASH # ''ufffd'') @ esc cs" by (simp del: utf8_len.simps)
    show ?thesis
      unfolding e jrun_append fffd by (simp add: "2.IH"(2) [OF 2] del: jrun.simps)
  next
    case 3
    then have e: "esc (c # cs) = u202 (cs ! 1) @ esc (drop 2 cs)" by (simp del: utf8_len.simps line_sep.simps)
    show ?thesis
      unfolding e jrun_append jrun_u202 by (simp add: "2.IH"(3) [OF 3] del: jrun.simps)
  next
    case 4
    let ?n = "utf8_len (c # cs)"
    have "list_all inert (c # take (?n - 1) cs)"
      using 4 utf8_len_cont(1) [of c cs ?n] by (auto simp: list_all_iff inert_high simp del: utf8_len.simps)
    note r = jrun_inert [OF this, of k acc st]
    have e: "esc (c # cs) = (c # take (?n - 1) cs) @ esc (drop (?n - 1) cs)"
      using 4 by (simp del: utf8_len.simps line_sep.simps)
    show ?thesis
      unfolding e jrun_append r by (simp add: "2.IH"(4) [OF 4, unfolded One_nat_def] del: jrun.simps utf8_len.simps)
  qed
qed simp

lemma jrun_quote: "jrun (quote s) (BeginValue, st) = jcomplete (JStr (unquote (esc s))) st"
proof -
  have q: "jstep QUOTE (BeginValue, st) = Some (InStr False [], st)"
    by (simp add: jbegin_def is_ws_def QUOTE_def)
  have "jrun (quote s) (BeginValue, st) = Option.bind (jrun (esc s) (InStr False [], st)) (jrun [QUOTE])"
    unfolding quote_def by (simp add: q jrun_append del: jstep.simps)
  also have "\<dots> = jstep QUOTE (InStr False (rev (esc s)), st)"
    by (simp add: jrun_esc split: option.splits)
  finally show ?thesis by simp
qed

lemma yields_quote: "yields 0 (quote s) (JStr (unquote (esc s)))"
  by (rule yields_completed) (rule jrun_quote)

subsection \<open>Valid UTF-8 survives\<close>

definition rune_len :: "string \<Rightarrow> nat" where "rune_len s = utf8_len s"

fun utf8_ok :: "string \<Rightarrow> bool" where
  "utf8_ok [] \<longleftrightarrow> True"
| "utf8_ok (c # cs) \<longleftrightarrow> rune_len (c # cs) \<noteq> 0 \<and> utf8_ok (drop (rune_len (c # cs) - 1) cs)"

lemma hexval_hexdig: "n < 16 \<Longrightarrow> hexval (hexdig n) = n"
  by (auto simp: hexdig_def)

lemma unquote_u4:
  assumes "getu4 (BSLASH # u # a # b # c # d # cs) = Some r" and "r < 55296"
  shows "unquote (BSLASH # u # a # b # c # d # cs) = utf8_enc r @ unquote cs"
  using assms by (subst unquote.simps(2)) (simp only: if_True option.case simp_thms, simp)

lemma unquote_u00:
  assumes "code c < 128"
  shows "unquote (u00 c @ cs) = c # unquote cs"
proof -
  have h: "code c div 16 < 16" "code c mod 16 < 16" using assms by auto
  have z: "is_hex (CHR ''0'')" "hexval (CHR ''0'') = 0" by (simp_all add: is_hex_def is_digit_def)
  have v: "u4 (CHR ''0'') (CHR ''0'') (hexdig (code c div 16)) (hexdig (code c mod 16)) = code c"
    unfolding u4_def z hexval_hexdig [OF h(1)] hexval_hexdig [OF h(2)] by simp
  have e: "u00 c @ cs = BSLASH # CHR ''u'' # CHR ''0'' # CHR ''0'' # hexdig (code c div 16) # hexdig (code c mod 16) # cs"
    by (simp add: u00_def)
  have g: "getu4 (u00 c @ cs) = Some (code c)"
    unfolding e using hexdig_is_hex [OF h(1)] hexdig_is_hex [OF h(2)] z v by (simp del: hexval.simps)
  have "utf8_enc (code c) = [c]" using assms by (simp add: utf8_enc_def)
  then show ?thesis
    using unquote_u4 [OF g [unfolded e]] assms unfolding e by simp
qed

lemma unquote_simple:
  assumes "d \<noteq> CHR ''u''"
  shows "unquote (BSLASH # d # cs) = unesc_char d # unquote cs"
proof -
  have "getu4 (BSLASH # d # cs) = None"
    using assms by (cases "BSLASH # d # cs" rule: getu4.cases) auto
  then show ?thesis by (subst unquote.simps(2)) (simp only: if_True option.case list.case simp_thms)
qed

lemma unquote_literal: "code c < 128 \<Longrightarrow> c \<noteq> BSLASH \<Longrightarrow> unquote (c # cs) = c # unquote cs"
  by (subst unquote.simps(2)) (simp only: if_False if_True)
lemma unquote_esc_ascii:
  assumes "code c < 128"
  shows "unquote (esc_ascii c @ cs) = c # unquote cs"
proof -
  have same: "char_of (code c) = c" by simp
  have simple: ?thesis if "esc_ascii c = [BSLASH, d]" "d \<noteq> CHR ''u''" "unesc_char d = c" for d
    using that unquote_simple [of d cs] by simp
  consider "c = QUOTE \<or> c = BSLASH" | "code c = 8" | "code c = 12" | "code c = 10" | "code c = 13" | "code c = 9"
    | "esc_ascii c = u00 c" | "esc_ascii c = [c]" "c \<noteq> BSLASH"
    by (cases "c = QUOTE \<or> c = BSLASH \<or> code c = 8 \<or> code c = 12 \<or> code c = 10 \<or> code c = 13 \<or> code c = 9";
        cases "code c < 32 \<or> html_char c")
      (auto simp: esc_ascii_def)
  then show ?thesis
  proof cases
    case 1 then show ?thesis by (intro simple [of c]) (auto simp: esc_ascii_def unesc_char_def QUOTE_def BSLASH_def)
  next
    case 2 then show ?thesis using same by (intro simple [of "CHR ''b''"]) (auto simp: esc_ascii_def unesc_char_def QUOTE_def BSLASH_def)
  next
    case 3 then show ?thesis using same by (intro simple [of "CHR ''f''"]) (auto simp: esc_ascii_def unesc_char_def QUOTE_def BSLASH_def)
  next
    case 4 then show ?thesis using same by (intro simple [of "CHR ''n''"]) (auto simp: esc_ascii_def unesc_char_def QUOTE_def BSLASH_def)
  next
    case 5 then show ?thesis using same by (intro simple [of "CHR ''r''"]) (auto simp: esc_ascii_def unesc_char_def QUOTE_def BSLASH_def)
  next
    case 6 then show ?thesis using same by (intro simple [of "CHR ''t''"]) (auto simp: esc_ascii_def unesc_char_def QUOTE_def BSLASH_def)
  next
    case 7 then show ?thesis using unquote_u00 [OF assms] by simp
  next
    case 8 then show ?thesis using unquote_literal [OF assms] by simp
  qed
qed
lemma unquote_u202:
  assumes "line_sep (c # cs)"
  shows "unquote (u202 (cs ! 1) @ r) = c # take 2 cs @ unquote r"
proof -
  obtain a b ds where cs: "cs = a # b # ds" "code c = 226" "code a = 128" "code b = 168 \<or> code b = 169"
    using assms by (cases "c # cs" rule: line_sep.cases) auto
  have z: "is_hex (CHR ''0'')" "is_hex (CHR ''2'')" "hexval (CHR ''0'') = 0" "hexval (CHR ''2'') = 2"
    by (simp_all add: is_hex_def is_digit_def)
  have h: "code b mod 16 < 16" by simp
  have v: "u4 (CHR ''2'') (CHR ''0'') (CHR ''2'') (hexdig (code b mod 16)) = 8224 + code b mod 16"
    unfolding u4_def z hexval_hexdig [OF h] by simp
  have e: "u202 b @ r = BSLASH # CHR ''u'' # CHR ''2'' # CHR ''0'' # CHR ''2'' # hexdig (code b mod 16) # r"
    by (simp add: u202_def)
  have g: "getu4 (u202 b @ r) = Some (8224 + code b mod 16)"
    unfolding e using hexdig_is_hex [OF h] z v by (simp del: hexval.simps)
  have ch: "x = char_of n" if "code x = n" for x n
    using that by auto
  have "utf8_enc (8224 + code b mod 16) = [c, a, b]"
    using cs(4) ch [OF cs(2)] ch [OF cs(3)] ch [of b 168] ch [of b 169] by (auto simp: utf8_enc_def)
  then show ?thesis
    using unquote_u4 [OF g [unfolded e]] cs(4) by (auto simp: cs(1) e)
qed

lemma utf8_len_take:
  assumes "utf8_len (c # cs) = n" and "n \<noteq> 0" and "\<not> code c < 128"
  shows "n - 1 \<le> length cs \<and> utf8_len (c # take (n - 1) cs @ r) = n"
proof -
  consider "194 \<le> code c" "code c \<le> 223" | "224 \<le> code c" "code c \<le> 239" | "240 \<le> code c" "code c \<le> 244"
    using assms by (auto split: if_splits)
  then show ?thesis
  proof cases
    case 1
    then obtain c1 ds where "cs = c1 # ds" "utf8_cont c1" "n = 2"
      using assms by (auto split: list.splits if_splits)
    with 1 show ?thesis by simp
  next
    case 2
    then obtain c1 c2 ds where cs: "cs = c1 # c2 # ds" and n: "n = 3"
      and u: "utf8_cont c1 \<and> utf8_cont c2 \<and> (code c = 224 \<longrightarrow> 160 \<le> code c1) \<and> (code c = 237 \<longrightarrow> code c1 \<le> 159)"
      using assms by (auto split: list.splits if_splits)
    have "utf8_len (c # c1 # c2 # r) = 3" using 2 u assms(3) by simp
    then show ?thesis by (simp add: cs n del: utf8_len.simps)
  next
    case 3
    then obtain c1 c2 c3 ds where cs: "cs = c1 # c2 # c3 # ds" and n: "n = 4"
      and u: "utf8_cont c1 \<and> utf8_cont c2 \<and> utf8_cont c3 \<and> (code c = 240 \<longrightarrow> 144 \<le> code c1) \<and> (code c = 244 \<longrightarrow> code c1 \<le> 143)"
      using assms by (auto split: list.splits if_splits)
    have "utf8_len (c # c1 # c2 # c3 # r) = 4" using 3 u assms(3) by simp
    then show ?thesis by (simp add: cs n del: utf8_len.simps)
  qed
qed

lemma unquote_sequence:
  assumes "rune_len (c # cs) = n" and "n \<noteq> 0" and "\<not> code c < 128"
  shows "unquote (c # take (n - 1) cs @ r) = c # take (n - 1) cs @ unquote r"
proof -
  note l = utf8_len_take [OF assms(1) [unfolded rune_len_def] assms(2,3), of r]
  have "c \<noteq> BSLASH" using assms(3) by (auto simp: BSLASH_def)
  then have "unquote (c # take (n - 1) cs @ r)
      = c # take (n - 1) (take (n - 1) cs @ r) @ unquote (drop (n - 1) (take (n - 1) cs @ r))"
    using assms(2,3) l by (subst unquote.simps(2)) (simp only: if_False l)
  then show ?thesis using l by simp
qed

lemma unquote_esc: "utf8_ok s \<Longrightarrow> unquote (esc s) = s"
proof (induction s rule: utf8_ok.induct)
  case (2 c cs)
  let ?n = "rune_len (c # cs)"
  have n: "?n \<noteq> 0" and IH: "unquote (esc (drop (?n - 1) cs)) = drop (?n - 1) cs" using 2 by auto
  consider "code c < 128" | "\<not> code c < 128" "line_sep (c # cs)" | "\<not> code c < 128" "\<not> line_sep (c # cs)" by blast
  then show ?case
  proof cases
    case 1
    then have "?n = 1" by (simp add: rune_len_def)
    with 1 IH show ?thesis by (simp add: unquote_esc_ascii)
  next
    case 2
    have n3: "?n = 3"
      using n 2 by (cases "c # cs" rule: line_sep.cases) (auto simp: rune_len_def utf8_cont_def)
    have e: "esc (c # cs) = u202 (cs ! 1) @ esc (drop 2 cs)"
      using 2 n by (simp add: rune_len_def del: utf8_len.simps)
    show ?thesis unfolding e unquote_u202 [OF 2(2)] using IH n3 by (simp add: numeral_2_eq_2)
  next
    case 3
    have e: "esc (c # cs) = c # take (?n - 1) cs @ esc (drop (?n - 1) cs)"
      using 3 n by (simp add: rune_len_def del: utf8_len.simps)
    show ?thesis unfolding e unquote_sequence [OF refl n 3(1)] IH by simp
  qed
qed simp

section \<open>Numbers\<close>

lemma jrun_digits:
  "list_all is_digit cs \<Longrightarrow> jrun cs (Num1 acc, st) = Some (Num1 (rev cs @ acc), st)"
  by (induction cs arbitrary: acc) auto

lemma digit_not: "is_digit c \<Longrightarrow> c \<noteq> CHR ''.'' \<and> c \<noteq> CHR ''e'' \<and> c \<noteq> CHR ''E'' \<and> c \<noteq> QUOTE \<and> \<not> is_ws c
    \<and> c \<noteq> CHR ''{'' \<and> c \<noteq> CHR ''['' \<and> c \<noteq> CHR ''-''"
  by (auto simp: is_digit_def QUOTE_def is_ws_def)

lemma closing_not: "closing c \<Longrightarrow> \<not> is_digit c \<and> c \<noteq> CHR ''.'' \<and> c \<noteq> CHR ''e'' \<and> c \<noteq> CHR ''E''"
  by (auto simp: is_digit_def closing_def)

lemma dec_head:
  assumes "n \<noteq> 0"
  obtains c cs where "dec n = c # cs" "is_digit c" "c \<noteq> CHR ''0''" "list_all is_digit cs"
proof -
  have "\<exists>c cs. dec n = c # cs \<and> is_digit c \<and> c \<noteq> CHR ''0'' \<and> list_all is_digit cs"
    using assms
  proof (induction n rule: dec.induct)
    case (1 n)
    show ?case
    proof (cases "n < 10")
      case True
      have "code (digit n) \<noteq> code (CHR ''0'')" using of_char_digit [OF True] "1.prems" by simp
      then have "digit n \<noteq> CHR ''0''" by (intro notI) simp
      then show ?thesis using True by (subst dec.simps) (auto intro: is_digit_digit)
    next
      case False
      then have "n div 10 \<noteq> 0" by simp
      with "1.IH" [OF False] obtain c cs where "dec (n div 10) = c # cs" "is_digit c" "c \<noteq> CHR ''0''" "list_all is_digit cs"
        by blast
      then show ?thesis using False by (subst dec.simps) simp
    qed
  qed
  then show thesis using that by blast
qed

lemma yields_dec: "yields 0 (dec n) (JNum (dec n))"
  unfolding yields_def
proof (intro allI impI)
  fix st c assume c: "closing c"
  note cn = closing_not [OF c]
  show "jrun (dec n @ [c]) (BeginValue, st) = jafter c (jcomplete (JNum (dec n)) st)"
  proof (cases "n = 0")
    case True
    have "dec 0 = ''0''" by code_simp
    then show ?thesis
      using cn True by (auto simp: jbegin_def is_ws_def QUOTE_def split: option.splits)
  next
    case False
    then obtain d ds where d: "dec n = d # ds" "is_digit d" "d \<noteq> CHR ''0''" "list_all is_digit ds"
      by (rule dec_head)
    have "jstep d (BeginValue, st) = Some (Num1 [d], st)"
      using d digit_not [OF d(2)] by (simp add: jbegin_def)
    then show ?thesis
      using d(1) jrun_digits [OF d(4), of "[d]" st] cn
      by (simp add: jrun_append del: jstep.simps) (simp split: option.splits)
  qed
qed

lemma yields_dec_int: "0 \<le> i \<Longrightarrow> yields 0 (dec_int i) (JNum (dec_int i))"
  using yields_dec by (simp add: dec_int_def)

section \<open>Objects and arrays\<close>

definition plain_key :: "string \<Rightarrow> bool" where
  "plain_key k \<longleftrightarrow> list_all (\<lambda>c. inert c \<and> code c < 128) k"

lemma unquote_plain: "plain_key k \<Longrightarrow> unquote k = k"
  by (induction k) (auto simp: plain_key_def inert_def)

text \<open>Members and elements as triples of key, text and value.\<close>

abbreviation texts :: "(string \<times> string \<times> json) list \<Rightarrow> (string \<times> string) list" where
  "texts kts \<equiv> map (\<lambda>(k, t, v). (k, t)) kts"

abbreviation vals :: "(string \<times> string \<times> json) list \<Rightarrow> (string \<times> json) list" where
  "vals kts \<equiv> map (\<lambda>(k, t, v). (k, v)) kts"

lemma jrun_key:
  assumes "plain_key k" and "m = BeginString \<or> m = BeginStringOrEmpty"
  shows "jrun (QUOTE # k @ [QUOTE, CHR '':'']) (m, FObj ms # st) = Some (BeginValue, FKey k ms # st)"
proof -
  have q: "jstep QUOTE (m, FObj ms # st) = Some (InStr True [], FObj ms # st)"
    using assms(2) by (auto simp: is_ws_def QUOTE_def)
  have k: "jrun k (InStr True [], FObj ms # st) = Some (InStr True (rev k), FObj ms # st)"
    using jrun_inert [of k True "[]" "FObj ms # st"] assms(1) by (simp add: plain_key_def list_all_iff)
  have e: "jrun [QUOTE, CHR '':''] (InStr True (rev k), FObj ms # st) = Some (BeginValue, FKey k ms # st)"
    using unquote_plain [OF assms(1)] by (simp add: is_ws_def QUOTE_def)
  show ?thesis
    using q k e by (simp add: jrun_append del: jstep.simps)
qed

lemma jrun_member:
  assumes "plain_key k" and "m = BeginString \<or> m = BeginStringOrEmpty" and "yields d t v"
    and "length st + 1 + d \<le> maxNestingDepth" and "closing c"
  shows "jrun (jmember (k, t) @ [c]) (m, FObj ms # st) = jend c (FObj ((k, v) # ms) # st)"
proof -
  have "jmember (k, t) @ [c] = (QUOTE # k @ [QUOTE, CHR '':'']) @ (t @ [c])"
    by (simp add: jmember_def)
  moreover have "jrun (t @ [c]) (BeginValue, FKey k ms # st) = jend c (FObj ((k, v) # ms) # st)"
    using assms(3-5) by (simp add: yields_def jafter_def)
  ultimately show ?thesis
    using jrun_key [OF assms(1,2), of ms st]
    by (simp only: jrun_append [of "QUOTE # k @ [QUOTE, CHR '':'']" "t @ [c]"]) simp
qed

lemma jrun_members:
  assumes "kts \<noteq> []" and "\<forall>(k, t, v) \<in> set kts. plain_key k \<and> yields d t v"
    and "m = BeginString \<or> m = BeginStringOrEmpty" and "length st + 1 + d \<le> maxNestingDepth"
  shows "jrun (jmembers (texts kts) @ ''}'') (m, FObj ms # st) = jcomplete (JObj (rev ms @ vals kts)) st"
  using assms
proof (induction kts arbitrary: m ms)
  case (Cons kt kts)
  obtain k t v where kt: "kt = (k, t, v)" by (cases kt)
  have y: "plain_key k" "yields d t v" using Cons.prems(2) by (auto simp: kt)
  note mem = jrun_member [OF y(1) Cons.prems(3) y(2) Cons.prems(4)]
  show ?case
  proof (cases "kts = []")
    case True
    then show ?thesis
      using mem [of "CHR ''}''" ms] by (simp add: kt closing_def jend_def is_ws_def)
  next
    case False
    then have e: "jmembers (texts (kt # kts)) @ ''}''
        = (jmember (k, t) @ [CHR '','']) @ (jmembers (texts kts) @ ''}'')"
      by (cases kts) (auto simp: kt)
    have "jrun (jmember (k, t) @ [CHR '','']) (m, FObj ms # st) = Some (BeginString, FObj ((k, v) # ms) # st)"
      using mem [of "CHR '',''" ms] by (simp add: closing_def jend_def is_ws_def)
    then show ?thesis
      unfolding e jrun_append [of "jmember (k, t) @ [CHR '','']"]
      using Cons.IH [OF False _ _ Cons.prems(4), of BeginString "(k, v) # ms"] Cons.prems(2) by (simp add: kt)
  qed
qed simp

lemma jrun_object:
  assumes "kts \<noteq> []" and "\<forall>(k, t, v) \<in> set kts. plain_key k \<and> yields d t v"
    and "length st + Suc d \<le> maxNestingDepth"
  shows "jrun (jobject (texts kts)) (BeginValue, st) = jcomplete (JObj (vals kts)) st"
proof -
  have "jstep (CHR ''{'') (BeginValue, st) = Some (BeginStringOrEmpty, FObj [] # st)"
    using assms(3) by (simp add: jbegin_def is_ws_def jpush_def)
  then show ?thesis
    using jrun_members [OF assms(1,2), of BeginStringOrEmpty st "[]"] assms(3)
    by (simp add: jobject_def del: jstep.simps)
qed

lemma yields_object:
  assumes "kts \<noteq> []" and "\<forall>(k, t, v) \<in> set kts. plain_key k \<and> yields d t v"
  shows "yields (Suc d) (jobject (texts kts)) (JObj (vals kts))"
  by (rule yields_completed) (rule jrun_object [OF assms])

lemma json_parse_object:
  assumes "kts \<noteq> []" and "\<forall>(k, t, v) \<in> set kts. plain_key k \<and> yields d t v" and "Suc d \<le> maxNestingDepth"
  shows "json_parse (jobject (texts kts)) = Some (JObj (vals kts))"
  using jrun_object [OF assms(1,2), of "[]"] assms(3) by (simp add: json_parse_def)

lemma jrun_elements:
  assumes "tvs \<noteq> []" and "\<forall>(t, v) \<in> set tvs. yields d t v" and "length st + 1 + d \<le> maxNestingDepth"
  shows "jrun (jelements (map fst tvs) @ '']'') (BeginValue, FArr vs # st) = jcomplete (JArr (rev vs @ map snd tvs)) st"
  using assms
proof (induction tvs arbitrary: vs)
  case (Cons tv tvs)
  obtain t v where tv: "tv = (t, v)" by (cases tv)
  have y: "jrun (t @ [c]) (BeginValue, FArr vs # st) = jend c (FArr (v # vs) # st)" if "closing c" for c
    using Cons.prems(2,3) that by (auto simp: tv yields_def jafter_def)
  show ?case
  proof (cases "tvs = []")
    case True
    then show ?thesis using y [of "CHR '']''"] by (simp add: tv closing_def jend_def is_ws_def)
  next
    case False
    then have e: "jelements (map fst (tv # tvs)) @ '']'' = (t @ [CHR '','']) @ (jelements (map fst tvs) @ '']'')"
      by (cases tvs) (auto simp: tv)
    have "jrun (t @ [CHR '','']) (BeginValue, FArr vs # st) = Some (BeginValue, FArr (v # vs) # st)"
      using y [of "CHR '',''"] by (simp add: closing_def jend_def is_ws_def)
    then show ?thesis
      unfolding e jrun_append [of "t @ [CHR '','']"]
      using Cons.IH [OF False _ Cons.prems(3), of "v # vs"] Cons.prems(2) by (simp add: tv)
  qed
qed simp

lemma jrun_array:
  assumes "\<forall>(t, v) \<in> set tvs. yields d t v \<and> (\<exists>c t'. t = c # t' \<and> c \<noteq> CHR '']'' \<and> \<not> is_ws c)"
    and "length st + Suc d \<le> maxNestingDepth"
  shows "jrun (jarray (map fst tvs)) (BeginValue, st) = jcomplete (JArr (map snd tvs)) st"
proof -
  have open_array: "jstep (CHR ''['') (BeginValue, st) = Some (BeginValueOrEmpty, FArr [] # st)"
    using assms(2) by (simp add: jbegin_def is_ws_def jpush_def QUOTE_def)
  show ?thesis
  proof (cases tvs)
    case Nil
    then show ?thesis
      using open_array by (simp add: jarray_def is_ws_def del: jstep.simps(1) split: option.splits)
  next
    case (Cons tv tvs')
    obtain t v where tv: "tv = (t, v)" by (cases tv)
    obtain c t' where c: "t = c # t'" "c \<noteq> CHR '']''" "\<not> is_ws c"
      using assms(1) by (auto simp: Cons tv)
    obtain r where r: "jelements (map fst tvs) @ '']'' = c # r"
      by (cases tvs') (auto simp: Cons tv c(1))
    have "jstep c (BeginValueOrEmpty, FArr [] # st) = jstep c (BeginValue, FArr [] # st)"
      using c(2,3) by simp
    then have "jrun (jelements (map fst tvs) @ '']'') (BeginValueOrEmpty, FArr [] # st)
        = jrun (jelements (map fst tvs) @ '']'') (BeginValue, FArr [] # st)"
      unfolding r by (simp del: jstep.simps)
    also have "\<dots> = jcomplete (JArr (map snd tvs)) st"
      using jrun_elements [of tvs d st "[]"] assms by (auto simp: Cons)
    finally show ?thesis using open_array by (simp add: jarray_def del: jstep.simps)
  qed
qed

lemma yields_array:
  assumes "\<forall>(t, v) \<in> set tvs. yields d t v \<and> (\<exists>c t'. t = c # t' \<and> c \<noteq> CHR '']'' \<and> \<not> is_ws c)"
  shows "yields (Suc d) (jarray (map fst tvs)) (JArr (map snd tvs))"
  by (rule yields_completed) (rule jrun_array [OF assms])

end
