(* ===== verification/Contexts.thy ===== *)
theory Contexts
  imports ContextStore GoJSON_Scan
begin

text \<open>
  The context store against its specification. A context is, abstractly, a sequence of bytes
  (\<open>content\<close>): appending extends it, a fork copies it to the child and changes no other context,
  a restore brings back what it was at the checkpoint. Pages, the mutable tail, content addressing
  and the JSON snapshot are representation. \<open>store_ok\<close> is the invariant of the tables, kept by every
  operation; \<open>store_le\<close> is what no operation takes back (blobs, grants, owners, recorded operations).
\<close>

section \<open>Abstraction and invariant\<close>

definition page_data :: "cstore \<Rightarrow> string \<Rightarrow> string" where
  "page_data st h = (case gget (db_blobs st) h of None \<Rightarrow> [] | Some d \<Rightarrow> d)"

definition tail_data :: "cstore \<Rightarrow> string \<Rightarrow> string" where
  "tail_data st cid = (case gget (db_contexts st) cid of
     None \<Rightarrow> [] | Some row \<Rightarrow> (case c_Tail row of None \<Rightarrow> [] | Some h \<Rightarrow> page_data st h))"

definition content :: "cstore \<Rightarrow> string \<Rightarrow> string" where
  "content st cid = concat (map (page_data st) (page_hashes cid st)) @ tail_data st cid"

definition page_key :: "string \<times> nat \<times> string \<Rightarrow> string \<times> nat" where
  "page_key r = (fst r, fst (snd r))"

definition tails_ok :: "cstore \<Rightarrow> bool" where
  "tails_ok st \<longleftrightarrow> (\<forall>c row h. gget (db_contexts st) c = Some row \<longrightarrow> c_Tail row = Some h \<longrightarrow> gget (db_blobs st) h \<noteq> None)"

definition pages_ok :: "cstore \<Rightarrow> bool" where
  "pages_ok st \<longleftrightarrow> distinct (map page_key (db_pages st))
     \<and> (\<forall>(c, p, h) \<in> set (db_pages st). gget (db_blobs st) h \<noteq> None \<and> gget (db_contexts st) c \<noteq> None)"

definition blobs_ok :: "cstore \<Rightarrow> bool" where
  "blobs_ok st \<longleftrightarrow> (\<forall>h d. gget (db_blobs st) h = Some d \<longrightarrow> contextHash d = h)"

definition cursors_ok :: "cstore \<Rightarrow> bool" where
  "cursors_ok st \<longleftrightarrow> sorted_wrt (<) (map lc_Cursor (db_commits st)) \<and> (\<forall>c \<in> set (db_commits st). 0 < lc_Cursor c)"

definition store_ok :: "cstore \<Rightarrow> bool" where
  "store_ok st \<longleftrightarrow> blobs_ok st \<and> pages_ok st \<and> tails_ok st \<and> cursors_ok st"

text \<open>What is never taken back.\<close>

definition store_le :: "cstore \<Rightarrow> cstore \<Rightarrow> bool" where
  "store_le a b \<longleftrightarrow>
     (\<forall>h d. gget (db_blobs a) h = Some d \<longrightarrow> gget (db_blobs b) h = Some d)
     \<and> set (db_grants a) \<subseteq> set (db_grants b)
     \<and> (\<forall>c row. gget (db_contexts a) c = Some row \<longrightarrow> (\<exists>row'. gget (db_contexts b) c = Some row' \<and> c_Owner row' = c_Owner row))
     \<and> (\<forall>k v. map_of (db_operations a) k = Some v \<longrightarrow> map_of (db_operations b) k = Some v)
     \<and> (\<exists>cs. db_commits b = db_commits a @ cs)"

lemma store_le_refl [simp]: "store_le st st"
  by (simp add: store_le_def)

lemma store_le_trans: "store_le a b \<Longrightarrow> store_le b c \<Longrightarrow> store_le a c"
  unfolding store_le_def
  by (intro conjI) (blast, blast, metis, blast, metis append.assoc)

section \<open>Blobs\<close>

lemma put_blob:
  assumes "putContextBlob data st = Inr (hash, st1)"
  shows "hash = contextHash data" and "st1 = insert_blob hash data st"
  using assms by (auto simp: putContextBlob_def Let_def split: sum.splits)

lemma insert_blob_frame [simp]:
  "db_contexts (insert_blob h d st) = db_contexts st" "db_pages (insert_blob h d st) = db_pages st"
  "db_grants (insert_blob h d st) = db_grants st" "db_operations (insert_blob h d st) = db_operations st"
  "db_commits (insert_blob h d st) = db_commits st"
  by (simp_all add: insert_blob_def)

lemma insert_blob_blobs:
  "gget (db_blobs (insert_blob h d st)) k = (if gget (db_blobs st) k = None \<and> k = h then Some d else gget (db_blobs st) k)"
  by (auto simp: insert_blob_def)

text \<open>Data collides when the store holds other bytes under its hash.\<close>

definition no_collision :: "string \<Rightarrow> cstore \<Rightarrow> bool" where
  "no_collision data st \<longleftrightarrow> (case gget (db_blobs st) (contextHash data) of None \<Rightarrow> True | Some d \<Rightarrow> d = data)"

lemma insert_blob_data: "no_collision data st \<Longrightarrow> gget (db_blobs (insert_blob (contextHash data) data st)) (contextHash data) = Some data"
  by (auto simp: insert_blob_blobs no_collision_def split: option.splits)

lemma insert_blob_le [simp]: "store_le st (insert_blob h d st)"
  by (auto simp: store_le_def insert_blob_blobs)

lemma insert_blob_ok: "store_ok st \<Longrightarrow> store_ok (insert_blob (contextHash d) d st)"
  by (auto simp: store_ok_def blobs_ok_def pages_ok_def tails_ok_def cursors_ok_def insert_blob_blobs split: if_splits)

lemma contextBlob_Inr: "contextBlob st h = Inr d \<Longrightarrow> gget (db_blobs st) h = Some d"
  by (auto simp: contextBlob_def split: option.splits if_splits)

lemma contextBlob_ok: "blobs_ok st \<Longrightarrow> gget (db_blobs st) h = Some d \<Longrightarrow> contextBlob st h = Inr d"
  by (auto simp: contextBlob_def blobs_ok_def)

lemma page_data_le: "store_le st st' \<Longrightarrow> gget (db_blobs st) h \<noteq> None \<Longrightarrow> page_data st' h = page_data st h"
  by (auto simp: store_le_def page_data_def)

section \<open>Pages\<close>

lemma page_rows_mem: "(p, h) \<in> set (page_rows cid st) \<longleftrightarrow> (cid, p, h) \<in> set (db_pages st)"
  by (force simp: page_rows_def)

lemma page_hash_stored: "store_ok st \<Longrightarrow> h \<in> set (page_hashes cid st) \<Longrightarrow> gget (db_blobs st) h \<noteq> None"
  using page_rows_mem [of _ h cid st] by (fastforce simp: page_hashes_def store_ok_def pages_ok_def)

text \<open>The content of a context whose pages and tail are the same over more blobs.\<close>

lemma content_same:
  assumes "store_ok st" and "store_le st st'" and "page_hashes cid st' = page_hashes cid st"
    and "map_option c_Tail (gget (db_contexts st') cid) = map_option c_Tail (gget (db_contexts st) cid)"
  shows "content st' cid = content st cid"
proof -
  have p: "map (page_data st') (page_hashes cid st) = map (page_data st) (page_hashes cid st)"
    using page_hash_stored [OF assms(1)] page_data_le [OF assms(2)] by auto
  have "tail_data st' cid = tail_data st cid"
  proof (cases "gget (db_contexts st) cid")
    case None
    then show ?thesis using assms(4) by (simp add: tail_data_def)
  next
    case (Some row)
    then obtain row' where r: "gget (db_contexts st') cid = Some row'" "c_Tail row' = c_Tail row" using assms(4) by auto
    have "page_data st' h = page_data st h" if "c_Tail row = Some h" for h
      using assms(1) Some that page_data_le [OF assms(2), of h] by (auto simp: store_ok_def tails_ok_def)
    then show ?thesis using Some r by (simp add: tail_data_def split: option.split)
  qed
  then show ?thesis by (simp only: content_def assms(3) p)
qed

lemma set_tail_frame [simp]:
  "db_blobs (set_tail cid t st) = db_blobs st" "db_pages (set_tail cid t st) = db_pages st"
  "db_grants (set_tail cid t st) = db_grants st" "db_operations (set_tail cid t st) = db_operations st"
  "db_commits (set_tail cid t st) = db_commits st"
  by (simp_all add: set_tail_def split: option.split)

lemma set_tail_contexts: "gget (db_contexts (set_tail cid t st)) c =
    (if c = cid then map_option (\<lambda>row. row\<lparr>c_Tail := t\<rparr>) (gget (db_contexts st) c) else gget (db_contexts st) c)"
  by (simp add: set_tail_def split: option.split)

lemma set_tail_le [simp]: "store_le st (set_tail cid t st)"
  by (auto simp: store_le_def set_tail_contexts)

lemma set_tail_ok:
  "store_ok st \<Longrightarrow> (\<And>h. t = Some h \<Longrightarrow> gget (db_blobs st) h \<noteq> None) \<Longrightarrow> store_ok (set_tail cid t st)"
  by (auto simp: store_ok_def blobs_ok_def pages_ok_def tails_ok_def cursors_ok_def set_tail_contexts split: if_splits)

lemma insert_page_Inr:
  assumes "insert_page cid pos h st = Inr st1"
  shows "st1 = st\<lparr>db_pages := db_pages st @ [(cid, pos, h)]\<rparr>" and "(cid, pos) \<notin> page_key ` set (db_pages st)"
  using assms by (force simp: insert_page_def list_ex_iff page_key_def split: if_splits)+

lemma insert_page_ok:
  assumes "store_ok st" and "insert_page cid pos h st = Inr st1" and "gget (db_blobs st) h \<noteq> None" and "gget (db_contexts st) cid \<noteq> None"
  shows "store_ok st1" and "store_le st st1"
  using insert_page_Inr [OF assms(2)] assms
  by (auto simp: store_ok_def blobs_ok_def pages_ok_def tails_ok_def cursors_ok_def store_le_def page_key_def)

section \<open>Transactions\<close>

text \<open>Consuming a write outcome or recording an operation changes no content.\<close>

lemma content_cong:
  assumes "db_blobs st' = db_blobs st" and "db_contexts st' = db_contexts st" and "db_pages st' = db_pages st"
  shows "content st' c = content st c"
proof -
  have p: "page_data st' = page_data st" by (rule ext) (simp add: page_data_def assms)
  show ?thesis unfolding content_def tail_data_def page_hashes_def page_rows_def assms p ..
qed

lemma outcomes_content [simp]: "content (st\<lparr>db_outcomes := q\<rparr>) c = content st c"
  by (rule content_cong) simp_all

lemma outcomes_frame [simp]:
  "store_ok (st\<lparr>db_outcomes := q\<rparr>) \<longleftrightarrow> store_ok st"
  "store_le st (st\<lparr>db_outcomes := q\<rparr>)" "no_collision d (st\<lparr>db_outcomes := q\<rparr>) \<longleftrightarrow> no_collision d st"
  by (simp_all add: store_ok_def blobs_ok_def pages_ok_def tails_ok_def cursors_ok_def store_le_def no_collision_def)

lemma begin_tx_cases: obtains q where "begin_tx st = (b, st\<lparr>db_outcomes := q\<rparr>)" | q where "begin_tx st = (\<not> b, st\<lparr>db_outcomes := q\<rparr>)"
proof (cases "db_outcomes st")
  case Nil
  then show ?thesis using that(1) [of "[]"] that(2) [of "[]"] by (cases b) (simp_all add: begin_tx_def)
next
  case (Cons x q)
  then show ?thesis using that(1) [of q] that(2) [of q] by (cases "x = b") (auto simp: begin_tx_def)
qed

lemma record_operation_content [simp]: "content (record_operation cid key kind dg res st) c = content st c"
  by (rule content_cong) (simp_all add: record_operation_def)

lemma cursor_le_last: "c \<in> set cs \<Longrightarrow> sorted_wrt (<) (map lc_Cursor cs) \<Longrightarrow> lc_Cursor c \<le> lc_Cursor (last cs)"
  by (induction cs rule: rev_induct) (auto simp: sorted_wrt_append)

lemma record_operation_cursors:
  assumes "cursors_ok st"
  shows "cursors_ok (record_operation cid key kind dg res st)"
proof -
  let ?n = "if db_commits st = [] then 1 else lc_Cursor (last (db_commits st)) + 1"
  have sorted: "sorted_wrt (<) (map lc_Cursor (db_commits st))" and pos: "\<forall>c \<in> set (db_commits st). 0 < lc_Cursor c"
    using assms by (simp_all add: cursors_ok_def)
  have lt: "\<forall>c \<in> set (db_commits st). lc_Cursor c < ?n" using cursor_le_last [OF _ sorted] by fastforce
  moreover have "0 < ?n" using bspec [OF pos last_in_set] by (auto simp: add_pos_pos)
  ultimately show ?thesis using sorted pos by (simp add: cursors_ok_def record_operation_def sorted_wrt_append)
qed

lemma record_operation_ok: "store_ok st \<Longrightarrow> store_ok (record_operation cid key kind dg res st)"
  using record_operation_cursors [of st cid key kind dg res]
  by (simp add: store_ok_def) (simp add: record_operation_def blobs_ok_def pages_ok_def tails_ok_def)

lemma record_operation_le: "map_of (db_operations st) (cid, key) = None \<Longrightarrow> store_le st (record_operation cid key kind dg res st)"
  by (auto simp: record_operation_def store_le_def)

text \<open>A mutation answers with the recorded result of its key, or runs and records it.\<close>

lemma mutate_Inr:
  assumes "mutate st owner cid key kind input fn = (Inr res, st')"
  obtains (replay) q where "st' = st\<lparr>db_outcomes := q\<rparr>" "map_of (db_operations st) (cid, key) = Some (op_digest kind input, res)"
      "authorizeContext st owner cid = None"
  | (fresh) q st2 where "fn (st\<lparr>db_outcomes := q\<rparr>) = Inr (res, st2)" "map_of (db_operations st) (cid, key) = None"
      "st' = record_operation cid key kind (op_digest kind input) res st2" "authorizeContext st owner cid = None"
proof -
  have a: "authorizeContext (st\<lparr>db_outcomes := q\<rparr>) owner cid = authorizeContext st owner cid" for q
    by (simp add: authorizeContext_def)
  from begin_tx_cases [of st True] show thesis
  proof cases
    case (1 q)
    then show thesis using assms replay [of q] fresh [of q] a
      by (auto simp: mutate_def split: if_splits option.splits sum.splits)
  next
    case (2 q)
    then show thesis using assms by (simp add: mutate_def split: if_splits)
  qed
qed

text \<open>A failed mutation changes nothing.\<close>

lemma mutate_Inl:
  assumes "mutate st owner cid key kind input fn = (Inl e, st')"
  shows "\<exists>q. st' = st\<lparr>db_outcomes := q\<rparr>"
proof -
  have "\<exists>q. st = st\<lparr>db_outcomes := q\<rparr>" by (rule exI [of _ "db_outcomes st"]) simp
  moreover obtain b q where "begin_tx st = (b, st\<lparr>db_outcomes := q\<rparr>)" by (rule begin_tx_cases [of st True]) blast+
  ultimately show ?thesis
    using assms by (auto simp: mutate_def split: if_splits option.splits sum.splits)
qed

lemma authorized: "authorizeContext st owner cid = None \<Longrightarrow> \<exists>row. gget (db_contexts st) cid = Some row \<and> c_Owner row = owner"
  by (auto simp: authorizeContext_def split: if_splits option.splits)

text \<open>What a mutation shows of its body.\<close>

lemma mutate_ok:
  assumes "mutate st owner cid key kind input fn = (r, st')" and "store_ok st"
    and "\<And>q res st2. fn (st\<lparr>db_outcomes := q\<rparr>) = Inr (res, st2) \<Longrightarrow> gget (db_contexts st) cid \<noteq> None \<Longrightarrow>
           store_ok st2 \<and> store_le (st\<lparr>db_outcomes := q\<rparr>) st2 \<and> db_operations st2 = db_operations st"
  shows "store_ok st' \<and> store_le st st'"
proof (cases r)
  case (Inl e)
  then obtain q where "st' = st\<lparr>db_outcomes := q\<rparr>" using mutate_Inl assms(1) by blast
  then show ?thesis using assms(2) by simp
next
  case (Inr res)
  from assms(1) [unfolded Inr] show ?thesis
  proof (cases rule: mutate_Inr)
    case (replay q)
    then show ?thesis using assms(2) by simp
  next
    case (fresh q st2)
    have "gget (db_contexts st) cid \<noteq> None" using authorized [OF fresh(4)] by auto
    note f = assms(3) [OF fresh(1) this]
    have "store_le st st2" using store_le_trans [OF outcomes_frame(2)] f by blast
    moreover have "store_le st2 st'" unfolding fresh(3) using f fresh(2) by (intro record_operation_le) simp
    moreover have "store_ok st'" unfolding fresh(3) using f by (intro record_operation_ok) simp
    ultimately show ?thesis using store_le_trans by blast
  qed
qed

section \<open>Append\<close>

lemma append_tx_Inr:
  assumes "append_tx cid data st = Inr (hash, st2)" and "store_ok st" and "gget (db_contexts st) cid \<noteq> None"
  shows "hash = contextHash (tail_data st cid @ data)"
    and "st2 = set_tail cid (Some hash) (insert_blob hash (tail_data st cid @ data) st)"
proof -
  obtain row where row: "gget (db_contexts st) cid = Some row" using assms(3) by auto
  obtain previous st1 where p: "(case c_Tail row of None \<Rightarrow> Inr [] | Some h \<Rightarrow> contextBlob st h) = Inr previous"
    "putContextBlob (previous @ data) st = Inr (hash, st1)" "st2 = set_tail cid (Some hash) st1"
    using assms(1) row by (auto simp: append_tx_def get_tail_def split: sum.splits prod.splits)
  have "previous = tail_data st cid"
    using p(1) row contextBlob_Inr by (cases "c_Tail row") (auto simp: tail_data_def page_data_def)
  then show "hash = contextHash (tail_data st cid @ data)"
      "st2 = set_tail cid (Some hash) (insert_blob hash (tail_data st cid @ data) st)"
    using put_blob [OF p(2)] p(3) by simp_all
qed

lemma append_tx_ok:
  assumes "append_tx cid data st = Inr (hash, st2)" and "store_ok st" and "gget (db_contexts st) cid \<noteq> None"
  shows "store_ok st2" and "store_le st st2" and "db_operations st2 = db_operations st"
proof -
  let ?i = "insert_blob hash (tail_data st cid @ data) st"
  note a = append_tx_Inr [OF assms]
  have "gget (db_blobs ?i) hash \<noteq> None" by (simp add: insert_blob_blobs)
  then show "store_ok st2" using insert_blob_ok [OF assms(2)] a by (auto intro: set_tail_ok)
  show "store_le st st2" unfolding a(2) by (rule store_le_trans [of _ ?i]) simp_all
  show "db_operations st2 = db_operations st" unfolding a(2) by simp
qed

lemma append_tx_content:
  assumes "append_tx cid data st = Inr (hash, st2)" and "store_ok st" and "gget (db_contexts st) cid \<noteq> None"
    and "no_collision (tail_data st cid @ data) st"
  shows "content st2 c = (if c = cid then content st cid @ data else content st c)"
proof (cases "c = cid")
  case False
  have h: "page_hashes c st2 = page_hashes c st" for c
    unfolding append_tx_Inr(2) [OF assms(1-3)] by (simp add: page_hashes_def page_rows_def)
  then show ?thesis
    using content_same [OF assms(2) append_tx_ok(2) [OF assms(1-3)]] False
    unfolding append_tx_Inr(2) [OF assms(1-3)] by (simp add: set_tail_contexts)
next
  case True
  note a = append_tx_Inr [OF assms(1-3)]
  obtain row where row: "gget (db_contexts st) cid = Some row" using assms(3) by auto
  have h: "page_hashes cid st2 = page_hashes cid st" unfolding a(2) by (simp add: page_hashes_def page_rows_def)
  have p: "map (page_data st2) (page_hashes cid st) = map (page_data st) (page_hashes cid st)"
    using page_hash_stored [OF assms(2)] page_data_le [OF append_tx_ok(2) [OF assms(1-3)]] by auto
  have "gget (db_blobs st2) hash = Some (tail_data st cid @ data)"
    unfolding a(2) using insert_blob_data [OF assms(4)] a(1) by simp
  moreover have "gget (db_contexts st2) cid = Some (row\<lparr>c_Tail := Some hash\<rparr>)" unfolding a(2) by (simp add: set_tail_contexts row)
  ultimately have "tail_data st2 cid = tail_data st cid @ data" by (simp add: tail_data_def [of st2] page_data_def)
  then have "content st2 cid = content st cid @ data" by (simp only: content_def h p append_assoc)
  then show ?thesis using True by simp
qed

section \<open>Fork\<close>

lemma sort_key_snoc: "(\<And>y. y \<in> set xs \<Longrightarrow> f y < f x) \<Longrightarrow> sort_key f (xs @ [x]) = sort_key f xs @ [x]" for f :: "'a \<Rightarrow> 'b :: linorder"
proof (induction xs)
  case (Cons y xs)
  have "insort_key f y (zs @ [x]) = insort_key f y zs @ [x]" if "f y < f x" for zs
    using that by (induction zs) auto
  then show ?case using Cons by simp
qed simp

lemma next_position_gt: "(p, h) \<in> set (page_rows cid st) \<Longrightarrow> p < next_position cid st"
proof -
  have "(p, h) \<in> set rows \<Longrightarrow> p < foldr max (map (\<lambda>(p, _). Suc p) rows) 0" for rows :: "(nat \<times> string) list"
    by (induction rows) (auto simp: less_max_iff_disj)
  then show "(p, h) \<in> set (page_rows cid st) \<Longrightarrow> p < next_position cid st" by (simp add: next_position_def)
qed

text \<open>Sealing moves the tail to the end of the pages.\<close>

lemma seal_hashes:
  assumes "insert_page cid (next_position cid st) h st = Inr st'"
  shows "page_hashes c st' = (if c = cid then page_hashes cid st @ [h] else page_hashes c st)"
proof -
  note i = insert_page_Inr(1) [OF assms]
  have "page_rows c st' = (if c = cid then page_rows cid st @ [(next_position cid st, h)] else page_rows c st)"
    unfolding i by (simp add: page_rows_def)
  moreover have "sort_key fst (page_rows cid st @ [(next_position cid st, h)]) = sort_key fst (page_rows cid st) @ [(next_position cid st, h)]"
    using next_position_gt by (intro sort_key_snoc) auto
  ultimately show ?thesis by (simp add: page_hashes_def)
qed

definition tail_hash :: "string \<Rightarrow> cstore \<Rightarrow> string list" where
  "tail_hash cid st = (case gget (db_contexts st) cid of None \<Rightarrow> [] | Some row \<Rightarrow> (case c_Tail row of None \<Rightarrow> [] | Some h \<Rightarrow> [h]))"

lemma content_hashes: "content st cid = concat (map (page_data st) (page_hashes cid st @ tail_hash cid st))"
  by (simp add: content_def tail_data_def tail_hash_def split: option.split)

lemma tail_hash_stored: "store_ok st \<Longrightarrow> h \<in> set (tail_hash cid st) \<Longrightarrow> gget (db_blobs st) h \<noteq> None"
  unfolding tail_hash_def store_ok_def tails_ok_def by (force split: option.splits)

text \<open>The content of a context over more blobs is determined by the hashes of its pages and tail.\<close>

lemma content_same_hashes:
  assumes "store_ok st" and "store_le st st'"
    and "page_hashes c' st' @ tail_hash c' st' = page_hashes c st @ tail_hash c st"
  shows "content st' c' = content st c"
proof -
  have "\<forall>h \<in> set (page_hashes c st @ tail_hash c st). page_data st' h = page_data st h"
    using page_hash_stored [OF assms(1)] tail_hash_stored [OF assms(1)] page_data_le [OF assms(2)] by (metis Un_iff set_append)
  then have "map (page_data st') (page_hashes c st @ tail_hash c st) = map (page_data st) (page_hashes c st @ tail_hash c st)"
    by simp
  then show ?thesis by (simp only: content_hashes assms(3))
qed

lemma seal_tail_cases:
  assumes "seal_tail cid st = Inr st'"
  obtains (none) "st' = st" "tail_hash cid st = []"
  | (sealed) h where "tail_hash cid st = [h]" "insert_page cid (next_position cid st) h st = Inr st'" "gget (db_contexts st) cid \<noteq> None"
  using assms by (auto simp: seal_tail_def tail_hash_def split: option.splits)

lemma seal_tail_hashes:
  assumes "seal_tail cid st = Inr st'"
  shows "page_hashes c st' = (if c = cid then page_hashes cid st @ tail_hash cid st else page_hashes c st)"
  using assms by (cases rule: seal_tail_cases) (simp_all add: seal_hashes)

lemma insert_page_frame:
  "insert_page cid pos h st = Inr st1 \<Longrightarrow> db_contexts st1 = db_contexts st \<and> db_operations st1 = db_operations st \<and> db_blobs st1 = db_blobs st"
  by (drule insert_page_Inr(1)) simp

lemma seal_tail_frame:
  assumes "seal_tail cid st = Inr st'"
  shows "db_contexts st' = db_contexts st \<and> db_operations st' = db_operations st"
  using assms by (cases rule: seal_tail_cases) (simp, blast dest: insert_page_frame)

lemma seal_tail_ok:
  assumes "seal_tail cid st = Inr st'" and "store_ok st"
  shows "store_ok st' \<and> store_le st st'"
  using assms(1)
proof (cases rule: seal_tail_cases)
  case none
  then show ?thesis using assms(2) by simp
next
  case (sealed h)
  then have "gget (db_blobs st) h \<noteq> None" using tail_hash_stored [OF assms(2), of h cid] by simp
  then show ?thesis using insert_page_ok [OF assms(2) sealed(2) _ sealed(3)] by blast
qed

lemma copy_pages_Inr:
  "copy_pages child rows st = Inr st' \<Longrightarrow> db_pages st' = db_pages st @ map (\<lambda>(p, h). (child, p, h)) rows
     \<and> db_contexts st' = db_contexts st \<and> db_operations st' = db_operations st \<and> db_blobs st' = db_blobs st"
proof (induction rows arbitrary: st)
  case (Cons r rows)
  obtain p h where r: "r = (p, h)" by fastforce
  then obtain st1 where i: "insert_page child p h st = Inr st1" "copy_pages child rows st1 = Inr st'"
    using Cons.prems by (auto split: sum.splits)
  show ?case using Cons.IH [OF i(2)] insert_page_Inr(1) [OF i(1)] by (simp add: r)
qed simp

lemma copy_pages_ok:
  "copy_pages child rows st = Inr st' \<Longrightarrow> store_ok st \<Longrightarrow> \<forall>(p, h) \<in> set rows. gget (db_blobs st) h \<noteq> None \<Longrightarrow>
     gget (db_contexts st) child \<noteq> None \<Longrightarrow> store_ok st' \<and> store_le st st'"
proof (induction rows arbitrary: st)
  case (Cons r rows)
  obtain p h where r: "r = (p, h)" by fastforce
  then obtain st1 where i: "insert_page child p h st = Inr st1" "copy_pages child rows st1 = Inr st'"
    using Cons.prems(1) by (auto split: sum.splits)
  have s1: "store_ok st1" "store_le st st1" using insert_page_ok [OF Cons.prems(2) i(1)] Cons.prems(3,4) r by auto
  have "store_ok st' \<and> store_le st1 st'"
    using Cons.IH [OF i(2) s1(1)] Cons.prems(3,4) insert_page_frame [OF i(1)] by simp
  then show ?case using store_le_trans [OF s1(2)] by blast
qed simp

lemma insert_context_Inr:
  assumes "insert_context cid owner st = Inr st1" and "store_ok st"
  shows "gget (db_contexts st) cid = None" and "gget (db_contexts st1) c = (if c = cid then Some \<lparr>c_Owner = owner, c_Tail = None\<rparr> else gget (db_contexts st) c)"
    and "db_pages st1 = db_pages st" and "db_operations st1 = db_operations st" and "store_ok st1 \<and> store_le st st1"
proof -
  have i: "gget (db_contexts st) cid = None" "st1 = st\<lparr>db_contexts := (cid, \<lparr>c_Owner = owner, c_Tail = None\<rparr>) # db_contexts st\<rparr>"
    using assms(1) by (auto simp: insert_context_def split: if_splits)
  then show "gget (db_contexts st) cid = None" "gget (db_contexts st1) c = (if c = cid then Some \<lparr>c_Owner = owner, c_Tail = None\<rparr> else gget (db_contexts st) c)"
    "db_pages st1 = db_pages st" "db_operations st1 = db_operations st" by simp_all
  show "store_ok st1 \<and> store_le st st1"
    using assms(2) i by (auto simp: store_ok_def blobs_ok_def pages_ok_def tails_ok_def cursors_ok_def store_le_def)
qed

lemma fork_tx_Inr:
  assumes "fork_tx parent owner rnd st = Inr (child, st')"
  obtains st1 st2 where "insert_context child owner st = Inr st1" "seal_tail parent st1 = Inr st2"
    "copy_pages child (page_rows parent (set_tail parent None st2)) (set_tail parent None st2) = Inr st'"
  using assms by (auto simp: fork_tx_def Let_def split: sum.splits)

lemma fork_tx_ok:
  assumes "fork_tx parent owner rnd st = Inr (child, st')" and "store_ok st"
  shows "store_ok st'" and "store_le st st'" and "db_operations st' = db_operations st"
proof -
  from assms(1) obtain st1 st2 where f: "insert_context child owner st = Inr st1" "seal_tail parent st1 = Inr st2"
    "copy_pages child (page_rows parent (set_tail parent None st2)) (set_tail parent None st2) = Inr st'"
    by (rule fork_tx_Inr)
  let ?st3 = "set_tail parent None st2"
  note i = insert_context_Inr [OF f(1) assms(2)]
  have s2: "store_ok st2 \<and> store_le st1 st2" using seal_tail_ok [OF f(2)] i(5) by blast
  have s3: "store_ok ?st3" "store_le st2 ?st3" using s2 set_tail_ok [of st2 None] by simp_all
  have "\<forall>(p, h) \<in> set (page_rows parent ?st3). gget (db_blobs ?st3) h \<noteq> None"
    using s3(1) page_rows_mem [of _ _ parent ?st3] by (fastforce simp: store_ok_def pages_ok_def)
  moreover have "gget (db_contexts ?st3) child \<noteq> None"
    using i(2) [of child] seal_tail_frame [OF f(2)] by (cases "child = parent") (simp_all add: set_tail_contexts)
  ultimately have s4: "store_ok st'" "store_le ?st3 st'" using copy_pages_ok [OF f(3) s3(1)] by simp_all
  then show "store_ok st'" by simp
  show "store_le st st'" using store_le_trans [OF _ store_le_trans [OF _ store_le_trans [OF s3(2) s4(2)]]] i(5) s2 by blast
  show "db_operations st' = db_operations st"
    using copy_pages_Inr [OF f(3)] seal_tail_frame [OF f(2)] i(4) by simp
qed

lemma fork_tx_content:
  assumes "fork_tx parent owner rnd st = Inr (child, st')" and "store_ok st" and "gget (db_contexts st) parent \<noteq> None"
  shows "gget (db_contexts st) child = None" and "content st' child = content st parent"
    and "c \<noteq> child \<Longrightarrow> content st' c = content st c"
proof -
  from assms(1) obtain st1 st2 where f: "insert_context child owner st = Inr st1" "seal_tail parent st1 = Inr st2"
    "copy_pages child (page_rows parent (set_tail parent None st2)) (set_tail parent None st2) = Inr st'"
    by (rule fork_tx_Inr)
  let ?st3 = "set_tail parent None st2"
  note i = insert_context_Inr [OF f(1) assms(2)]
  note le = fork_tx_ok(2) [OF assms(1,2)]
  show new: "gget (db_contexts st) child = None" by (rule i(1))
  have np: "child \<noteq> parent" using new assms(3) by auto
  have ctx: "gget (db_contexts st') c = (if c = child then Some \<lparr>c_Owner = owner, c_Tail = None\<rparr>
      else if c = parent then map_option (\<lambda>row. row\<lparr>c_Tail := None\<rparr>) (gget (db_contexts st) c) else gget (db_contexts st) c)" for c
    using copy_pages_Inr [OF f(3)] seal_tail_frame [OF f(2)] i(2) [of c] np by (cases "c = child"; cases "c = parent") (simp_all add: set_tail_contexts)
  have rows: "page_rows c st' = (if c = child then page_rows child ?st3 @ page_rows parent ?st3 else page_rows c ?st3)" for c
  proof -
    have "filter (\<lambda>(d, _). d = c) (map (\<lambda>(p, h). (child, p, h)) xs) = (if c = child then map (\<lambda>(p, h). (child, p, h)) xs else [])" for xs :: "(nat \<times> string) list"
      by (induction xs) auto
    moreover have "map snd (map (\<lambda>(p, h). (child, p, h)) xs) = xs" for xs :: "(nat \<times> string) list" by (induction xs) auto
    ultimately show ?thesis using copy_pages_Inr [OF f(3)] unfolding page_rows_def by simp
  qed
  have h1: "page_hashes c st1 = page_hashes c st" "tail_hash parent st1 = tail_hash parent st" for c
    using i(2) [of parent] i(3) np by (simp_all add: page_hashes_def page_rows_def tail_hash_def)
  have h3: "page_hashes c ?st3 = (if c = parent then page_hashes parent st @ tail_hash parent st else page_hashes c st)" for c
    using seal_tail_hashes [OF f(2), of c] h1 by (simp add: page_hashes_def page_rows_def)
  have "page_hashes child st = []"
  proof -
    have "(child, p, h) \<notin> set (db_pages st)" for p h
      using assms(2) new by (auto simp: store_ok_def pages_ok_def)
    then have "page_rows child st = []" using page_rows_mem [of _ _ child st] by (cases "page_rows child st") force+
    then show ?thesis by (simp add: page_hashes_def)
  qed
  moreover have "length (page_rows child ?st3) = length (page_hashes child ?st3)" by (simp add: page_hashes_def)
  ultimately have empty: "page_rows child ?st3 = []" using h3 [of child] np by simp
  have ph: "page_hashes c st' = (if c = child then page_hashes parent st @ tail_hash parent st else page_hashes c ?st3)" for c
    using rows [of c] empty h3 [of parent] by (simp add: page_hashes_def)
  have "page_hashes child st' @ tail_hash child st' = page_hashes parent st @ tail_hash parent st"
    using ph ctx [of child] by (simp add: tail_hash_def)
  then show "content st' child = content st parent" by (rule content_same_hashes [OF assms(2) le])
  have "page_hashes c st' @ tail_hash c st' = page_hashes c st @ tail_hash c st" if "c \<noteq> child"
    using ph [of c] h3 [of c] ctx [of c] that assms(3) by (auto simp: tail_hash_def)
  then show "c \<noteq> child \<Longrightarrow> content st' c = content st c" using content_same_hashes [OF assms(2) le] by blast
qed

section \<open>Snapshots\<close>

lemma snapshot_names:
  "foldName ''hash'' = ''hash''" "foldName ''bytes'' = ''bytes''" "foldName ''context_id'' = ''context_id''"
  "foldName ''prefix'' = ''prefix''" "foldName ''tail'' = ''tail''"
  by code_simp+

lemma snapshot_keys: "plain_key ''hash''" "plain_key ''bytes''" "plain_key ''context_id''" "plain_key ''prefix''" "plain_key ''tail''"
  by code_simp+

lemma parseInt_dec: "n < 2 ^ 63 \<Longrightarrow> parseInt (dec n) = Some (int n)"
  using dec_digits [of n] dec_nonempty [of n]
  by (cases "dec n") (auto simp: parseInt_def is_digit_def dest: arg_cong [of _ _ undec])

definition page_value :: "contextpage \<Rightarrow> json" where
  "page_value p = JObj [(''hash'', JStr (cp_Hash p)), (''bytes'', JNum (dec (nat (cp_Bytes p))))]"

definition page_fine :: "contextpage \<Rightarrow> bool" where
  "page_fine p \<longleftrightarrow> utf8_ok (cp_Hash p) \<and> 0 \<le> cp_Bytes p \<and> cp_Bytes p < 2 ^ 63"

definition snapshot_fine :: "contextsnapshot \<Rightarrow> bool" where
  "snapshot_fine s \<longleftrightarrow> utf8_ok (sn_ContextID s) \<and> (\<forall>p \<in> set (sn_Prefix s). page_fine p)
     \<and> (case sn_Tail s of None \<Rightarrow> True | Some p \<Rightarrow> page_fine p)"

lemma yields_page:
  assumes "page_fine p"
  shows "yields 1 (page_json p) (page_value p)"
proof -
  let ?kts = "[(''hash'', quote (cp_Hash p), JStr (unquote (esc (cp_Hash p)))), (''bytes'', dec (nat (cp_Bytes p)), JNum (dec (nat (cp_Bytes p))))]"
  have "yields (Suc 0) (jobject (texts ?kts)) (JObj (vals ?kts))"
    by (rule yields_object) (simp_all add: snapshot_keys yields_quote yields_dec del: esc.simps)
  moreover have "unquote (esc (cp_Hash p)) = cp_Hash p" using assms by (simp add: page_fine_def unquote_esc)
  moreover have "dec_int (cp_Bytes p) = dec (nat (cp_Bytes p))" using assms by (simp add: page_fine_def dec_int_def)
  ultimately show ?thesis by (simp add: page_json_def page_value_def del: esc.simps)
qed

lemma decode_page_value: "page_fine p \<Longrightarrow> decode_page (page_value p) = Some p"
  using parseInt_dec [of "nat (cp_Bytes p)"]
  by (simp add: decode_page_def page_value_def snapshot_names page_fine_def nat_less_iff del: foldName.simps)

lemma decode_pages_values: "\<forall>p \<in> set ps. page_fine p \<Longrightarrow> decode_pages (map page_value ps) = Some ps"
  by (induction ps) (simp_all add: decode_page_value)

text \<open>Reading back a snapshot gives the snapshot.\<close>

lemma snapshot_roundtrip:
  assumes "snapshot_fine s"
  shows "decode_snapshot (snapshot_json s) = Some s"
proof -
  let ?ps = "map (\<lambda>p. (page_json p, page_value p)) (sn_Prefix s)"
  have "\<exists>c t'. page_json p = c # t' \<and> c \<noteq> CHR '']'' \<and> \<not> is_ws c" for p
    by (simp add: page_json_def jobject_def is_ws_def)
  then have arr: "yields 2 (jarray (map page_json (sn_Prefix s))) (JArr (map page_value (sn_Prefix s)))"
    using yields_array [of ?ps 1] assms yields_page by (auto simp: snapshot_fine_def comp_def numeral_2_eq_2)
  let ?id = "sn_ContextID s"
  let ?tl = "case sn_Tail s of None \<Rightarrow> [] | Some p \<Rightarrow> [(''tail'', page_json p, page_value p)]"
  let ?kts = "[(''context_id'', quote ?id, JStr (unquote (esc ?id))), (''prefix'', jarray (map page_json (sn_Prefix s)), JArr (map page_value (sn_Prefix s)))] @ ?tl"
  have t: "snapshot_json s = jobject (texts ?kts)" by (simp add: snapshot_json_def del: esc.simps split: option.split)
  have "page_fine p" if "Some p = sn_Tail s" for p
    using assms that by (simp add: snapshot_fine_def split: option.splits)
  then have "yields 2 (page_json p) (page_value p)" if "Some p = sn_Tail s" for p
    using yields_mono [OF yields_page, of p 2] that by simp
  then have "json_parse (jobject (texts ?kts)) = Some (JObj (vals ?kts))"
    using assms arr
    by (intro json_parse_object [where d = 2])
      (auto simp: snapshot_keys maxNestingDepth_def snapshot_fine_def split: option.split intro: yields_mono yields_quote)
  moreover have "unquote (esc ?id) = ?id" using assms by (simp add: snapshot_fine_def unquote_esc)
  ultimately show ?thesis
    using assms decode_pages_values [of "sn_Prefix s"] decode_page_value
    unfolding t decode_snapshot_def Let_def
    by (cases "sn_Tail s") (simp_all add: snapshot_names snapshot_fine_def page_value_def del: foldName.simps)
qed

section \<open>Checkpoint and restore\<close>

lemma hash_utf8: "utf8_ok (contextHash d)"
proof -
  have "\<forall>c \<in> set cs. \<exists>n < 16. c = hexdig n \<Longrightarrow> utf8_ok cs" for cs
  proof (induction cs)
    case (Cons c cs)
    have "code c < 128" using Cons.prems by (auto simp: hexdig_code)
    then have "rune_len (c # cs) = 1" by (simp add: rune_len_def)
    then show ?case using Cons by simp
  qed simp
  then show ?thesis using sha256hex_digits by (simp add: contextHash_def)
qed

text \<open>Blobs as small as Go slices are.\<close>

definition sizes_ok :: "cstore \<Rightarrow> bool" where
  "sizes_ok st \<longleftrightarrow> (\<forall>(h, d) \<in> set (db_blobs st). length d < 2 ^ 63)"

lemma blob_page_Inr:
  assumes "blob_page st h = Inr p" and "store_ok st" and "sizes_ok st"
  shows "cp_Hash p = h" and "page_fine p" and "\<exists>d. gget (db_blobs st) h = Some d \<and> cp_Bytes p = int (length d)"
proof -
  obtain d where d: "contextBlob st h = Inr d" "p = \<lparr>cp_Hash = h, cp_Bytes = int (length d)\<rparr>"
    using assms(1) by (auto simp: blob_page_def split: sum.splits)
  have b: "gget (db_blobs st) h = Some d" using contextBlob_Inr [OF d(1)] .
  then have "h = contextHash d" "length d < 2 ^ 63"
    using assms(2,3) map_of_SomeD [OF b] by (auto simp: store_ok_def blobs_ok_def sizes_ok_def)
  then show "cp_Hash p = h" "page_fine p" "\<exists>d. gget (db_blobs st) h = Some d \<and> cp_Bytes p = int (length d)"
    using d(2) b hash_utf8 [of d] by (auto simp: page_fine_def)
qed

lemma blob_pages_Inr: "blob_pages st hs = Inr ps \<Longrightarrow> list_all2 (\<lambda>h p. blob_page st h = Inr p) hs ps"
  by (induction hs arbitrary: ps) (auto split: sum.splits)

lemma snapshot_Inr:
  assumes "snapshotContext st cid = Inr snap" and "store_ok st" and "sizes_ok st" and "utf8_ok cid"
  shows "snapshot_fine snap" and "sn_ContextID snap = cid" and "map cp_Hash (sn_Prefix snap) = page_hashes cid st"
    and "(case sn_Tail snap of None \<Rightarrow> [] | Some p \<Rightarrow> [cp_Hash p]) = tail_hash cid st"
    and "\<forall>p \<in> set (sn_Prefix snap) \<union> set_option (sn_Tail snap). \<exists>d. gget (db_blobs st) (cp_Hash p) = Some d \<and> cp_Bytes p = int (length d)"
proof -
  obtain pre where pre: "blob_pages st (page_hashes cid st) = Inr pre" and s: "sn_ContextID snap = cid" "sn_Prefix snap = pre"
    and t: "(sn_Tail snap = None \<and> tail_hash cid st = []) \<or> (\<exists>h p. sn_Tail snap = Some p \<and> tail_hash cid st = [h] \<and> blob_page st h = Inr p)"
    using assms(1) by (auto simp: snapshotContext_def get_tail_def tail_hash_def split: sum.splits option.splits)
  note l = blob_pages_Inr [OF pre]
  have b: "cp_Hash p = h \<and> page_fine p \<and> (\<exists>d. gget (db_blobs st) h = Some d \<and> cp_Bytes p = int (length d))" if "blob_page st h = Inr p" for h p
    using blob_page_Inr [OF that assms(2,3)] by blast
  have "list_all2 (\<lambda>h p. cp_Hash p = h \<and> page_fine p \<and> (\<exists>d. gget (db_blobs st) h = Some d \<and> cp_Bytes p = int (length d))) (page_hashes cid st) pre"
    using l b by (rule list_all2_mono)
  then have pr: "map cp_Hash pre = page_hashes cid st" "\<forall>p \<in> set pre. page_fine p
      \<and> (\<exists>d. gget (db_blobs st) (cp_Hash p) = Some d \<and> cp_Bytes p = int (length d))"
    by (induction rule: list_all2_induct) auto
  show "sn_ContextID snap = cid" "map cp_Hash (sn_Prefix snap) = page_hashes cid st" using s pr(1) by simp_all
  show "snapshot_fine snap" using s pr(2) t b assms(4) by (auto simp: snapshot_fine_def)
  show "(case sn_Tail snap of None \<Rightarrow> [] | Some p \<Rightarrow> [cp_Hash p]) = tail_hash cid st" using t b by auto
  show "\<forall>p \<in> set (sn_Prefix snap) \<union> set_option (sn_Tail snap). \<exists>d. gget (db_blobs st) (cp_Hash p) = Some d \<and> cp_Bytes p = int (length d)"
    using s pr(2) t b by auto
qed

lemma checkpoint_tx_Inr:
  assumes "checkpoint_tx cid st = Inr (h, st2)"
  obtains snap where "snapshotContext st cid = Inr snap" "h = contextHash (snapshot_json snap)"
    "st2 = insert_grant cid h ''checkpoint'' (insert_blob h (snapshot_json snap) st)"
  using assms put_blob by (fastforce simp: checkpoint_tx_def split: sum.splits)

lemma insert_grant_frame [simp]:
  "db_blobs (insert_grant cid h k st) = db_blobs st" "db_contexts (insert_grant cid h k st) = db_contexts st"
  "db_pages (insert_grant cid h k st) = db_pages st" "db_operations (insert_grant cid h k st) = db_operations st"
  "db_commits (insert_grant cid h k st) = db_commits st"
  "set (db_grants (insert_grant cid h k st)) = insert (cid, h, k) (set (db_grants st))"
  by (auto simp: insert_grant_def)

lemma insert_grant_le [simp]: "store_le st (insert_grant cid h k st)"
  by (auto simp: store_le_def)

lemma insert_grant_ok [simp]: "store_ok (insert_grant cid h k st) \<longleftrightarrow> store_ok st"
  by (simp add: store_ok_def blobs_ok_def pages_ok_def tails_ok_def cursors_ok_def)

lemma restore_pages_run:
  "\<forall>p \<in> set ps. check_page st p = None \<Longrightarrow> \<forall>(c, q, _) \<in> set (db_pages st). c = cid \<longrightarrow> q < i \<Longrightarrow>
     \<exists>st1. restore_pages cid i ps st = Inr st1 \<and> st1 = st\<lparr>db_pages := db_pages st @ map (\<lambda>(j, p). (cid, j, cp_Hash p)) (enumerate i ps)\<rparr>"
proof (induction ps arbitrary: i st)
  case (Cons p ps)
  let ?st = "st\<lparr>db_pages := db_pages st @ [(cid, i, cp_Hash p)]\<rparr>"
  have "check_page ?st q = check_page st q" for q by (simp add: check_page_def contextBlob_def)
  then obtain st1 where "restore_pages cid (Suc i) ps ?st = Inr st1"
      "st1 = ?st\<lparr>db_pages := db_pages ?st @ map (\<lambda>(j, p). (cid, j, cp_Hash p)) (enumerate (Suc i) ps)\<rparr>"
    using Cons.IH [of ?st "Suc i"] Cons.prems by fastforce
  moreover have "insert_page cid i (cp_Hash p) st = Inr ?st"
    using Cons.prems(2) by (fastforce simp: insert_page_def list_ex_iff)
  ultimately show ?case using Cons.prems(1) by simp
qed simp

lemma restore_pages_ok:
  "restore_pages cid i ps st = Inr st' \<Longrightarrow> store_ok st \<Longrightarrow> gget (db_contexts st) cid \<noteq> None \<Longrightarrow>
     store_ok st' \<and> store_le st st' \<and> db_contexts st' = db_contexts st \<and> db_operations st' = db_operations st"
proof (induction ps arbitrary: i st)
  case (Cons p ps)
  obtain st1 where c: "check_page st p = None" "insert_page cid i (cp_Hash p) st = Inr st1" "restore_pages cid (Suc i) ps st1 = Inr st'"
    using Cons.prems(1) by (auto split: option.splits sum.splits)
  have "gget (db_blobs st) (cp_Hash p) \<noteq> None"
    using c(1) contextBlob_Inr by (fastforce simp: check_page_def split: sum.splits)
  note s1 = insert_page_ok [OF Cons.prems(2) c(2) this Cons.prems(3)]
  show ?case using Cons.IH [OF c(3) s1(1)] Cons.prems(3) insert_page_frame [OF c(2)] store_le_trans [OF s1(2)] by simp
qed simp

lemma delete_pages_frame [simp]:
  "db_blobs (delete_pages cid st) = db_blobs st" "db_contexts (delete_pages cid st) = db_contexts st"
  "db_grants (delete_pages cid st) = db_grants st" "db_operations (delete_pages cid st) = db_operations st"
  "db_commits (delete_pages cid st) = db_commits st"
  by (simp_all add: delete_pages_def)

lemma delete_pages_ok: "store_ok st \<Longrightarrow> store_ok (delete_pages cid st) \<and> store_le st (delete_pages cid st)"
  by (auto simp: store_ok_def blobs_ok_def tails_ok_def cursors_ok_def pages_ok_def store_le_def delete_pages_def distinct_map_filter)

lemma restore_tx_Inr:
  assumes "restore_tx cid cp st = Inr (res, st')"
  shows "\<exists>(snap :: contextsnapshot) st1 t. restore_pages cid 0 (sn_Prefix snap) (delete_pages cid st) = Inr st1 \<and> st' = set_tail cid t st1
    \<and> (\<forall>h. t = Some h \<longrightarrow> (\<exists>p. h = cp_Hash p \<and> check_page st1 p = None))"
proof -
  obtain data snap st1 where s: "contextBlob st cp = Inr data" "decode_snapshot data = Some snap" "sn_ContextID snap = cid"
    "(cid, cp, ''checkpoint'') \<in> set (db_grants st)" "restore_pages cid 0 (sn_Prefix snap) (delete_pages cid st) = Inr st1"
    using assms by (auto simp: restore_tx_def split: if_splits sum.splits option.splits)
  have "\<exists>t. st' = set_tail cid t st1 \<and> (\<forall>h. t = Some h \<longrightarrow> (\<exists>p. h = cp_Hash p \<and> check_page st1 p = None))"
  proof (cases "sn_Tail snap")
    case None
    then have "st' = set_tail cid None st1" using assms s by (simp add: restore_tx_def)
    then show ?thesis by blast
  next
    case (Some p)
    then have "check_page st1 p = None" "st' = set_tail cid (Some (cp_Hash p)) st1"
      using assms s by (simp_all add: restore_tx_def split: option.splits)
    then show ?thesis by blast
  qed
  then show ?thesis using s(5) by blast
qed

lemma restore_tx_ok:
  assumes "restore_tx cid cp st = Inr (res, st')" and "store_ok st" and "gget (db_contexts st) cid \<noteq> None"
  shows "store_ok st'" and "store_le st st'" and "db_operations st' = db_operations st"
proof -
  obtain snap :: contextsnapshot and st1 t where r: "restore_pages cid 0 (sn_Prefix snap) (delete_pages cid st) = Inr st1" "st' = set_tail cid t st1"
    "\<And>h. t = Some h \<Longrightarrow> \<exists>p. h = cp_Hash p \<and> check_page st1 p = None" using restore_tx_Inr [OF assms(1)] by blast
  have d: "store_ok (delete_pages cid st)" "store_le st (delete_pages cid st)" using delete_pages_ok [OF assms(2)] by simp_all
  have "gget (db_contexts (delete_pages cid st)) cid \<noteq> None" using assms(3) by simp
  note s1 = restore_pages_ok [OF r(1) d(1) this, simplified]
  have "gget (db_blobs st1) h \<noteq> None" if "t = Some h" for h
    using r(3) [OF that] contextBlob_Inr by (fastforce simp: check_page_def split: sum.splits)
  then show "store_ok st'" unfolding r(2) using s1 by (auto intro: set_tail_ok)
  show "store_le st st'" unfolding r(2) using store_le_trans [OF store_le_trans [OF d(2)] set_tail_le] s1 by blast
  show "db_operations st' = db_operations st" unfolding r(2) using s1 by simp
qed

lemma check_page_ok:
  "blobs_ok st \<Longrightarrow> gget (db_blobs st) (cp_Hash p) = Some d \<Longrightarrow> cp_Bytes p = int (length d) \<Longrightarrow> check_page st p = None"
  by (simp add: check_page_def contextBlob_ok)

lemma restored_hashes:
  fixes ps :: "contextpage list"
  assumes "db_pages st1 = filter (\<lambda>(c, _). c \<noteq> cid) (db_pages st) @ map (\<lambda>(j, p). (cid, j, cp_Hash p)) (enumerate 0 ps)"
  shows "page_hashes c st1 = (if c = cid then map cp_Hash ps else page_hashes c st)"
proof -
  have f: "filter (\<lambda>(c', _). c' = c) (filter (\<lambda>(c, _). c \<noteq> cid) xs) = (if c = cid then [] else filter (\<lambda>(c', _). c' = c) xs)" for xs :: "(string \<times> nat \<times> string) list"
    by (induction xs) auto
  have g: "filter (\<lambda>(c', _). c' = c) (map (\<lambda>(j, p). (cid, j, cp_Hash p)) xs) = (if c = cid then map (\<lambda>(j, p). (cid, j, cp_Hash p)) xs else [])" for xs
    by (induction xs) auto
  have r: "page_rows c st1 = (if c = cid then map (\<lambda>(j, p). (j, cp_Hash p)) (enumerate 0 ps) else page_rows c st)"
    unfolding page_rows_def assms filter_append f g by (simp add: comp_def case_prod_unfold)
  have "sorted (map fst (map (\<lambda>(j, p). (j, cp_Hash p)) (enumerate 0 ps)))"
    using map_fst_enumerate [of 0 ps] by (simp add: comp_def case_prod_unfold)
  then have "sort_key fst (map (\<lambda>(j, p). (j, cp_Hash p)) (enumerate 0 ps)) = map (\<lambda>(j, p). (j, cp_Hash p)) (enumerate 0 ps)"
    by (rule sort_key_id_if_sorted)
  moreover have "map snd (map (\<lambda>(j, p). (j, cp_Hash p)) (enumerate 0 ps)) = map cp_Hash ps"
  proof -
    have "map snd (map (\<lambda>(j, p). (j, cp_Hash p)) xs) = map cp_Hash (map snd xs)" for xs :: "(nat \<times> contextpage) list"
      by (induction xs) auto
    from this [of "enumerate 0 ps"] show ?thesis by (simp only: map_snd_enumerate)
  qed
  ultimately show ?thesis unfolding page_hashes_def r by simp
qed

text \<open>Restoring a checkpoint of \<open>old\<close>, in any later store.\<close>

lemma restore_tx_content:
  assumes "snapshotContext old cid = Inr snap" and "store_ok old" and "sizes_ok old" and "utf8_ok cid"
    and "store_le old st" and "store_ok st" and "gget (db_contexts st) cid \<noteq> None"
    and "(cid, h, ''checkpoint'') \<in> set (db_grants st)" and "gget (db_blobs st) h = Some (snapshot_json snap)"
  obtains st' where "restore_tx cid h st = Inr (h, st')" and "content st' cid = content old cid"
    and "\<And>c. c \<noteq> cid \<Longrightarrow> content st' c = content st c"
proof -
  note sn = snapshot_Inr [OF assms(1-4)]
  have blobs: "blobs_ok st" using assms(6) by (simp add: store_ok_def)
  have ck: "check_page st p = None" if mem: "p \<in> set (sn_Prefix snap) \<union> set_option (sn_Tail snap)" for p
  proof -
    obtain d where d: "gget (db_blobs old) (cp_Hash p) = Some d" "cp_Bytes p = int (length d)" using bspec [OF sn(5) mem] by blast
    then have "gget (db_blobs st) (cp_Hash p) = Some d" using assms(5) by (simp add: store_le_def)
    then show ?thesis by (rule check_page_ok [OF blobs _ d(2)])
  qed
  have frame: "check_page (st\<lparr>db_pages := ps\<rparr>) p = check_page st p" for ps p by (simp add: check_page_def contextBlob_def)
  let ?st1 = "st\<lparr>db_pages := filter (\<lambda>(c, _). c \<noteq> cid) (db_pages st) @ map (\<lambda>(j, p). (cid, j, cp_Hash p)) (enumerate 0 (sn_Prefix snap))\<rparr>"
  have pages: "restore_pages cid 0 (sn_Prefix snap) (delete_pages cid st) = Inr ?st1"
  proof -
    have "\<forall>p \<in> set (sn_Prefix snap). check_page (delete_pages cid st) p = None" using ck by (simp add: delete_pages_def frame)
    moreover have "\<forall>(c, q, _) \<in> set (db_pages (delete_pages cid st)). c = cid \<longrightarrow> q < 0" by (auto simp: delete_pages_def)
    ultimately show ?thesis using restore_pages_run [of "sn_Prefix snap" "delete_pages cid st" cid 0] by (auto simp: delete_pages_def)
  qed
  let ?t = "map_option cp_Hash (sn_Tail snap)"
  have run: "restore_tx cid h st = Inr (h, set_tail cid ?t ?st1)"
  proof (cases "sn_Tail snap")
    case None
    then show ?thesis by (simp add: restore_tx_def assms(8) contextBlob_ok [OF blobs assms(9)] snapshot_roundtrip [OF sn(1)] sn(2) pages)
  next
    case (Some p)
    then have "check_page ?st1 p = None" using ck [of p] frame by simp
    then show ?thesis by (simp add: restore_tx_def assms(8) contextBlob_ok [OF blobs assms(9)] snapshot_roundtrip [OF sn(1)] sn(2) pages Some)
  qed
  let ?st' = "set_tail cid ?t ?st1"
  note ok = restore_tx_ok [OF run assms(6,7)]
  have ph: "page_hashes c ?st' = (if c = cid then map cp_Hash (sn_Prefix snap) else page_hashes c st)" for c
    by (rule restored_hashes) simp
  have "tail_hash cid ?st' = (case sn_Tail snap of None \<Rightarrow> [] | Some p \<Rightarrow> [cp_Hash p])"
    using assms(7) by (auto simp: tail_hash_def set_tail_contexts split: option.split)
  then have "content ?st' cid = content old cid"
    using content_same_hashes [OF assms(2) store_le_trans [OF assms(5) ok(2)], of cid cid] ph sn(3,4) by simp
  moreover have "content ?st' c = content st c" if "c \<noteq> cid" for c
    using content_same_hashes [OF assms(6) ok(2), of c c] ph that by (simp add: tail_hash_def set_tail_contexts)
  ultimately show thesis using that [OF run] by blast
qed

section \<open>Checkpoints, artifacts and creation\<close>

lemma put_blob_ok:
  assumes "putContextBlob data st = Inr (h, st1)" and "store_ok st"
  shows "store_ok st1" and "store_le st st1" and "gget (db_blobs st1) h \<noteq> None"
  using put_blob [OF assms(1)] insert_blob_ok [OF assms(2)] by (simp_all add: insert_blob_blobs)

lemma granted_ok:
  assumes "putContextBlob data st = Inr (h, st1)" and "store_ok st"
  shows "store_ok (insert_grant cid h k st1)" and "store_le st (insert_grant cid h k st1)"
    and "db_operations (insert_grant cid h k st1) = db_operations st" and "content (insert_grant cid h k st1) c = content st c"
    and "db_contexts (insert_grant cid h k st1) = db_contexts st"
proof -
  show "store_ok (insert_grant cid h k st1)" using put_blob_ok [OF assms] by simp
  show le: "store_le st (insert_grant cid h k st1)" using store_le_trans put_blob_ok(2) [OF assms] insert_grant_le by blast
  show "db_operations (insert_grant cid h k st1) = db_operations st" "db_contexts (insert_grant cid h k st1) = db_contexts st"
    using put_blob(2) [OF assms(1)] by simp_all
  show "content (insert_grant cid h k st1) c = content st c"
    using put_blob(2) [OF assms(1)] by (intro content_same [OF assms(2) le]) (simp_all add: page_hashes_def page_rows_def)
qed

lemma checkpoint_tx_ok:
  assumes "checkpoint_tx cid st = Inr (h, st2)" and "store_ok st"
  shows "store_ok st2" and "store_le st st2" and "db_operations st2 = db_operations st" and "content st2 c = content st c"
    and "db_contexts st2 = db_contexts st"
proof -
  obtain data st1 where "putContextBlob data st = Inr (h, st1)" "st2 = insert_grant cid h ''checkpoint'' st1"
    using assms(1) by (auto simp: checkpoint_tx_def split: sum.splits)
  then show "store_ok st2" "store_le st st2" "db_operations st2 = db_operations st" "content st2 c = content st c" "db_contexts st2 = db_contexts st"
    using granted_ok [OF _ assms(2)] by simp_all
qed

lemma artifact_tx_ok:
  assumes "artifact_tx cid data st = Inr (h, st2)" and "store_ok st"
  shows "store_ok st2" and "store_le st st2" and "db_operations st2 = db_operations st" and "content st2 c = content st c"
    and "db_contexts st2 = db_contexts st"
proof -
  obtain st1 where "putContextBlob data st = Inr (h, st1)" "st2 = insert_grant cid h ''artifact'' st1"
    using assms(1) by (auto simp: artifact_tx_def split: sum.splits)
  then show "store_ok st2" "store_le st st2" "db_operations st2 = db_operations st" "content st2 c = content st c" "db_contexts st2 = db_contexts st"
    using granted_ok [OF _ assms(2)] by simp_all
qed

text \<open>Creating a context, with or without a first page.\<close>

lemma Create_Inr:
  assumes "ContextStore_Create st owner pre rnd = (Inr cid, st')"
  obtains (bare) q where "pre = []" "insert_context cid owner (st\<lparr>db_outcomes := q\<rparr>) = Inr st'"
  | (page) q st2 h st3 where "insert_context cid owner (st\<lparr>db_outcomes := q\<rparr>) = Inr st2"
      "putContextBlob pre st2 = Inr (h, st3)" "insert_page cid 0 h st3 = Inr st'"
proof -
  obtain b q where "begin_tx st = (b, st\<lparr>db_outcomes := q\<rparr>)" by (rule begin_tx_cases [of st True]) blast+
  then show thesis using assms bare [of q] page [of q]
    by (auto simp: ContextStore_Create_def split: if_splits sum.splits)
qed

lemma Create_Inl:
  assumes "ContextStore_Create st owner pre rnd = (Inl e, st')"
  shows "\<exists>q. st' = st\<lparr>db_outcomes := q\<rparr>"
proof -
  have "\<exists>q. st = st\<lparr>db_outcomes := q\<rparr>" by (rule exI [of _ "db_outcomes st"]) simp
  moreover obtain b q where "begin_tx st = (b, st\<lparr>db_outcomes := q\<rparr>)" by (rule begin_tx_cases [of st True]) blast+
  ultimately show ?thesis
    using assms by (auto simp: ContextStore_Create_def split: if_splits option.splits sum.splits)
qed

lemma Create_ok:
  assumes "ContextStore_Create st owner pre rnd = (r, st')" and "store_ok st"
  shows "store_ok st' \<and> store_le st st'"
proof (cases r)
  case (Inl e)
  then obtain q where "st' = st\<lparr>db_outcomes := q\<rparr>" using Create_Inl assms(1) by blast
  then show ?thesis using assms(2) by simp
next
  case (Inr cid)
  have o: "store_ok (st\<lparr>db_outcomes := q\<rparr>)" for q using assms(2) by simp
  from assms(1) [unfolded Inr] show ?thesis
  proof (cases rule: Create_Inr)
    case (bare q)
    then show ?thesis using insert_context_Inr(5) [OF bare(2) o] store_le_trans [OF outcomes_frame(2)] by blast
  next
    case (page q st2 h st3)
    note i = insert_context_Inr [OF page(1) o]
    have "store_ok st2" "store_le st st2" using i(5) store_le_trans [OF outcomes_frame(2)] by blast+
    note p = put_blob_ok [OF page(2) this(1)]
    have "gget (db_contexts st3) cid \<noteq> None" using i(2) [of cid] put_blob(2) [OF page(2)] by simp
    note g = insert_page_ok [OF p(1) page(3) p(3) this]
    show ?thesis using g(1) store_le_trans [OF \<open>store_le st st2\<close> store_le_trans [OF p(2) g(2)]] by blast
  qed
qed

end
