(* ===== verification/ContextRuns.thy ===== *)
theory ContextRuns
  imports Contexts
begin

text \<open>
  Sequences of context store operations (\<^verbatim>\<open>runtime/context_store.go\<close>). \<open>cstep\<close> has one rule per
  exported operation of the store, failures included, \<open>csteps\<close> is a sequence of them and \<open>creachable\<close>
  holds of the stores such a sequence makes of the empty one. The specification of the store is \<open>view\<close>: a map
  from context identifiers to owner and bytes.
\<close>

section \<open>Steps\<close>

inductive cstep :: "cstore \<Rightarrow> cstore \<Rightarrow> bool" where
  create: "ContextStore_Create st owner pre rnd = (r, st') \<Longrightarrow> cstep st st'"
| append: "ContextStore_Append st owner cid key data = (r, st') \<Longrightarrow> cstep st st'"
| forkTo: "ContextStore_ForkTo st owner cid childOwner key rnd = (r, st') \<Longrightarrow> cstep st st'"
| checkpoint: "ContextStore_Checkpoint st owner cid key = (r, st') \<Longrightarrow> cstep st st'"
| restore: "ContextStore_Restore st owner cid key cp = (r, st') \<Longrightarrow> cstep st st'"
| artifact: "ContextStore_CommitArtifact st owner cid key data = (r, st') \<Longrightarrow> cstep st st'"
| pages: "ContextStore_Pages st owner cid = (rp, st') \<Longrightarrow> cstep st st'"
| snapshot: "ContextStore_Snapshot st owner cid = (rs, st') \<Longrightarrow> cstep st st'"
| readArtifact: "ContextStore_ReadArtifact st owner cid h = (r, st') \<Longrightarrow> cstep st st'"
| readPage: "ContextStore_ReadPage st owner cid h = (r, st') \<Longrightarrow> cstep st st'"
| stats: "ContextStore_Stats st owner ids = (rt, st') \<Longrightarrow> cstep st st'"
| commits: "ContextStore_Commits st owner cid after limit = (rc, st') \<Longrightarrow> cstep st st'"

inductive csteps :: "cstore \<Rightarrow> cstore \<Rightarrow> bool" where
  stop: "csteps st st"
| more: "csteps st st1 \<Longrightarrow> cstep st1 st2 \<Longrightarrow> csteps st st2"

definition creachable :: "cstore \<Rightarrow> bool" where
  "creachable st \<longleftrightarrow> (\<exists>q. csteps (empty_cstore\<lparr>db_outcomes := q\<rparr>) st)"

lemma snd_begin_tx: "begin_tx st = (b, st1) \<Longrightarrow> \<exists>q. st1 = st\<lparr>db_outcomes := q\<rparr>"
  by (rule begin_tx_cases [of st True]) auto

lemma outcomes_id: "\<exists>q. st = st\<lparr>db_outcomes := q\<rparr>"
  by (rule exI [of _ "db_outcomes st"]) simp

text \<open>Reads change no table.\<close>

lemma reads_frame:
  "ContextStore_Pages st owner cid = (rp, st') \<Longrightarrow> \<exists>q. st' = st\<lparr>db_outcomes := q\<rparr>"
  "ContextStore_Snapshot st owner cid = (rs, st') \<Longrightarrow> \<exists>q. st' = st\<lparr>db_outcomes := q\<rparr>"
  "ContextStore_ReadArtifact st owner cid h = (r, st') \<Longrightarrow> \<exists>q. st' = st\<lparr>db_outcomes := q\<rparr>"
  "ContextStore_ReadPage st owner cid h = (r, st') \<Longrightarrow> \<exists>q. st' = st\<lparr>db_outcomes := q\<rparr>"
  "ContextStore_Stats st owner ids = (rt, st') \<Longrightarrow> \<exists>q. st' = st\<lparr>db_outcomes := q\<rparr>"
  "ContextStore_Commits st owner cid after limit = (rc, st') \<Longrightarrow> \<exists>q. st' = st\<lparr>db_outcomes := q\<rparr>"
  by (auto simp: ContextStore_Pages_def ContextStore_Snapshot_def ContextStore_ReadArtifact_def ContextStore_ReadPage_def
      ContextStore_Stats_def ContextStore_Commits_def
      split: prod.splits if_splits option.splits sum.splits dest: snd_begin_tx intro: outcomes_id)

lemma mutations_ok:
  assumes "store_ok st"
  shows "ContextStore_Append st owner cid key data = (r, st') \<Longrightarrow> store_ok st' \<and> store_le st st'"
    and "ContextStore_ForkTo st owner cid childOwner key rnd = (r, st') \<Longrightarrow> store_ok st' \<and> store_le st st'"
    and "ContextStore_Checkpoint st owner cid key = (r, st') \<Longrightarrow> store_ok st' \<and> store_le st st'"
    and "ContextStore_Restore st owner cid key cp = (r, st') \<Longrightarrow> store_ok st' \<and> store_le st st'"
    and "ContextStore_CommitArtifact st owner cid key data = (r, st') \<Longrightarrow> store_ok st' \<and> store_le st st'"
proof -
  have o: "store_ok (st\<lparr>db_outcomes := q\<rparr>)" for q using assms by simp
  show "ContextStore_Append st owner cid key data = (r, st') \<Longrightarrow> store_ok st' \<and> store_le st st'"
    unfolding ContextStore_Append_def by (rule mutate_ok [OF _ assms]) (use append_tx_ok [OF _ o] in auto)
  show "ContextStore_ForkTo st owner cid childOwner key rnd = (r, st') \<Longrightarrow> store_ok st' \<and> store_le st st'"
    using mutate_ok [OF _ assms] fork_tx_ok [OF _ o] assms by (fastforce simp: ContextStore_ForkTo_def split: if_splits)
  show "ContextStore_Checkpoint st owner cid key = (r, st') \<Longrightarrow> store_ok st' \<and> store_le st st'"
    unfolding ContextStore_Checkpoint_def by (rule mutate_ok [OF _ assms]) (use checkpoint_tx_ok(1-3) [OF _ o] in auto)
  show "ContextStore_Restore st owner cid key cp = (r, st') \<Longrightarrow> store_ok st' \<and> store_le st st'"
    unfolding ContextStore_Restore_def by (rule mutate_ok [OF _ assms]) (use restore_tx_ok [OF _ o] in auto)
  show "ContextStore_CommitArtifact st owner cid key data = (r, st') \<Longrightarrow> store_ok st' \<and> store_le st st'"
    unfolding ContextStore_CommitArtifact_def by (rule mutate_ok [OF _ assms]) (use artifact_tx_ok(1-3) [OF _ o] in auto)
qed

lemma outcomes_kept: "store_ok st \<Longrightarrow> \<exists>q. st' = st\<lparr>db_outcomes := q\<rparr> \<Longrightarrow> store_ok st' \<and> store_le st st'"
  by auto

lemma cstep_ok: "cstep st st' \<Longrightarrow> store_ok st \<Longrightarrow> store_ok st' \<and> store_le st st'"
proof (induction rule: cstep.induct)
  case create
  then show ?case using Create_ok by blast
qed (blast dest: mutations_ok outcomes_kept reads_frame)+

lemma csteps_ok: "csteps st st' \<Longrightarrow> store_ok st \<Longrightarrow> store_ok st' \<and> store_le st st'"
  by (induction rule: csteps.induct) (auto dest: cstep_ok intro: store_le_trans)

lemma creachable_ok: "creachable st \<Longrightarrow> store_ok st"
proof -
  have "store_ok (empty_cstore\<lparr>db_outcomes := q\<rparr>)" for q
    by (simp add: store_ok_def blobs_ok_def pages_ok_def tails_ok_def cursors_ok_def empty_cstore_def)
  then show "creachable st \<Longrightarrow> store_ok st" using csteps_ok unfolding creachable_def by blast
qed

lemma creachable_step: "creachable st \<Longrightarrow> cstep st st' \<Longrightarrow> creachable st'"
  unfolding creachable_def using csteps.more by blast

lemma creachable_empty: "creachable empty_cstore"
proof -
  have "csteps (empty_cstore\<lparr>db_outcomes := []\<rparr>) empty_cstore" using csteps.stop [of empty_cstore] by (simp add: empty_cstore_def)
  then show ?thesis unfolding creachable_def by blast
qed

section \<open>The specification\<close>

definition view :: "cstore \<Rightarrow> string \<rightharpoonup> string \<times> string" where
  "view st c = map_option (\<lambda>row. (c_Owner row, content st c)) (gget (db_contexts st) c)"

definition spec_append :: "string \<Rightarrow> string \<Rightarrow> (string \<rightharpoonup> string \<times> string) \<Rightarrow> (string \<rightharpoonup> string \<times> string)" where
  "spec_append cid data m = (case m cid of None \<Rightarrow> m | Some (owner, bytes) \<Rightarrow> m(cid \<mapsto> (owner, bytes @ data)))"

definition spec_fork :: "string \<Rightarrow> string \<Rightarrow> string \<Rightarrow> (string \<rightharpoonup> string \<times> string) \<Rightarrow> (string \<rightharpoonup> string \<times> string)" where
  "spec_fork parent child owner m = (case m parent of None \<Rightarrow> m | Some (_, bytes) \<Rightarrow> m(child \<mapsto> (owner, bytes)))"

lemma view_outcomes [simp]: "view (st\<lparr>db_outcomes := q\<rparr>) = view st"
  by (rule ext) (simp add: view_def)

lemma view_record [simp]: "view (record_operation cid key kind dg res st) = view st"
  by (rule ext) (simp add: view_def, simp add: record_operation_def)

lemma tail_data_outcomes [simp]: "tail_data (st\<lparr>db_outcomes := q\<rparr>) cid = tail_data st cid"
proof -
  have "page_data (st\<lparr>db_outcomes := q\<rparr>) = page_data st" by (rule ext) (simp add: page_data_def)
  then show ?thesis by (simp add: tail_data_def split: option.split)
qed

lemma append_tx_view:
  assumes "append_tx cid data st = Inr (h, st2)" and "store_ok st" and "gget (db_contexts st) cid \<noteq> None"
    and "no_collision (tail_data st cid @ data) st"
  shows "view st2 = spec_append cid data (view st)"
proof (rule ext)
  fix c
  have "gget (db_contexts st2) c = (if c = cid then map_option (\<lambda>row. row\<lparr>c_Tail := Some h\<rparr>) (gget (db_contexts st) c) else gget (db_contexts st) c)"
    unfolding append_tx_Inr(2) [OF assms(1-3)] by (simp add: set_tail_contexts)
  then show "view st2 c = spec_append cid data (view st) c"
    using append_tx_content [OF assms, of c] assms(3) by (auto simp: view_def spec_append_def)
qed

lemma fork_tx_owners:
  assumes "fork_tx parent owner rnd st = Inr (child, st')" and "store_ok st" and "gget (db_contexts st) parent \<noteq> None"
  shows "map_option c_Owner (gget (db_contexts st') c) = (if c = child then Some owner else map_option c_Owner (gget (db_contexts st) c))"
proof -
  from assms(1) obtain st1 st2 where f: "insert_context child owner st = Inr st1" "seal_tail parent st1 = Inr st2"
    "copy_pages child (page_rows parent (set_tail parent None st2)) (set_tail parent None st2) = Inr st'"
    by (rule fork_tx_Inr)
  have "db_contexts st' = db_contexts (set_tail parent None st2)" "db_contexts st2 = db_contexts st1"
    using copy_pages_Inr [OF f(3)] seal_tail_frame [OF f(2)] by simp_all
  then have "map_option c_Owner (gget (db_contexts st') c) = map_option c_Owner (gget (db_contexts st1) c)"
    by (simp add: set_tail_contexts option.map_comp comp_def)
  then show ?thesis using insert_context_Inr(2) [OF f(1) assms(2), of c] by simp
qed

lemma restore_tx_owners:
  assumes "restore_tx cid cp st = Inr (res, st')"
  shows "map_option c_Owner (gget (db_contexts st') c) = map_option c_Owner (gget (db_contexts st) c)"
proof -
  have "restore_pages cid i ps s = Inr s' \<Longrightarrow> db_contexts s' = db_contexts s" for i ps s s'
    by (induction ps arbitrary: i s) (auto split: option.splits sum.splits dest!: insert_page_frame)
  then show ?thesis using restore_tx_Inr [OF assms] by (fastforce simp: set_tail_contexts option.map_comp comp_def)
qed

lemma snapshot_outcomes: "snapshotContext (st\<lparr>db_outcomes := q\<rparr>) cid = snapshotContext st cid"
proof -
  have b: "blob_page (st\<lparr>db_outcomes := q\<rparr>) = blob_page st" by (rule ext) (simp add: blob_page_def contextBlob_def)
  then have bs: "blob_pages (st\<lparr>db_outcomes := q\<rparr>) hs = blob_pages st hs" for hs by (induction hs) (simp_all add: b split: sum.split)
  have g: "get_tail cid (st\<lparr>db_outcomes := q\<rparr>) = get_tail cid st" "page_hashes cid (st\<lparr>db_outcomes := q\<rparr>) = page_hashes cid st"
    by (simp_all add: get_tail_def page_hashes_def page_rows_def)
  show ?thesis unfolding snapshotContext_def b bs g ..
qed

lemma fork_tx_view:
  assumes "fork_tx parent owner rnd st = Inr (child, st2)" and "store_ok st" and "gget (db_contexts st) parent \<noteq> None"
  shows "view st2 = spec_fork parent child owner (view st)" and "view st child = None"
proof -
  note f = fork_tx_content [OF assms]
  show "view st child = None" using f(1) by (simp add: view_def)
  have "view st2 c = (if c = child then Some (owner, content st parent) else view st c)" for c
    using f(2,3) fork_tx_owners [OF assms, of c] by (cases "gget (db_contexts st2) c"; cases "gget (db_contexts st) c") (auto simp: view_def split: if_splits)
  then show "view st2 = spec_fork parent child owner (view st)" using assms(3) by (auto simp: view_def spec_fork_def)
qed

lemma same_view: "(\<And>c. content st2 c = content st c) \<Longrightarrow> db_contexts st2 = db_contexts st \<Longrightarrow> view st2 = view st"
  by (rule ext) (simp add: view_def)

lemma mutate_view:
  assumes "mutate st owner cid key kind input fn = (r, st')"
    and "\<And>q res st2. fn (st\<lparr>db_outcomes := q\<rparr>) = Inr (res, st2) \<Longrightarrow> gget (db_contexts st) cid \<noteq> None \<Longrightarrow> view st2 = F res (view st)"
  shows "view st' = (case r of Inl _ \<Rightarrow> view st | Inr res \<Rightarrow> if map_of (db_operations st) (cid, key) = None then F res (view st) else view st)"
proof (cases r)
  case (Inl e)
  then obtain q where "st' = st\<lparr>db_outcomes := q\<rparr>" using mutate_Inl assms(1) by blast
  then show ?thesis using Inl by simp
next
  case (Inr res)
  from assms(1) [unfolded Inr] show ?thesis
  proof (cases rule: mutate_Inr)
    case (replay q)
    then show ?thesis using Inr by simp
  next
    case (fresh q st2)
    have "gget (db_contexts st) cid \<noteq> None" using authorized [OF fresh(4)] by auto
    then show ?thesis using Inr assms(2) [OF fresh(1)] fresh(2,3) by simp
  qed
qed

text \<open>C8. Appending refines its specification. In a store made by any sequence of operations, a first
  append with an idempotency key extends the bytes of that context and changes no other; a repeated key
  and a failed append change nothing.\<close>

theorem append_refines:
  assumes "creachable st" and "no_collision (tail_data st cid @ data) st"
    and "ContextStore_Append st owner cid key data = (r, st')"
  shows "view st' = (case r of Inl _ \<Rightarrow> view st
    | Inr _ \<Rightarrow> if map_of (db_operations st) (cid, key) = None then spec_append cid data (view st) else view st)"
proof -
  have ok: "store_ok (st\<lparr>db_outcomes := q\<rparr>)" for q using creachable_ok [OF assms(1)] by simp
  have "view st2 = spec_append cid data (view st)"
    if "append_tx cid data (st\<lparr>db_outcomes := q\<rparr>) = Inr (res, st2)" "gget (db_contexts st) cid \<noteq> None" for q res st2
    using append_tx_view [OF that(1) ok] that(2) assms(2) by simp
  then show ?thesis by (rule mutate_view [OF assms(3) [unfolded ContextStore_Append_def]])
qed

text \<open>C10. Forking refines its specification: the child is a new context of the given owner with the parent's
  bytes, and no other context changes, the parent included (whose mutable tail becomes a sealed page).\<close>

theorem fork_refines:
  assumes "creachable st" and "ContextStore_ForkTo st owner parent childOwner key rnd = (Inr child, st')"
    and "map_of (db_operations st) (parent, key) = None"
  shows "view st' = spec_fork parent child childOwner (view st) \<and> view st child = None"
proof -
  have m: "mutate st owner parent key ''fork'' [] (fork_tx parent childOwner rnd) = (Inr child, st')"
    using assms(2) by (simp add: ContextStore_ForkTo_def split: if_splits)
  have ok: "store_ok (st\<lparr>db_outcomes := q\<rparr>)" for q using creachable_ok [OF assms(1)] by simp
  from m show ?thesis
  proof (cases rule: mutate_Inr)
    case (fresh q st2)
    have "gget (db_contexts (st\<lparr>db_outcomes := q\<rparr>)) parent \<noteq> None" using authorized [OF fresh(4)] by auto
    from fork_tx_view [OF fresh(1) ok this] show ?thesis using fresh(3) by simp
  qed (simp add: assms(3))
qed

section \<open>Checkpoint and restore\<close>

lemma authorize_outcomes [simp]: "authorizeContext (st\<lparr>db_outcomes := q\<rparr>) owner cid = authorizeContext st owner cid"
  by (simp add: authorizeContext_def)

lemma authorize_record [simp]: "authorizeContext (record_operation c key kind dg res st) owner cid = authorizeContext st owner cid"
  by (simp add: authorizeContext_def record_operation_def)

lemma begin_tx_ready: "db_outcomes st = [] \<Longrightarrow> begin_tx st = (True, st)"
  by (simp add: begin_tx_def)

lemma mutate_run:
  assumes "db_outcomes st = []" and "key \<noteq> []" and "length key \<le> 1024" and "authorizeContext st owner cid = None"
    and "map_of (db_operations st) (cid, key) = None" and "fn st = Inr (res, st2)"
  shows "mutate st owner cid key kind input fn = (Inr res, record_operation cid key kind (op_digest kind input) res st2)"
  using assms by (simp add: mutate_def begin_tx_ready)

lemma authorize_le:
  assumes "store_le st st'" and "authorizeContext st owner cid = None"
  shows "authorizeContext st' owner cid = None"
proof -
  obtain row where r: "gget (db_contexts st) cid = Some row" "c_Owner row = owner" using authorized [OF assms(2)] by blast
  then obtain row' where "gget (db_contexts st') cid = Some row'" "c_Owner row' = owner"
    using assms(1) unfolding store_le_def by metis
  then show ?thesis using assms(2) by (simp add: authorizeContext_def split: if_splits)
qed

text \<open>C9. A checkpoint can be restored after any later operations: the context has again the bytes it had at
  the checkpoint, and every other context keeps the bytes it has now.\<close>

theorem checkpoint_restore:
  assumes "creachable st" and "ContextStore_Checkpoint st owner cid key = (Inr h, st1)"
    and "map_of (db_operations st) (cid, key) = None" and "sizes_ok st" and "utf8_ok cid"
    and "\<And>snap. snapshotContext st cid = Inr snap \<Longrightarrow> no_collision (snapshot_json snap) st"
    and "csteps st1 st2" and "db_outcomes st2 = []"
    and "key2 \<noteq> []" and "length key2 \<le> 1024" and "map_of (db_operations st2) (cid, key2) = None"
  shows "\<exists>st3. ContextStore_Restore st2 owner cid key2 h = (Inr h, st3) \<and> view st3 = (view st2)(cid \<mapsto> (owner, content st cid))"
proof -
  from assms(2) [unfolded ContextStore_Checkpoint_def] obtain q stc where
    c: "checkpoint_tx cid (st\<lparr>db_outcomes := q\<rparr>) = Inr (h, stc)" "st1 = record_operation cid key ''checkpoint'' (op_digest ''checkpoint'' []) h stc"
      "authorizeContext st owner cid = None"
    by (cases rule: mutate_Inr) (simp_all add: assms(3))
  let ?st = "st\<lparr>db_outcomes := q\<rparr>"
  have ok: "store_ok ?st" "sizes_ok ?st" using creachable_ok [OF assms(1)] assms(4) by (simp_all add: sizes_ok_def)
  from c(1) obtain snap where s: "snapshotContext ?st cid = Inr snap" "h = contextHash (snapshot_json snap)"
    "stc = insert_grant cid h ''checkpoint'' (insert_blob h (snapshot_json snap) ?st)" by (rule checkpoint_tx_Inr)
  have "snapshotContext st cid = Inr snap" using s(1) snapshot_outcomes by simp
  then have nc: "no_collision (snapshot_json snap) ?st" using assms(6) by simp
  note k = checkpoint_tx_ok [OF c(1) ok(1)]
  have "store_ok st1" "store_le stc st1" unfolding c(2) using k assms(3) by (simp_all add: record_operation_ok record_operation_le)
  then have le: "store_ok st2" "store_le stc st2" using csteps_ok [OF assms(7)] store_le_trans by blast+
  have auth: "authorizeContext st2 owner cid = None"
    using authorize_le [OF store_le_trans [OF k(2) le(2)]] c(3) by simp
  then obtain row where row: "gget (db_contexts st2) cid = Some row" "c_Owner row = owner" using authorized by blast
  have "gget (db_blobs stc) h = Some (snapshot_json snap)" using s(2,3) insert_blob_data [OF nc] by simp
  then have "gget (db_blobs st2) h = Some (snapshot_json snap)" using le(2) by (simp add: store_le_def)
  moreover have "(cid, h, ''checkpoint'') \<in> set (db_grants st2)" using le(2) s(3) by (auto simp: store_le_def)
  ultimately obtain st' where r: "restore_tx cid h st2 = Inr (h, st')" "content st' cid = content ?st cid" "\<And>c. c \<noteq> cid \<Longrightarrow> content st' c = content st2 c"
    using restore_tx_content [OF s(1) ok assms(5) store_le_trans [OF k(2) le(2)] le(1)] row(1) by auto
  have "view st' = (view st2)(cid \<mapsto> (owner, content st cid))"
  proof (rule ext)
    fix c
    show "view st' c = ((view st2)(cid \<mapsto> (owner, content st cid))) c"
      using r(2,3) restore_tx_owners [OF r(1), of c] row by (cases "gget (db_contexts st') c"; cases "gget (db_contexts st2) c") (auto simp: view_def)
  qed
  then show ?thesis
    using mutate_run [where fn = "restore_tx cid h", OF assms(8-10) auth assms(11) r(1), of "''restore''" h] by (simp add: ContextStore_Restore_def)
qed

section \<open>Retries, reads and the commit log\<close>

lemma mutate_recorded:
  assumes "mutate st owner cid key kind input fn = (Inr res, st1)" and "store_ok st"
    and "\<And>q st2. fn (st\<lparr>db_outcomes := q\<rparr>) = Inr (res, st2) \<Longrightarrow> gget (db_contexts st) cid \<noteq> None \<Longrightarrow> store_le (st\<lparr>db_outcomes := q\<rparr>) st2"
  shows "map_of (db_operations st1) (cid, key) = Some (op_digest kind input, res)" and "authorizeContext st1 owner cid = None"
    and "key \<noteq> [] \<and> length key \<le> 1024"
proof -
  show "key \<noteq> [] \<and> length key \<le> 1024" using assms(1) by (simp add: mutate_def split: if_splits)
  from assms(1) have "map_of (db_operations st1) (cid, key) = Some (op_digest kind input, res) \<and> authorizeContext st1 owner cid = None"
  proof (cases rule: mutate_Inr)
    case (replay q)
    then show ?thesis by simp
  next
    case (fresh q st2)
    have "gget (db_contexts st) cid \<noteq> None" using authorized [OF fresh(4)] by auto
    note le = assms(3) [OF fresh(1) this]
    have "authorizeContext (st\<lparr>db_outcomes := q\<rparr>) owner cid = None" using fresh(4) by simp
    from authorize_le [OF le this] show ?thesis unfolding fresh(3) authorize_record by (simp add: record_operation_def)
  qed
  then show "map_of (db_operations st1) (cid, key) = Some (op_digest kind input, res)" "authorizeContext st1 owner cid = None" by simp_all
qed

lemma mutate_replay:
  assumes "map_of (db_operations st1) (cid, key) = Some (dg, res)" and "authorizeContext st1 owner cid = None"
    and "key \<noteq> [] \<and> length key \<le> 1024" and "store_le st1 st2" and "db_outcomes st2 = []"
  shows "mutate st2 owner cid key kind input fn = (if op_digest kind input = dg then Inr res else Inl ErrContextIdempotency, st2)"
proof -
  have "map_of (db_operations st2) (cid, key) = Some (dg, res)" using assms(1,4) by (simp add: store_le_def)
  then show ?thesis using assms(3,5) authorize_le [OF assms(4,2)] by (simp add: mutate_def begin_tx_ready)
qed

text \<open>C33. Appends are idempotent. Once an append was answered, the same request sent again after any
  later operations gives the same answer and changes nothing, and the key with data of another digest is refused.\<close>

theorem append_retry:
  assumes "creachable st" and "ContextStore_Append st owner cid key data = (Inr h, st1)"
    and "csteps st1 st2" and "db_outcomes st2 = []"
  shows "ContextStore_Append st2 owner cid key data' =
    (if op_digest ''append'' data' = op_digest ''append'' data then Inr h else Inl ErrContextIdempotency, st2)"
proof -
  have ok: "store_ok (st\<lparr>db_outcomes := q\<rparr>)" for q using creachable_ok [OF assms(1)] by simp
  have "store_le (st\<lparr>db_outcomes := q\<rparr>) st2" if "append_tx cid data (st\<lparr>db_outcomes := q\<rparr>) = Inr (h, st2)" "gget (db_contexts st) cid \<noteq> None" for q st2
    using append_tx_ok(2) [OF that(1) ok] that(2) by simp
  note m = mutate_recorded [OF assms(2) [unfolded ContextStore_Append_def] creachable_ok [OF assms(1)] this]
  have "store_ok st1" using mutations_ok(1) [OF creachable_ok [OF assms(1)] assms(2)] by simp
  then have "store_le st1 st2" using csteps_ok [OF assms(3)] by blast
  from mutate_replay [OF m this assms(4)] show ?thesis unfolding ContextStore_Append_def by simp
qed

text \<open>C34. No page dangles. In a store made by any sequence of operations, the owner of a context can read
  every page and the tail that the context lists, and what is read has the hash it was asked by.\<close>

theorem pages_readable:
  assumes "creachable st" and "db_outcomes st = []" and "ContextStore_Pages st owner cid = (Inr (hs, tail), st')"
    and "h \<in> set hs \<or> (h = tail \<and> tail \<noteq> [])"
  shows "\<exists>d. ContextStore_ReadPage st owner cid h = (Inr d, st) \<and> contextHash d = h"
proof -
  note ok = creachable_ok [OF assms(1)]
  have p: "authorizeContext st owner cid = None" "hs = page_hashes cid st"
    "\<exists>row. gget (db_contexts st) cid = Some row \<and> tail = (case c_Tail row of None \<Rightarrow> [] | Some h \<Rightarrow> h)"
    using assms(2,3) by (auto simp: ContextStore_Pages_def begin_tx_ready get_tail_def split: option.splits sum.splits)
  then obtain row where row: "gget (db_contexts st) cid = Some row" "tail = (case c_Tail row of None \<Rightarrow> [] | Some h \<Rightarrow> h)" by blast
  have m: "h \<in> set (page_hashes cid st) \<or> c_Tail row = Some h" using assms(4) p(2) row(2) by (auto split: option.splits)
  then have "gget (db_blobs st) h \<noteq> None"
    using page_hash_stored [OF ok] tail_hash_stored [OF ok, of h cid] row(1) by (auto simp: tail_hash_def)
  then obtain d where d: "gget (db_blobs st) h = Some d" by auto
  then have "contextBlob st h = Inr d" "contextHash d = h" using ok contextBlob_ok by (auto simp: store_ok_def blobs_ok_def)
  then show ?thesis using m row(1) p(1) by (auto simp: ContextStore_ReadPage_def begin_tx_ready assms(2))
qed

lemma take_complete:
  fixes f :: "'a \<Rightarrow> int"
  assumes "sorted_wrt (<) (map f xs)" and "0 < n" and "x \<in> set xs" and "length (take n xs) < n \<or> f x \<le> f (last (take n xs))"
  shows "x \<in> set (take n xs)"
proof (rule ccontr)
  assume no: "x \<notin> set (take n xs)"
  have "xs = take n xs @ drop n xs" by simp
  then have d: "x \<in> set (drop n xs)" using assms(3) no by (metis Un_iff set_append)
  then have "n < length xs" by (metis drop_eq_Nil empty_iff empty_set leI)
  then have "last (take n xs) \<in> set (take n xs)" "\<not> length (take n xs) < n" using assms(2) by (auto intro: last_in_set)
  moreover have "\<forall>a \<in> set (take n xs). \<forall>b \<in> set (drop n xs). f a < f b"
    using assms(1) sorted_wrt_append [of "\<lambda>a b. f a < f b" "take n xs" "drop n xs"] by (simp add: sorted_wrt_map)
  ultimately show False using d assms(4) by fastforce
qed

text \<open>C35. The commit log can be followed by cursor. A read of the log returns commits of that context only,
  with strictly increasing cursors after the given one, and skips none: every commit of the context up to the last
  one returned is in the answer, and an answer shorter than the limit is everything there is.\<close>

theorem commits_in_order:
  assumes "creachable st" and "ContextStore_Commits st owner cid after limit = (Inr cs, st')"
  shows "sorted_wrt (<) (map lc_Cursor cs) \<and> (\<forall>c \<in> set cs. after < lc_Cursor c \<and> lc_ContextID c = cid)
    \<and> (\<forall>c \<in> set (db_commits st). lc_ContextID c = cid \<longrightarrow> after < lc_Cursor c \<longrightarrow>
         (length cs < nat limit \<or> lc_Cursor c \<le> lc_Cursor (last cs)) \<longrightarrow> c \<in> set cs)"
proof -
  let ?all = "filter (\<lambda>c. lc_ContextID c = cid \<and> lc_Cursor c > after) (db_commits st)"
  have sorted: "sorted_wrt (<) (map lc_Cursor (db_commits st))" using creachable_ok [OF assms(1)] by (simp add: store_ok_def cursors_ok_def)
  then have s: "sorted_wrt (<) (map lc_Cursor ?all)" by (simp add: sorted_wrt_map sorted_wrt_filter)
  then have "sort_key lc_Cursor ?all = ?all" by (intro sort_key_id_if_sorted strict_sorted_imp_sorted)
  then have cs: "cs = take (nat limit) ?all" and pos: "0 < nat limit"
    using assms(2) snd_begin_tx [of st] by (auto simp: ContextStore_Commits_def split: if_splits prod.splits option.splits)
  show ?thesis
  proof (intro conjI ballI impI)
    show "sorted_wrt (<) (map lc_Cursor cs)" unfolding cs using s by (simp add: take_map [symmetric] sorted_wrt_take)
    show "after < lc_Cursor c" "lc_ContextID c = cid" if "c \<in> set cs" for c using that unfolding cs by (auto dest: in_set_takeD)
    fix c assume c: "c \<in> set (db_commits st)" "lc_ContextID c = cid" "after < lc_Cursor c" "length cs < nat limit \<or> lc_Cursor c \<le> lc_Cursor (last cs)"
    then have "c \<in> set ?all" by simp
    then show "c \<in> set cs" unfolding cs using take_complete [OF s pos] c(4) [unfolded cs] by blast
  qed
qed

lemma denied:
  assumes "gget (db_contexts st) cid = Some row" and "c_Owner row \<noteq> owner"
  shows "authorizeContext (st\<lparr>db_outcomes := q\<rparr>) owner cid = Some ErrContextAccess"
  using assms by (simp add: authorizeContext_def)

lemma mutate_denied:
  assumes "gget (db_contexts st) cid = Some row" and "c_Owner row \<noteq> owner"
  shows "isl (fst (mutate st owner cid key kind input fn))"
proof -
  obtain b q where b: "begin_tx st = (b, st\<lparr>db_outcomes := q\<rparr>)" by (rule begin_tx_cases [of st True]) blast+
  show ?thesis using denied [OF assms, of q] by (simp add: mutate_def b)
qed


section \<open>A sample store\<close>

definition store0 :: cstore where
  "store0 = snd (ContextStore_Create empty_cstore ''ann'' [] (Some ''a''))"

definition store1 :: cstore where
  "store1 = snd (ContextStore_Append store0 ''ann'' ''61'' ''k'' ''hi'')"

definition store2 :: cstore where
  "store2 = snd (ContextStore_Checkpoint store0 ''ann'' ''61'' ''c'')"

definition store3 :: cstore where
  "store3 = snd (ContextStore_Append store2 ''ann'' ''61'' ''k'' ''hi'')"

definition snap0 :: contextsnapshot where
  "snap0 = \<lparr>sn_ContextID = ''61'', sn_Prefix = [], sn_Tail = None\<rparr>"

lemma store0_Create: "ContextStore_Create empty_cstore ''ann'' [] (Some ''a'') = (Inr ''61'', store0)"
  unfolding store0_def by code_simp

lemma store0_eq: "store0 = empty_cstore\<lparr>db_contexts := [(''61'', \<lparr>c_Owner = ''ann'', c_Tail = None\<rparr>)]\<rparr>"
  by code_simp

lemma store0_reachable: "creachable store0"
  using creachable_step [OF creachable_empty cstep.create [OF store0_Create]] .

lemmas store_eval = mutate_def begin_tx_def authorizeContext_def append_tx_def get_tail_def putContextBlob_def Let_def
  contextBlob_def insert_blob_def set_tail_def record_operation_def empty_cstore_def

lemma store1_Append: "ContextStore_Append store0 ''ann'' ''61'' ''k'' ''hi'' = (Inr (contextHash ''hi''), store1)"
  by (simp add: store1_def ContextStore_Append_def store0_eq store_eval)

lemma store1_eq:
  "db_contexts store1 = [(''61'', \<lparr>c_Owner = ''ann'', c_Tail = Some (contextHash ''hi'')\<rparr>)]" "db_outcomes store1 = []" "db_pages store1 = []"
  "db_operations store1 = [((''61'', ''k''), (op_digest ''append'' ''hi'', contextHash ''hi''))]"
  "db_commits store1 = [\<lparr>lc_Cursor = 1, lc_ContextID = ''61'', lc_Kind = ''append'', lc_Handle = contextHash ''hi'', lc_IdempotencyKey = ''k''\<rparr>]"
  by (simp_all add: store1_def ContextStore_Append_def store0_eq store_eval)

lemma store1_reachable: "creachable store1"
  using creachable_step [OF store0_reachable cstep.append [OF store1_Append]] .

lemma store0_view: "view store0 = [''61'' \<mapsto> (''ann'', [])]" "tail_data store0 ''61'' = []" "content store0 ''61'' = []"
  by (auto simp: view_def store0_eq empty_cstore_def content_def page_hashes_def page_rows_def tail_data_def)

lemma store0_collision: "no_collision d store0"
  by (simp add: no_collision_def store0_eq empty_cstore_def)

theorem append_refines_witness: "view store1 = [''61'' \<mapsto> (''ann'', ''hi'')]"
  using append_refines [OF store0_reachable store0_collision store1_Append]
  by (simp add: store0_view spec_append_def) (simp add: store0_eq empty_cstore_def)

lemma store1_fork: "\<exists>st'. ContextStore_ForkTo store1 ''ann'' ''61'' ''bob'' ''f'' (Some ''b'') = (Inr ''62'', st')"
proof -
  have "newContextID (Some ''b'') = Inr ''62''" "all_space ''bob'' = False" by code_simp+
  then show ?thesis
    by (simp add: ContextStore_ForkTo_def fork_tx_def mutate_def begin_tx_def authorizeContext_def store1_eq insert_context_def
        seal_tail_def insert_page_def Let_def set_tail_def page_rows_def)
qed

theorem fork_refines_witness:
  "\<exists>st'. ContextStore_ForkTo store1 ''ann'' ''61'' ''bob'' ''f'' (Some ''b'') = (Inr ''62'', st') \<and> view st' ''62'' = Some (''bob'', content store1 ''61'')"
proof -
  obtain st' where f: "ContextStore_ForkTo store1 ''ann'' ''61'' ''bob'' ''f'' (Some ''b'') = (Inr ''62'', st')" using store1_fork by blast
  have "map_of (db_operations store1) (''61'', ''f'') = None" by (simp add: store1_eq)
  moreover have "view store1 ''61'' = Some (''ann'', content store1 ''61'')" by (simp add: view_def store1_eq)
  ultimately show ?thesis using fork_refines [OF store1_reachable f] f by (simp add: spec_fork_def)
qed

lemma store0_snapshot: "snapshotContext store0 ''61'' = Inr snap0"
  by (simp add: snapshotContext_def store0_eq empty_cstore_def page_hashes_def page_rows_def get_tail_def snap0_def)

lemma store0_checkpoint: "checkpoint_tx ''61'' store0 = Inr (contextHash (snapshot_json snap0),
    insert_grant ''61'' (contextHash (snapshot_json snap0)) ''checkpoint'' (insert_blob (contextHash (snapshot_json snap0)) (snapshot_json snap0) store0))"
  using insert_blob_data [OF store0_collision, of "snapshot_json snap0"]
  by (simp add: checkpoint_tx_def store0_snapshot putContextBlob_def Let_def contextBlob_def)

lemma store0_ready: "db_outcomes store0 = []" "authorizeContext store0 ''ann'' ''61'' = None" "db_operations store0 = []" "db_blobs store0 = []"
  "db_contexts store0 = [(''61'', \<lparr>c_Owner = ''ann'', c_Tail = None\<rparr>)]"
  by (simp_all add: store0_eq empty_cstore_def authorizeContext_def)

lemma store2_Checkpoint: "ContextStore_Checkpoint store0 ''ann'' ''61'' ''c'' = (Inr (contextHash (snapshot_json snap0)), store2)"
  by (simp add: store2_def ContextStore_Checkpoint_def mutate_def begin_tx_ready store0_ready store0_checkpoint)

lemma store2_eq:
  "db_contexts store2 = [(''61'', \<lparr>c_Owner = ''ann'', c_Tail = None\<rparr>)]" "db_outcomes store2 = []"
  "db_operations store2 = [((''61'', ''c''), (op_digest ''checkpoint'' [], contextHash (snapshot_json snap0)))]"
  "db_blobs store2 = [(contextHash (snapshot_json snap0), snapshot_json snap0)]"
  by (simp_all add: store2_def ContextStore_Checkpoint_def mutate_def begin_tx_ready store0_ready store0_checkpoint record_operation_def
      insert_grant_def insert_blob_def)

lemma store3_Append: "ContextStore_Append store2 ''ann'' ''61'' ''k'' ''hi'' = (Inr (contextHash ''hi''), store3)"
  by (simp add: store3_def ContextStore_Append_def mutate_def begin_tx_def authorizeContext_def append_tx_def get_tail_def store2_eq
      putContextBlob_def Let_def contextBlob_def insert_blob_blobs split: if_splits)

lemma store3_eq: "db_outcomes store3 = []" "map_of (db_operations store3) (''61'', ''r'') = None"
  by (simp_all add: store3_def ContextStore_Append_def mutate_def begin_tx_def authorizeContext_def append_tx_def get_tail_def store2_eq
      putContextBlob_def Let_def contextBlob_def insert_blob_def set_tail_def record_operation_def)

lemma store3_steps: "csteps store2 store3"
  using csteps.more [OF csteps.stop cstep.append [OF store3_Append]] .

theorem checkpoint_restore_witness:
  "\<exists>st. ContextStore_Restore store3 ''ann'' ''61'' ''r'' (contextHash (snapshot_json snap0)) = (Inr (contextHash (snapshot_json snap0)), st)
     \<and> view st ''61'' = Some (''ann'', [])"
proof -
  have o: "map_of (db_operations store0) (''61'', ''c'') = None" "sizes_ok store0" "utf8_ok ''61''"
    by (simp_all add: store0_eq empty_cstore_def sizes_ok_def) code_simp
  from checkpoint_restore [OF store0_reachable store2_Checkpoint o store0_collision store3_steps store3_eq(1) _ _ store3_eq(2)]
  show ?thesis by (auto simp: store0_view)
qed

theorem append_retry_witness: "ContextStore_Append store1 ''ann'' ''61'' ''k'' ''hi'' = (Inr (contextHash ''hi''), store1)"
  using append_retry [OF store0_reachable store1_Append csteps.stop store1_eq(2), of "''hi''"] by simp

theorem pages_readable_witness: "\<exists>d. ContextStore_ReadPage store1 ''ann'' ''61'' (contextHash ''hi'') = (Inr d, store1) \<and> contextHash d = contextHash ''hi''"
proof -
  have "ContextStore_Pages store1 ''ann'' ''61'' = (Inr ([], contextHash ''hi''), store1)"
    by (simp add: ContextStore_Pages_def begin_tx_def authorizeContext_def get_tail_def page_hashes_def page_rows_def store1_eq)
  from pages_readable [OF store1_reachable store1_eq(2) this] show ?thesis by (simp add: contextHash_def)
qed

theorem commits_in_order_witness: "\<exists>cs. ContextStore_Commits store1 ''ann'' ''61'' 0 10 = (Inr cs, store1) \<and> cs \<noteq> [] \<and> sorted_wrt (<) (map lc_Cursor cs)"
proof -
  have "ContextStore_Commits store1 ''ann'' ''61'' 0 10 = (Inr (db_commits store1), store1)"
    by (simp add: ContextStore_Commits_def begin_tx_def authorizeContext_def store1_eq)
  with commits_in_order [OF store1_reachable this] show ?thesis by (simp add: store1_eq)
qed


end
