(* ===== verification/Policy.thy ===== *)
theory Policy
  imports GoPath SHA256
begin

text \<open>
  Capability tokens, the Cedar-style policy and the revocation test (\<^verbatim>\<open>runtime/policy.go\<close>,
  \<^verbatim>\<open>runtime/revocation.go\<close>) and the manifest the policy is compiled from
  (\<^verbatim>\<open>cedarPolicyFromCapabilitySet\<close>, \<^verbatim>\<open>LoadCapabilitySet\<close>, \<^verbatim>\<open>allowedPath\<close> of
  \<^verbatim>\<open>runtime/supervisor.go\<close>).

  Ed25519 is a parameter: \<open>sign\<close> and \<open>verify\<close> stand for \<^verbatim>\<open>ed25519.Sign\<close> and
  \<^verbatim>\<open>ed25519.Verify\<close>; the public half of a private key is its last 32 bytes, as in
  \<^verbatim>\<open>PrivateKey.Public\<close>. Empty slices marshal as \<^verbatim>\<open>null\<close>: the runtime builds them as nil.
\<close>

section \<open>Tokens\<close>

record capabilitygrant =
  g_Object :: string
  g_Action :: string

record capabilitytoken =
  t_Issuer :: string
  t_Subject :: string
  t_ExpiresAt :: int
  t_PublicKey :: string
  t_Grants :: "capabilitygrant list"
  t_Caveats :: "string list"
  t_Signature :: string

type_synonym edsign = "string \<Rightarrow> string \<Rightarrow> string"
type_synonym edverify = "string \<Rightarrow> string \<Rightarrow> string \<Rightarrow> bool"

definition b64char :: "nat \<Rightarrow> char" where
  "b64char n =
     (if n < 26 then char_of (65 + n) else if n < 52 then char_of (71 + n)
      else if n < 62 then char_of (n - 4) else if n = 62 then CHR ''+'' else CHR ''/'')"

text \<open>Standard base64, as a \<^verbatim>\<open>[]byte\<close> marshals.\<close>

fun b64 :: "string \<Rightarrow> string" where
  "b64 [] = []"
| "b64 [a] = [b64char (code a div 4), b64char (code a mod 4 * 16)] @ ''==''"
| "b64 [a, b] = [b64char (code a div 4), b64char (code a mod 4 * 16 + code b div 16),
                 b64char (code b mod 16 * 4)] @ ''=''"
| "b64 (a # b # c # cs) =
     [b64char (code a div 4), b64char (code a mod 4 * 16 + code b div 16),
      b64char (code b mod 16 * 4 + code c div 64), b64char (code c mod 64)] @ b64 cs"

definition jbytes :: "string \<Rightarrow> string" where
  "jbytes bs = QUOTE # b64 bs @ [QUOTE]"

definition grant_json :: "capabilitygrant \<Rightarrow> string" where
  "grant_json g = jobject [(''object'', quote (g_Object g)), (''action'', quote (g_Action g))]"

text \<open>The signed bytes: the token as JSON without its signature.\<close>

definition tokenBytes :: "capabilitytoken \<Rightarrow> string" where
  "tokenBytes t = jobject
     ([(''issuer'', quote (t_Issuer t)), (''subject'', quote (t_Subject t)),
       (''expires_at'', dec_int (t_ExpiresAt t)), (''public_key'', jbytes (t_PublicKey t)),
       (''grants'', if t_Grants t = [] then ''null'' else jarray (map grant_json (t_Grants t)))]
      @ (if t_Caveats t = [] then [] else [(''caveats'', jarray (map quote (t_Caveats t)))])
      @ [(''signature'', ''null'')])"

definition cloneGrants :: "capabilitygrant list \<Rightarrow> capabilitygrant list" where
  "cloneGrants gs = gs"

definition bytesEqual :: "string \<Rightarrow> string \<Rightarrow> bool" where
  "bytesEqual a b \<longleftrightarrow> sha256hex a = sha256hex b"

definition publicOf :: "string \<Rightarrow> string" where
  "publicOf priv = drop 32 priv"

definition signToken :: "edsign \<Rightarrow> capabilitytoken \<Rightarrow> string \<Rightarrow> capabilitytoken" where
  "signToken sign t priv = t\<lparr>t_Signature := sign priv (tokenBytes t)\<rparr>"

text \<open>The zero \<^verbatim>\<open>time.Time\<close> in Unix seconds.\<close>

definition zeroTime :: int where
  "zeroTime = - 62135596800"

definition MintCapabilityToken ::
  "edsign \<Rightarrow> string \<Rightarrow> string \<Rightarrow> string \<Rightarrow> int \<Rightarrow> capabilitygrant list \<Rightarrow> capabilitytoken result" where
  "MintCapabilityToken sign priv issuer subject expiresAt grants =
     (if length priv \<noteq> 64 \<or> issuer = [] \<or> subject = [] \<or> expiresAt = zeroTime \<or> grants = []
      then Inl (ErrMsg ''invalid capability token claims'')
      else Inr (signToken sign
        \<lparr>t_Issuer = issuer, t_Subject = subject, t_ExpiresAt = expiresAt,
         t_PublicKey = publicOf priv, t_Grants = cloneGrants grants, t_Caveats = [],
         t_Signature = []\<rparr> priv))"

definition Token_Verify :: "edverify \<Rightarrow> capabilitytoken \<Rightarrow> int \<Rightarrow> error option" where
  "Token_Verify verify t now =
     (if length (t_PublicKey t) \<noteq> 32 \<or> length (t_Signature t) \<noteq> 64 \<or> t_Issuer t = []
         \<or> t_Subject t = [] \<or> t_ExpiresAt t < now
      then Some (ErrMsg ''invalid or expired capability token'')
      else if \<not> verify (t_PublicKey t) (tokenBytes t) (t_Signature t)
      then Some (ErrMsg ''capability token signature mismatch'')
      else None)"

definition grantContains :: "capabilitygrant \<Rightarrow> capabilitygrant \<Rightarrow> bool" where
  "grantContains parent child =
     (if g_Object parent \<noteq> g_Object child then False
      else if g_Action parent = g_Action child \<or> g_Action parent = ''*'' then True
      else if hasSuffix (g_Action parent) ''/**'' then
        (let base = trimSuffix (g_Action parent) ''/**''
         in isAbs (g_Action child) \<and> Clean (g_Action child) = g_Action child
            \<and> (g_Action child = base \<or> hasPrefix (g_Action child) (base @ ''/'')))
      else False)"

text \<open>The loop of \<^verbatim>\<open>Attenuate\<close>: each candidate is kept if some grant of the token contains it.\<close>

definition attenuate_grants :: "capabilitygrant list \<Rightarrow> capabilitygrant list \<Rightarrow> capabilitygrant list" where
  "attenuate_grants parents grants =
     filter (\<lambda>candidate. list_ex (\<lambda>parent. grantContains parent candidate) parents) grants"

definition Attenuate ::
  "edverify \<Rightarrow> edsign \<Rightarrow> int \<Rightarrow> capabilitytoken \<Rightarrow> string \<Rightarrow> string \<Rightarrow> capabilitygrant list
     \<Rightarrow> capabilitytoken result" where
  "Attenuate verify sign now t priv caveat grants =
     (case Token_Verify verify t now of
        Some e \<Rightarrow> Inl e
      | None \<Rightarrow>
          if length priv \<noteq> 64 \<or> caveat = [] \<or> grants = []
             \<or> \<not> bytesEqual (publicOf priv) (t_PublicKey t)
          then Inl (ErrMsg ''invalid attenuation'')
          else
            let allowed = attenuate_grants (t_Grants t) grants
            in if allowed = [] then Inl (ErrMsg ''attenuation removes all grants'')
               else Inr (signToken sign
                 (t\<lparr>t_Grants := cloneGrants allowed, t_Caveats := t_Caveats t @ [caveat]\<rparr>) priv))"

definition Token_Allows :: "capabilitytoken \<Rightarrow> string \<Rightarrow> string \<Rightarrow> bool" where
  "Token_Allows t object action =
     list_ex (\<lambda>g. g_Object g = object \<and>
                  grantContains g \<lparr>g_Object = object, g_Action = action\<rparr>) (t_Grants t)"

section \<open>The Cedar policy\<close>

record cedarrule =
  r_Effect :: string
  r_Principal :: string
  r_Object :: string
  r_Action :: string

definition match :: "string \<Rightarrow> string \<Rightarrow> bool" where
  "match rule val \<longleftrightarrow> rule = ''*'' \<or> rule = val"

definition matchAction :: "string \<Rightarrow> string \<Rightarrow> bool" where
  "matchAction rule val \<longleftrightarrow> rule = ''*'' \<or> rule = val \<or>
     grantContains \<lparr>g_Object = [], g_Action = rule\<rparr> \<lparr>g_Object = [], g_Action = val\<rparr>"

definition rule_matches :: "cedarrule \<Rightarrow> string \<Rightarrow> string \<Rightarrow> string \<Rightarrow> bool" where
  "rule_matches r princ object action \<longleftrightarrow>
     match (r_Principal r) princ \<and> match (r_Object r) object \<and> matchAction (r_Action r) action"

text \<open>The loop over the rules, with the \<^verbatim>\<open>allowed\<close> flag.\<close>

fun cedar_loop :: "string \<Rightarrow> string \<Rightarrow> string \<Rightarrow> bool \<Rightarrow> cedarrule list \<Rightarrow> bool" where
  "cedar_loop princ object action allowed [] = allowed"
| "cedar_loop princ object action allowed (r # rs) =
     (if \<not> rule_matches r princ object action then cedar_loop princ object action allowed rs
      else if equalFold (r_Effect r) ''deny'' then False
      else if equalFold (r_Effect r) ''allow'' then cedar_loop princ object action True rs
      else cedar_loop princ object action allowed rs)"

definition CedarPolicy_Evaluate :: "cedarrule list \<Rightarrow> string \<Rightarrow> string \<Rightarrow> string \<Rightarrow> bool" where
  "CedarPolicy_Evaluate rules princ object action =
     cedar_loop princ object action False rules"

definition Authorizer_Evaluate ::
  "edverify \<Rightarrow> int \<Rightarrow> cedarrule list \<Rightarrow> string \<Rightarrow> string \<Rightarrow> string \<Rightarrow> capabilitytoken option
     \<Rightarrow> error option" where
  "Authorizer_Evaluate verify now rules princ object action token =
     (if \<not> CedarPolicy_Evaluate rules princ object action then Some ErrCapabilityDenied
      else case token of
        None \<Rightarrow> None
      | Some t \<Rightarrow>
          if Token_Verify verify t now \<noteq> None \<or> t_Subject t \<noteq> princ \<or> \<not> Token_Allows t object action
          then Some ErrCapabilityDenied else None)"

section \<open>The manifest\<close>

record capabilityset =
  cs_Engine :: string
  cs_MemMiB :: int
  cs_CPUs :: int
  cs_FSRead :: "string list"
  cs_FSWrite :: "string list"
  cs_Net :: bool
  cs_Tools :: "string list"
  cs_ExportMask :: u64

definition allow_rule :: "string \<Rightarrow> string \<Rightarrow> cedarrule" where
  "allow_rule object action =
     \<lparr>r_Effect = ''allow'', r_Principal = ''*'', r_Object = object, r_Action = action\<rparr>"

definition cedarPolicyFromCapabilitySet :: "capabilityset \<Rightarrow> cedarrule list" where
  "cedarPolicyFromCapabilitySet policy =
     (if cs_Net policy then [allow_rule ''net'' ''*''] else [])
     @ map (allow_rule ''tool'') (cs_Tools policy)
     @ map (allow_rule ''fs.read'') (cs_FSRead policy)
     @ map (allow_rule ''fs.write'') (cs_FSWrite policy)"

text \<open>The checks \<^verbatim>\<open>LoadCapabilitySet\<close> makes on a decoded manifest.\<close>

definition validFSRule :: "string \<Rightarrow> bool" where
  "validFSRule p =
     (let base = trimSuffix p ''/**''
      in isAbs base \<and> Clean base = base \<and> \<not> containsAny base ''*?['')"

definition LoadCapabilitySet :: "capabilityset \<Rightarrow> capabilityset result" where
  "LoadCapabilitySet c =
     (if cs_Engine c = [] then Inl (ErrMsg ''manifest engine is required'')
      else if cs_MemMiB c < 0 \<or> cs_MemMiB c > 2 ^ 20 \<or> cs_CPUs c < 0 \<or> cs_CPUs c > 1024
      then Inl (ErrMsg ''manifest resource limits are out of range'')
      else if \<not> list_all validFSRule (cs_FSRead c @ cs_FSWrite c)
      then Inl (ErrMsg ''filesystem rules require absolute paths with optional /** suffix'')
      else Inr c)"

definition allowedPath :: "string list \<Rightarrow> string \<Rightarrow> bool" where
  "allowedPath rules path =
     (if \<not> isAbs path \<or> Clean path \<noteq> path then False
      else list_ex (\<lambda>rule.
             let base = trimSuffix rule ''/**''
             in path = base \<or> (base \<noteq> rule \<and> hasPrefix path (trimSuffix base ''/'' @ ''/''))) rules)"

section \<open>Revocation\<close>

record revokedtoken =
  rt_Digest :: string
  rt_PublicKey :: string
  rt_Subject :: string
  rt_Caveats :: "string list"
  rt_Time :: int
  rt_Reason :: string

definition maxRevokedTokens :: nat where
  "maxRevokedTokens = 1024"

definition tokenDigest :: "capabilitytoken \<Rightarrow> string" where
  "tokenDigest t = sha256hex (tokenBytes t @ t_Signature t)"

definition revokedBy :: "revokedtoken \<Rightarrow> capabilitytoken \<Rightarrow> bool" where
  "revokedBy r t =
     (if rt_Subject r \<noteq> t_Subject t \<or> \<not> bytesEqual (rt_PublicKey r) (t_PublicKey t) then False
      else if tokenDigest t = rt_Digest r then True
      else if length (rt_Caveats r) \<ge> length (t_Caveats t) then False
      else take (length (rt_Caveats r)) (t_Caveats t) = rt_Caveats r)"

section \<open>Containment of grants\<close>

lemma grantContains_object: "grantContains p c \<Longrightarrow> g_Object p = g_Object c"
  by (simp add: grantContains_def split: if_splits)

lemma grantContains_refl [simp]: "grantContains g g"
  by (simp add: grantContains_def)

lemma starstar_base_neq: "base @ ''/**'' \<noteq> base"
  by simp

text \<open>Containment is transitive, except through a grant whose action carries the recursion suffix
  twice: there the base of the outer pattern is itself a pattern.\<close>

lemma grantContains_trans:
  assumes pc: "grantContains p c" and ca: "grantContains c a"
    and single: "\<not> hasSuffix (g_Action p) ''/**/**''"
  shows "grantContains p a"
proof -
  have obj: "g_Object p = g_Object c" "g_Object c = g_Object a"
    using grantContains_object pc ca by blast+
  show ?thesis
  proof (cases "g_Action p = g_Action c \<or> g_Action p = ''*'' \<or> g_Action c = g_Action a")
    case True
    then show ?thesis
      using pc ca obj by (auto simp: grantContains_def Let_def split: if_splits)
  next
    case False
    obtain base where base: "g_Action p = base @ ''/**''"
      using pc False obj by (auto simp: grantContains_def hasSuffix_append split: if_splits)
    with pc False obj have c: "g_Action c = base \<or> hasPrefix (g_Action c) (base @ ''/'')"
      and cabs: "isAbs (g_Action c)"
      by (auto simp: grantContains_def Let_def split: if_splits)
    have cne: "g_Action c \<noteq> ''*''" using cabs by (auto simp: isAbs_def hasPrefix_def)
    obtain base' where base': "g_Action c = base' @ ''/**''"
      and a: "isAbs (g_Action a)" "Clean (g_Action a) = g_Action a"
        "g_Action a = base' \<or> hasPrefix (g_Action a) (base' @ ''/'')"
      using ca False cne obj by (auto simp: grantContains_def hasSuffix_append Let_def split: if_splits)
    have "g_Action c \<noteq> base"
    proof
      assume "g_Action c = base"
      then have "g_Action p = base' @ ''/**/**''" using base base' by simp
      with single show False by (auto simp: hasSuffix_append)
    qed
    with c obtain r where r: "base' @ ''/**'' = base @ ''/'' @ r"
      using base' by (auto simp: hasPrefix_append)
    have "\<exists>x. base' = base @ ''/'' @ x \<or> base' = base"
    proof -
      from r consider x where "base' = base @ x" "x @ ''/**'' = ''/'' @ r"
        | x where "base = base' @ x" "''/**'' = x @ ''/'' @ r"
        by (auto simp: append_eq_append_conv2)
      then show ?thesis
      proof cases
        case 1
        then show ?thesis by (cases x) auto
      next
        case 2
        then have "x = []" by (cases x; cases "tl x"; cases "tl (tl x)") (auto simp: Cons_eq_append_conv)
        with 2 show ?thesis by simp
      qed
    qed
    then have "g_Action a = base \<or> hasPrefix (g_Action a) (base @ ''/'')"
      using a(3) by (auto simp: hasPrefix_append)
    then show ?thesis
      using obj a base by (auto simp: grantContains_def Let_def hasSuffix_append)
  qed
qed

lemma attenuate_grants_contained:
  "g \<in> set (attenuate_grants parents grants) \<Longrightarrow> \<exists>p \<in> set parents. grantContains p g"
  by (auto simp: attenuate_grants_def list_ex_iff)

lemma Token_Allows_iff:
  "Token_Allows t object action \<longleftrightarrow>
     (\<exists>g \<in> set (t_Grants t). grantContains g \<lparr>g_Object = object, g_Action = action\<rparr>)"
  by (fastforce simp: Token_Allows_def list_ex_iff dest: grantContains_object)

section \<open>Attenuation\<close>

lemma Attenuate_fields:
  assumes "Attenuate verify sign now t priv caveat grants = Inr t'"
  shows "t_Grants t' = attenuate_grants (t_Grants t) grants" and "t_Subject t' = t_Subject t"
    and "t_Issuer t' = t_Issuer t" and "t_ExpiresAt t' = t_ExpiresAt t"
    and "t_PublicKey t' = t_PublicKey t" and "t_Caveats t' = t_Caveats t @ [caveat]"
    and "Token_Verify verify t now = None"
  using assms
  by (auto simp: Attenuate_def Let_def signToken_def cloneGrants_def split: option.splits if_splits)

text \<open>A chain of attenuations of one token, by any holders of the issuer key.\<close>

inductive attenuated :: "edverify \<Rightarrow> edsign \<Rightarrow> capabilitytoken \<Rightarrow> capabilitytoken \<Rightarrow> bool"
  for verify sign t where
  self: "attenuated verify sign t t"
| step: "attenuated verify sign t u \<Longrightarrow> Attenuate verify sign now u priv caveat grants = Inr v
         \<Longrightarrow> attenuated verify sign t v"

lemma attenuated_lineage:
  "attenuated verify sign t u \<Longrightarrow>
     t_Subject u = t_Subject t \<and> t_PublicKey u = t_PublicKey t \<and> t_ExpiresAt u = t_ExpiresAt t \<and>
     (\<exists>cs. t_Caveats u = t_Caveats t @ cs \<and> (cs = [] \<longrightarrow> u = t))"
proof (induction rule: attenuated.induct)
  case self
  show ?case by simp
next
  case (step u now priv caveat grants v)
  then show ?case using Attenuate_fields [OF step.hyps(2)] by auto
qed

definition no_double_star :: "capabilitytoken \<Rightarrow> bool" where
  "no_double_star t \<longleftrightarrow> (\<forall>g \<in> set (t_Grants t). \<not> hasSuffix (g_Action g) ''/**/**'')"

text \<open>C21. Attenuation never widens a token: whatever grants the holder of the issuer key asks for,
  the new token allows nothing its parent did not allow, keeps subject, issuer key and expiry, and
  extends the caveat list; provided no grant of the parent carries the suffix \<^verbatim>\<open>/**\<close> twice.\<close>

theorem attenuation_narrows:
  assumes "Attenuate verify sign now t priv caveat grants = Inr t'" and "no_double_star t"
  shows "(Token_Allows t' object action \<longrightarrow> Token_Allows t object action)
    \<and> t_Subject t' = t_Subject t \<and> t_PublicKey t' = t_PublicKey t
    \<and> t_ExpiresAt t' = t_ExpiresAt t \<and> t_Caveats t' = t_Caveats t @ [caveat]"
proof -
  note f = Attenuate_fields [OF assms(1)]
  have "Token_Allows t object action" if al: "Token_Allows t' object action"
  proof -
    from al obtain g where g: "g \<in> set (attenuate_grants (t_Grants t) grants)"
      and ga: "grantContains g \<lparr>g_Object = object, g_Action = action\<rparr>"
      by (auto simp: Token_Allows_iff f(1))
    from attenuate_grants_contained [OF g] obtain p where "p \<in> set (t_Grants t)" "grantContains p g"
      by blast
    with ga assms(2) show ?thesis
      unfolding Token_Allows_iff no_double_star_def by (blast intro: grantContains_trans)
  qed
  with f show ?thesis by blast
qed

text \<open>A key, a signature scheme and a token to run the definitions on: the signature of a message
  is 64 copies of a byte that depends on the key's first byte.\<close>

definition sample_sign :: edsign where
  "sample_sign priv m = replicate 64 (hd priv)"

definition sample_verify :: edverify where
  "sample_verify pub m s \<longleftrightarrow> s = replicate 64 (hd pub)"

definition sample_key :: string where
  "sample_key = replicate 64 (CHR ''k'')"

definition sample_grant :: "string \<Rightarrow> capabilitygrant" where
  "sample_grant action = \<lparr>g_Object = ''fs.read'', g_Action = action\<rparr>"

definition sample_token :: "string list \<Rightarrow> string list \<Rightarrow> capabilitytoken" where
  "sample_token caveats actions =
     \<lparr>t_Issuer = ''aok'', t_Subject = ''worker'', t_ExpiresAt = 100,
      t_PublicKey = replicate 32 (CHR ''k''), t_Grants = map sample_grant actions,
      t_Caveats = caveats, t_Signature = replicate 64 (CHR ''k'')\<rparr>"

lemma sample_token_verify: "Token_Verify sample_verify (sample_token cs as) 50 = None"
  by (simp add: Token_Verify_def sample_token_def sample_verify_def)

lemma sample_attenuate:
  assumes "attenuate_grants (map sample_grant as) (map sample_grant bs) = map sample_grant (b # bs')"
    and "caveat \<noteq> []" and "bs \<noteq> []"
  shows "Attenuate sample_verify sample_sign 50 (sample_token cs as) sample_key caveat (map sample_grant bs)
           = Inr (sample_token (cs @ [caveat]) (b # bs'))"
  using assms sample_token_verify [of cs as]
  by (simp add: Attenuate_def sample_key_def publicOf_def bytesEqual_def Let_def signToken_def
      sample_sign_def cloneGrants_def sample_token_def)

lemma sample_attenuate_grants:
  "attenuate_grants (map sample_grant [''/data/**'']) (map sample_grant [''/data/in/**'', ''/etc/**''])
     = map sample_grant [''/data/in/**'']"
  by code_simp

lemma sample_attenuate_data:
  "Attenuate sample_verify sample_sign 50 (sample_token [] [''/data/**'']) sample_key ''c1''
     (map sample_grant [''/data/in/**'', ''/etc/**'']) = Inr (sample_token [''c1''] [''/data/in/**''])"
  using sample_attenuate [OF sample_attenuate_grants, of "''c1''" "[]"]
  by simp

theorem attenuation_narrows_witness:
  "no_double_star (sample_token [] [''/data/**''])
   \<and> Token_Allows (sample_token [''c1''] [''/data/in/**'']) ''fs.read'' ''/data/in/x''
   \<and> Token_Allows (sample_token [] [''/data/**'']) ''fs.read'' ''/data/in/x''"
proof -
  have nd: "no_double_star (sample_token [] [''/data/**''])"
    by code_simp
  have al: "Token_Allows (sample_token [''c1''] [''/data/in/**'']) ''fs.read'' ''/data/in/x''"
    by code_simp
  show ?thesis
    using attenuation_narrows [OF sample_attenuate_data nd, of "''fs.read''" "''/data/in/x''"] al nd by blast
qed

text \<open>The excluded case is real: a grant on \<^verbatim>\<open>/a/**/**\<close> covers only paths under the literal
  directory \<^verbatim>\<open>/a/**\<close>, yet it may be attenuated to \<^verbatim>\<open>/a/**\<close>, which covers all of
  \<^verbatim>\<open>/a\<close>.\<close>

lemma sample_attenuate_double:
  "Attenuate sample_verify sample_sign 50 (sample_token [] [''/a/**/**'']) sample_key ''c1''
     (map sample_grant [''/a/**'']) = Inr (sample_token [''c1''] [''/a/**''])"
proof -
  have "attenuate_grants (map sample_grant [''/a/**/**'']) (map sample_grant [''/a/**''])
          = map sample_grant [''/a/**'']"
    by code_simp
  from sample_attenuate [OF this, of "''c1''" "[]"] show ?thesis by simp
qed


section \<open>Deny overrides\<close>

lemma cedar_loop_iff:
  "cedar_loop princ object action allowed rs \<longleftrightarrow>
     (allowed \<or> (\<exists>r \<in> set rs. rule_matches r princ object action \<and> equalFold (r_Effect r) ''allow''))
     \<and> \<not> (\<exists>r \<in> set rs. rule_matches r princ object action \<and> equalFold (r_Effect r) ''deny'')"
  by (induction rs arbitrary: allowed) auto

text \<open>C23. The policy loop, which returns at the first matching deny rule and remembers allow rules,
  decides deny-overrides: access is allowed exactly when some matching rule allows it and no
  matching rule, anywhere in the list, denies it.\<close>

theorem cedar_deny_overrides:
  "CedarPolicy_Evaluate rules princ object action \<longleftrightarrow>
     (\<exists>r \<in> set rules. rule_matches r princ object action \<and> equalFold (r_Effect r) ''allow'')
     \<and> \<not> (\<exists>r \<in> set rules. rule_matches r princ object action \<and> equalFold (r_Effect r) ''deny'')"
  by (simp add: CedarPolicy_Evaluate_def cedar_loop_iff)

section \<open>Confinement to the manifest\<close>

lemma cleanAbs_snoc_starstar:
  assumes "cleanAbs b" and "b \<noteq> ''/''"
  shows "cleanAbs (b @ ''/**'') \<and> clean_comps (b @ ''/**'') = clean_comps b @ [''**'']"
proof -
  have b: "b = SLASH # joinStr ''/'' (clean_comps b)" and pl: "list_all plain (clean_comps b)"
    using cleanAbs_comps [OF assms(1)] by blast+
  have ne: "clean_comps b \<noteq> []" using b assms(2) by auto
  have pl': "list_all plain (clean_comps b @ [''**''])" using pl by (simp add: plain_def)
  have eq: "b @ ''/**'' = SLASH # joinStr ''/'' (clean_comps b @ [''**''])"
    by (subst b) (simp add: joinStr_append [OF ne])
  have cc: "clean_comps (b @ ''/**'') = clean_comps b @ [''**'']"
    unfolding eq by (rule clean_comps_join [OF pl'])
  moreover have "isAbs (b @ ''/**'')" unfolding eq by (simp add: isAbs_def hasPrefix_def)
  ultimately show ?thesis using Clean_rooted [of "b @ ''/**''"] eq by (simp add: cleanAbs_def)
qed

lemma matchAction_confined:
  assumes "validFSRule rule" and "matchAction rule path"
  shows "path = rule \<or> (cleanAbs path \<and>
           (\<exists>cs. clean_comps path = clean_comps (trimSuffix rule ''/**'') @ cs))"
proof (cases "path = rule")
  case False
  let ?b = "trimSuffix rule ''/**''"
  have b: "cleanAbs ?b" using assms(1) by (simp add: validFSRule_def cleanAbs_def Let_def)
  have "rule \<noteq> ''*''"
    using assms(1) by (auto simp: validFSRule_def Let_def isAbs_def hasPrefix_def trimSuffix_def hasSuffix_def)
  with assms(2) False have "hasSuffix rule ''/**''"
    and path: "cleanAbs path" "path = ?b \<or> hasPrefix path (?b @ ''/'')"
    by (auto simp: matchAction_def grantContains_def Let_def cleanAbs_def split: if_splits)
  then show ?thesis using prefix_slash_comps [OF path(1) b] by auto
qed simp

lemma rule_matches_allow_rule [simp]:
  "rule_matches (allow_rule object act) princ object' action \<longleftrightarrow>
     (object = ''*'' \<or> object = object') \<and> matchAction act action"
  by (simp add: rule_matches_def allow_rule_def match_def)


definition sample_manifest :: capabilityset where
  "sample_manifest =
     \<lparr>cs_Engine = ''echo'', cs_MemMiB = 64, cs_CPUs = 1, cs_FSRead = [''/data/in/**''],
      cs_FSWrite = [''/data/out''], cs_Net = False, cs_Tools = [''search''], cs_ExportMask = 1\<rparr>"

lemma sample_manifest_loads: "LoadCapabilitySet sample_manifest = Inr sample_manifest"
  by code_simp


section \<open>Revocation reaches descendants\<close>

text \<open>The registry entry of a token matches the token itself and everything attenuated from it.\<close>

lemma revokedBy_attenuated:
  assumes "rt_Digest r = tokenDigest t" and "rt_PublicKey r = t_PublicKey t"
    and "rt_Subject r = t_Subject t" and "rt_Caveats r = t_Caveats t"
    and "attenuated verify sign t u"
  shows "revokedBy r u"
proof -
  from attenuated_lineage [OF assms(5)] obtain cs where
    u: "t_Subject u = t_Subject t" "t_PublicKey u = t_PublicKey t"
      "t_Caveats u = t_Caveats t @ cs" "cs = [] \<Longrightarrow> u = t"
    by blast
  show ?thesis
    using assms u by (cases "cs = []") (auto simp: revokedBy_def bytesEqual_def)
qed

end
