(* ===== verification/State.thy ===== *)
theory State
  imports Policy ContextStore Ledger
begin

text \<open>
  The supervisor's state and its durability (\<^verbatim>\<open>runtime/supervisor.go\<close>): the records of
  \<^verbatim>\<open>supervisorState\<close>, the audit chain, \<^verbatim>\<open>persistLocked\<close>, \<^verbatim>\<open>restoreLocked\<close> and \<^verbatim>\<open>load\<close>.

  An operation of the supervisor is a function from the state under the mutex to its result and
  the new state; \<open>now\<close> is the clock reading of the critical section, random bytes are
  arguments. \<open>sv_committed\<close> is the state as the database holds it. A write of the database
  pops \<open>sv_dbq\<close>: \<open>False\<close> is a write that fails, past the end of the list writes succeed.
  A state read back from the database is the state written, except for what its JSON form does not
  carry: \<open>durable\<close> clears the process-local flag of kernel events and stores raw payloads in
  their compact form. Strings of the state are taken to be valid UTF-8, which JSON keeps.
\<close>

section \<open>Records\<close>

record usage =
  u_InputTokens :: u64
  u_OutputTokens :: u64
  u_CachedTokens :: u64

record routepolicy =
  rp_Version :: u64
  rp_Backends :: "string list"

record routerecord =
  rr_Sequence :: u64
  rr_Time :: int
  rr_ApplicationID :: string
  rr_MessageID :: string
  rr_PolicyVersion :: u64
  rr_Provider :: string
  rr_CompatKey :: string
  rr_Fallbacks :: u32
  rr_CacheHitKind :: string
  rr_PromptTokens :: u64
  rr_CachedTokens :: u64
  rr_OutputTokens :: u64
  rr_Status :: string
  rr_Reason :: string

record application =
  a_ApplicationID :: string
  a_OwnerAgent :: string
  a_ForkParent :: string
  a_ContractVersion :: u64
  a_State :: string
  a_WakePolicy :: string
  a_Checkpoint :: string
  a_Generation :: u64
  a_CreatedAt :: int
  a_RetiredAt :: int
  a_TokensUsed :: u64
  a_TokensCached :: u64
  a_TokenLimit :: u64
  a_Failures :: u32
  a_ContextID :: string
  a_KernelID :: u64
  a_LastProvider :: string
  a_LastCompat :: string
  a_RoutePolicy :: routepolicy
  a_TaintBits :: u64

record mailboxmessage =
  m_MessageID :: string
  m_IdempotencyKey :: string
  m_Payload :: string
  m_Status :: string
  m_Sequence :: u64
  m_CreatedAt :: int
  m_Attempts :: u32

record auditrecord =
  au_Sequence :: u64
  au_Time :: int
  au_Principal :: string
  au_ApplicationID :: string
  au_Action :: string
  au_Object :: string
  au_Decision :: string
  au_Reason :: string
  au_PreviousHash :: string
  au_Hash :: string

record turnresult =
  tr_ApplicationID :: string
  tr_MessageID :: string
  tr_Text :: string
  tr_Usage :: usage
  tr_Status :: string
  tr_Checkpoint :: string
  tr_Provider :: string
  tr_Fallbacks :: u32
  tr_CacheHitKind :: string
  tr_FailureReason :: string

record applicationtimer =
  tm_ApplicationID :: string
  tm_TimerID :: string
  tm_Due :: int
  tm_Interval :: int
  tm_Payload :: string

record wakebinding =
  wb_BindingID :: string
  wb_ApplicationID :: string
  wb_Kind :: string
  wb_Ref :: string
  wb_Cursor :: int
  wb_Enabled :: bool

record kernelevent =
  ke_BootID :: string
  ke_QueueBootID :: string
  ke_RecoveryPending :: bool
  ke_ApplicationID :: u64
  ke_EventID :: u64
  ke_EventSeq :: u64
  ke_Kind :: u32
  ke_Coalesced :: u32
  ke_Data :: u64

record confirmationrequest =
  cr_RequestID :: string
  cr_ApplicationID :: string
  cr_Kind :: string
  cr_Object :: string
  cr_Reason :: string
  cr_CreatedAt :: int
  cr_ExpiresAt :: int
  cr_Status :: string
  cr_SettledBy :: string

record witnesscheckpoint =
  wc_HeadHash :: string
  wc_Count :: u64
  wc_Time :: int
  wc_PublicKey :: string
  wc_Signature :: string
  wc_Signer :: string

record messagechannel =
  ch_ChannelID :: string
  ch_Kind :: string
  ch_State :: string
  ch_CreatedAt :: int

record messageconversation =
  cv_ChannelID :: string
  cv_ExternalID :: string
  cv_Principal :: string
  cv_ApplicationID :: string
  cv_LastSequence :: int
  cv_CreatedAt :: int

record outboxentry =
  ob_EntryID :: string
  ob_ConversationID :: string
  ob_IdempotencyKey :: string
  ob_Payload :: string
  ob_Status :: string
  ob_Attempts :: u32
  ob_CreatedAt :: int
  ob_SentAt :: int
  ob_Receipt :: string

record hostfsmount =
  hm_MountID :: string
  hm_ApplicationID :: string
  hm_HostPath :: string
  hm_GuestPath :: string
  hm_Mode :: string
  hm_LimitsBytes :: int
  hm_Version :: u64
  hm_Enabled :: bool
  hm_CreatedAt :: int
  hm_ExpiresAt :: int

record artifacttransfer =
  at_TransferID :: string
  at_ApplicationID :: string
  at_ArtifactSHA256 :: string
  at_Direction :: string
  at_Status :: string
  at_IdempotencyKey :: string
  at_Payload :: string
  at_CreatedAt :: int

record supervisorState =
  s_Applications :: "application gomap"
  s_Mailbox :: "mailboxmessage list gomap"
  s_Audit :: "auditrecord list"
  s_NextSequence :: u64
  s_Results :: "turnresult gomap"
  s_Prepared :: "turnresult gomap"
  s_Timers :: "applicationtimer gomap"
  s_Bindings :: "wakebinding gomap"
  s_NextKernelID :: u64
  s_KernelPending :: "kernelevent list gomap"
  s_RouteRecords :: "routerecord list"
  s_RevokedTokens :: "revokedtoken list"
  s_Confirmations :: "confirmationrequest gomap"
  s_WitnessCheckpoints :: "witnesscheckpoint list"
  s_Channels :: "messagechannel gomap"
  s_Conversations :: "messageconversation gomap"
  s_Outbox :: "outboxentry list"
  s_HostfsMounts :: "hostfsmount gomap"
  s_Transfers :: "artifacttransfer list"

record supervisor =
  sv_state :: supervisorState
  sv_policy :: capabilityset
  sv_previousHash :: string
  sv_committed :: supervisorState
  sv_contexts :: cstore
  sv_authorizer :: "cedarrule list"
  sv_kernelApps :: "string list"
  sv_kernelSrcs :: "string list"
  sv_lastClaim :: "int gomap"
  sv_lastPrefix :: string
  sv_sourced :: "string gomap"
  sv_inflight :: "string list"
  sv_turnConcurrency :: int
  sv_dbq :: "bool list"

definition empty_state :: supervisorState where
  "empty_state =
     \<lparr>s_Applications = [], s_Mailbox = [], s_Audit = [], s_NextSequence = 0, s_Results = [],
      s_Prepared = [], s_Timers = [], s_Bindings = [], s_NextKernelID = 0, s_KernelPending = [],
      s_RouteRecords = [], s_RevokedTokens = [], s_Confirmations = [], s_WitnessCheckpoints = [],
      s_Channels = [], s_Conversations = [], s_Outbox = [], s_HostfsMounts = [], s_Transfers = []\<rparr>"

definition maxTextBytes :: nat where "maxTextBytes = 256 * 1024"
definition maxRouteRecords :: nat where "maxRouteRecords = 512"

abbreviation app :: "supervisor \<Rightarrow> string \<Rightarrow> application option" where
  "app s i \<equiv> gget (s_Applications (sv_state s)) i"

text \<open>The messages of an application; a missing key reads as the nil slice.\<close>

definition mailbox :: "supervisorState \<Rightarrow> string \<Rightarrow> mailboxmessage list" where
  "mailbox st i = (case gget (s_Mailbox st) i of None \<Rightarrow> [] | Some ms \<Rightarrow> ms)"

abbreviation on_state :: "(supervisorState \<Rightarrow> supervisorState) \<Rightarrow> supervisor \<Rightarrow> supervisor" where
  "on_state f s \<equiv> s\<lparr>sv_state := f (sv_state s)\<rparr>"

abbreviation put_app :: "string \<Rightarrow> application \<Rightarrow> supervisor \<Rightarrow> supervisor" where
  "put_app i a s \<equiv> on_state (s_Applications_update (gput i a)) s"

abbreviation put_mailbox :: "string \<Rightarrow> mailboxmessage list \<Rightarrow> supervisor \<Rightarrow> supervisor" where
  "put_mailbox i ms s \<equiv> on_state (s_Mailbox_update (gput i ms)) s"

definition retired :: "application \<Rightarrow> bool" where
  "retired a \<longleftrightarrow> a_State a = ''tombstoned'' \<or> a_State a = ''retiring''"

definition TaintExternal :: u64 where "TaintExternal = 1"
definition TaintConfidential :: u64 where "TaintConfidential = 2"

section \<open>The audit chain\<close>

definition audit_json :: "auditrecord \<Rightarrow> string" where
  "audit_json r = jobject
     ([(''sequence'', dec (unat (au_Sequence r))), (''time'', dec_int (au_Time r)),
       (''principal'', quote (au_Principal r))]
      @ (if au_ApplicationID r = [] then [] else [(''application_id'', quote (au_ApplicationID r))])
      @ [(''action'', quote (au_Action r)), (''object'', quote (au_Object r)),
         (''decision'', quote (au_Decision r))]
      @ (if au_Reason r = [] then [] else [(''reason'', quote (au_Reason r))])
      @ [(''previous_hash'', quote (au_PreviousHash r)), (''hash'', quote (au_Hash r))])"

definition auditHash :: "auditrecord \<Rightarrow> string" where
  "auditHash r = sha256hex (audit_json (r\<lparr>au_Hash := []\<rparr>))"

fun verify_audit_from :: "string \<Rightarrow> u64 \<Rightarrow> auditrecord list \<Rightarrow> bool" where
  "verify_audit_from previous seq [] = True"
| "verify_audit_from previous seq (r # rs) =
     (if au_Sequence r \<le> seq \<or> au_PreviousHash r \<noteq> previous \<or> au_Hash r \<noteq> auditHash r then False
      else verify_audit_from (au_Hash r) (au_Sequence r) rs)"

definition VerifyAudit :: "auditrecord list \<Rightarrow> error option" where
  "VerifyAudit records =
     (if verify_audit_from [] 0 records then None else Some (ErrMsg ''invalid audit chain''))"

definition next_record ::
  "int \<Rightarrow> string \<Rightarrow> string \<Rightarrow> string \<Rightarrow> string \<Rightarrow> string \<Rightarrow> string \<Rightarrow> supervisor \<Rightarrow> auditrecord" where
  "next_record now princ aid action object decision reason s =
     (let r = \<lparr>au_Sequence = s_NextSequence (sv_state s) + 1, au_Time = now, au_Principal = princ,
               au_ApplicationID = aid, au_Action = action, au_Object = object,
               au_Decision = decision, au_Reason = reason, au_PreviousHash = sv_previousHash s,
               au_Hash = []\<rparr>
      in r\<lparr>au_Hash := auditHash r\<rparr>)"

definition auditLocked ::
  "int \<Rightarrow> string \<Rightarrow> string \<Rightarrow> string \<Rightarrow> string \<Rightarrow> string \<Rightarrow> string \<Rightarrow> supervisor \<Rightarrow> supervisor" where
  "auditLocked now princ aid action object decision reason s =
     (let r = next_record now princ aid action object decision reason s
      in s\<lparr>sv_state := (sv_state s)\<lparr>s_NextSequence := au_Sequence r, s_Audit := s_Audit (sv_state s) @ [r]\<rparr>,
           sv_previousHash := au_Hash r\<rparr>)"

section \<open>Persisting and rolling back\<close>

definition durable :: "supervisorState \<Rightarrow> supervisorState" where
  "durable st = st\<lparr>
     s_Timers := map (\<lambda>(k, t). (k, t\<lparr>tm_Payload := compact False False (tm_Payload t)\<rparr>)) (s_Timers st),
     s_KernelPending := map (\<lambda>(k, es). (k, map (ke_RecoveryPending_update (\<lambda>_. False)) es)) (s_KernelPending st),
     s_Transfers := map (\<lambda>t. t\<lparr>at_Payload := compact False False (at_Payload t)\<rparr>) (s_Transfers st)\<rparr>"

text \<open>\<^verbatim>\<open>conversationKey\<close> and \<^verbatim>\<open>rescanSourcedLocked\<close> of \<^verbatim>\<open>runtime/gateway.go\<close>: which
  conversation each mailbox message came from, read back from the envelopes.\<close>

definition conversationKey :: "string \<Rightarrow> string \<Rightarrow> string" where
  "conversationKey channelID externalID = channelID @ '':'' @ externalID"

definition message_source :: "supervisorState \<Rightarrow> string \<Rightarrow> mailboxmessage \<Rightarrow> string option" where
  "message_source st aid m =
     (let p = m_Payload m; ch = string_field ''channel'' p; ex = string_field ''external_id'' p;
          key = conversationKey ch ex
      in if \<not> unmarshal_strings_ok [''source'', ''channel'', ''external_id''] p
            \<or> string_field ''source'' p \<noteq> ''gateway'' then None
         else case gget (s_Conversations st) key of
           None \<Rightarrow> None
         | Some c \<Rightarrow>
             if cv_ChannelID c = ch \<and> cv_ExternalID c = ex \<and> cv_ApplicationID c = aid
             then Some key else None)"

definition rescan_message :: "supervisorState \<Rightarrow> string \<Rightarrow> mailboxmessage \<Rightarrow> string gomap \<Rightarrow> string gomap" where
  "rescan_message st aid m src =
     (case message_source st aid m of None \<Rightarrow> src | Some key \<Rightarrow> gput (m_MessageID m) key src)"

definition rescanSourced :: "supervisorState \<Rightarrow> string gomap" where
  "rescanSourced st =
     fold (\<lambda>(aid, ms). fold (rescan_message st aid) ms) (s_Mailbox st) []"

definition last_hash :: "supervisorState \<Rightarrow> string" where
  "last_hash st = (if s_Audit st = [] then [] else au_Hash (last (s_Audit st)))"

definition restoreLocked :: "supervisor \<Rightarrow> supervisor" where
  "restoreLocked s = s\<lparr>sv_state := sv_committed s, sv_sourced := rescanSourced (sv_committed s),
                       sv_previousHash := last_hash (sv_committed s)\<rparr>"

definition persistLocked :: "supervisor \<Rightarrow> error option \<times> supervisor" where
  "persistLocked s =
     (case sv_dbq s of
        False # q \<Rightarrow> (Some ErrStorage, restoreLocked (s\<lparr>sv_dbq := q\<rparr>))
      | q \<Rightarrow> (None, s\<lparr>sv_dbq := tl q, sv_committed := durable (sv_state s)\<rparr>))"

text \<open>\<^verbatim>\<open>return v, s.persistLocked(nil)\<close>.\<close>

definition persist_return :: "'a \<Rightarrow> supervisor \<Rightarrow> 'a result \<times> supervisor" where
  "persist_return v s =
     (case persistLocked s of (Some e, s') \<Rightarrow> (Inl e, s') | (None, s') \<Rightarrow> (Inr v, s'))"

text \<open>\<^verbatim>\<open>if err := s.persistLocked(nil); err != nil \<dots> return err0\<close>.\<close>

definition persist_fail :: "error \<Rightarrow> supervisor \<Rightarrow> 'a result \<times> supervisor" where
  "persist_fail e0 s =
     (case persistLocked s of (Some e, s') \<Rightarrow> (Inl e, s') | (None, s') \<Rightarrow> (Inl e0, s'))"

section \<open>Recovery\<close>

definition expire :: "mailboxmessage \<Rightarrow> mailboxmessage" where
  "expire m = (if m_Status m = ''pending'' \<or> m_Status m = ''claimed'' then m\<lparr>m_Status := ''expired''\<rparr> else m)"

definition expireMailboxLocked :: "string \<Rightarrow> supervisor \<Rightarrow> supervisor" where
  "expireMailboxLocked i s = put_mailbox i (map expire (mailbox (sv_state s) i)) s"

definition unclaim :: "mailboxmessage \<Rightarrow> mailboxmessage" where
  "unclaim m = (if m_Status m = ''claimed'' then m\<lparr>m_Status := ''pending''\<rparr> else m)"

fun assign_kernel_ids :: "string list \<Rightarrow> supervisorState \<Rightarrow> supervisorState" where
  "assign_kernel_ids [] st = st"
| "assign_kernel_ids (i # is) st =
     (case gget (s_Applications st) i of
        None \<Rightarrow> assign_kernel_ids is st
      | Some a \<Rightarrow>
          if a_KernelID a \<noteq> 0 then assign_kernel_ids is st
          else let n = s_NextKernelID st + 1
               in assign_kernel_ids is
                    (st\<lparr>s_NextKernelID := n, s_Applications := gput i (a\<lparr>a_KernelID := n\<rparr>) (s_Applications st)\<rparr>))"

text \<open>Claims of the previous incarnation are requeued, mailboxes of retired applications expired.\<close>

definition recover_mailbox :: "supervisorState \<Rightarrow> string \<Rightarrow> mailboxmessage list \<Rightarrow> mailboxmessage list" where
  "recover_mailbox st i ms =
     (case gget (s_Applications st) i of
        Some a \<Rightarrow> if a_State a = ''tombstoned'' then map expire ms else map unclaim ms
      | None \<Rightarrow> map unclaim ms)"

definition recover_mailboxes :: "supervisorState \<Rightarrow> supervisorState" where
  "recover_mailboxes st = st\<lparr>s_Mailbox := map (\<lambda>(i, ms). (i, recover_mailbox st i ms)) (s_Mailbox st)\<rparr>"

fun recover_generations :: "int \<Rightarrow> string list \<Rightarrow> supervisor \<Rightarrow> supervisor result" where
  "recover_generations now [] s = Inr s"
| "recover_generations now (i # is) s =
     (case app s i of
        None \<Rightarrow> recover_generations now is s
      | Some a \<Rightarrow>
          if a_State a = ''tombstoned'' then recover_generations now is s
          else if a_Generation a = - 1 then Inl (ErrMsg ''application generation exhausted'')
          else recover_generations now is
            (auditLocked now ''supervisor'' i ''application.recover'' i ''allow'' ''new worker incarnation''
              (put_app i (a\<lparr>a_Generation := (if a_Generation a = 0 then 1 else a_Generation a + 1)\<rparr>) s)))"

text \<open>\<^verbatim>\<open>NewSupervisor\<close> and \<^verbatim>\<open>load\<close> on the stored row, the context store and the outcomes of the
  coming writes; no stored row is the empty state.\<close>

definition load :: "int \<Rightarrow> capabilityset \<Rightarrow> supervisorState option \<Rightarrow> cstore \<Rightarrow> bool list \<Rightarrow> supervisor result" where
  "load now policy data ctxs dbq =
     (let st0 = (case data of None \<Rightarrow> empty_state | Some st \<Rightarrow> st);
          st1 = assign_kernel_ids (map fst (s_Applications st0)) st0
      in case VerifyAudit (s_Audit st1) of
           Some e \<Rightarrow> Inl e
         | None \<Rightarrow>
             (let s = \<lparr>sv_state = recover_mailboxes st1, sv_policy = policy, sv_previousHash = last_hash st1,
                       sv_committed = durable st1, sv_contexts = ctxs,
                       sv_authorizer = cedarPolicyFromCapabilitySet policy,
                       sv_kernelApps = [], sv_kernelSrcs = [], sv_lastClaim = [], sv_lastPrefix = [],
                       sv_sourced = rescanSourced st1, sv_inflight = [], sv_turnConcurrency = 0, sv_dbq = dbq\<rparr>
              in case recover_generations now (map fst (s_Applications st1)) s of
                   Inl e \<Rightarrow> Inl e
                 | Inr s1 \<Rightarrow>
                     (case persistLocked s1 of (Some e, _) \<Rightarrow> Inl e | (None, s2) \<Rightarrow> Inr s2)))"

text \<open>A crash followed by a restart: only the database and the context store survive.\<close>

definition restart :: "int \<Rightarrow> supervisor \<Rightarrow> supervisor result" where
  "restart now s = load now (sv_policy s) (Some (sv_committed s)) (sv_contexts s) (sv_dbq s)"

end
