(* ===== verification/Mailbox.thy ===== *)
theory Mailbox
  imports State
begin

text \<open>
  The durable mailbox: capacity accounting (\<^verbatim>\<open>runtime/mailbox.go\<close>), and enqueue, claim and
  acknowledge (\<^verbatim>\<open>runtime/supervisor.go\<close>, \<^verbatim>\<open>requeueClaim\<close> of \<^verbatim>\<open>runtime/runner.go\<close>,
  \<^verbatim>\<open>taintedPayload\<close> and \<^verbatim>\<open>accumulateTaint\<close> of \<^verbatim>\<open>runtime/taint.go\<close>).
\<close>

section \<open>Capacity\<close>

definition maxApplicationMailboxMessages :: nat where "maxApplicationMailboxMessages = 256"
definition maxApplicationMailboxBytes :: nat where "maxApplicationMailboxBytes = 2 * 1024 * 1024"
definition maxSupervisorMailboxMessages :: nat where "maxSupervisorMailboxMessages = 1024"
definition maxSupervisorMailboxBytes :: nat where "maxSupervisorMailboxBytes = 16 * 1024 * 1024"

record mailboxusage =
  mu_Messages :: nat
  mu_PayloadBytes :: int
  mu_MaxMessages :: nat
  mu_MaxPayloadBytes :: int

record mailboxcapacity =
  mc_Application :: mailboxusage
  mc_Supervisor :: mailboxusage

text \<open>A message is charged while it is pending or claimed.\<close>

definition active :: "mailboxmessage \<Rightarrow> bool" where
  "active m \<longleftrightarrow> m_Status m = ''pending'' \<or> m_Status m = ''claimed''"

definition usage_of :: "nat \<Rightarrow> nat \<Rightarrow> mailboxmessage list \<Rightarrow> mailboxusage" where
  "usage_of maxMessages maxBytes ms =
     \<lparr>mu_Messages = length (filter active ms),
      mu_PayloadBytes = int (sum_list (map (length \<circ> m_Payload) (filter active ms))),
      mu_MaxMessages = maxMessages, mu_MaxPayloadBytes = int maxBytes\<rparr>"

definition all_messages :: "supervisorState \<Rightarrow> mailboxmessage list" where
  "all_messages st = concat (map snd (s_Mailbox st))"

definition app_messages :: "supervisorState \<Rightarrow> string \<Rightarrow> mailboxmessage list" where
  "app_messages st i = concat (map snd (filter (\<lambda>(k, _). k = i) (s_Mailbox st)))"

definition mailboxCapacityLocked :: "supervisorState \<Rightarrow> string \<Rightarrow> mailboxcapacity" where
  "mailboxCapacityLocked st i =
     \<lparr>mc_Application = usage_of maxApplicationMailboxMessages maxApplicationMailboxBytes (app_messages st i),
      mc_Supervisor = usage_of maxSupervisorMailboxMessages maxSupervisorMailboxBytes (all_messages st)\<rparr>"

definition accepts :: "mailboxusage \<Rightarrow> nat \<Rightarrow> bool" where
  "accepts u bytes \<longleftrightarrow>
     mu_Messages u < mu_MaxMessages u \<and> int bytes \<le> mu_MaxPayloadBytes u - mu_PayloadBytes u"

definition InspectMailboxCapacity :: "supervisor \<Rightarrow> string \<Rightarrow> mailboxcapacity result" where
  "InspectMailboxCapacity s i =
     (if app s i = None then Inl ErrApplicationNotFound else Inr (mailboxCapacityLocked (sv_state s) i))"

section \<open>Enqueue\<close>

definition new_message :: "int \<Rightarrow> string \<Rightarrow> string \<Rightarrow> u64 \<Rightarrow> mailboxmessage" where
  "new_message now key payload seq =
     \<lparr>m_MessageID = ''msg-'' @ dec (unat seq), m_IdempotencyKey = key, m_Payload = payload,
      m_Status = ''pending'', m_Sequence = seq, m_CreatedAt = now, m_Attempts = 0\<rparr>"

text \<open>The record the mailbox already holds under a key, and the staging of a new one.\<close>

definition find_key :: "string \<Rightarrow> mailboxmessage list \<Rightarrow> mailboxmessage option" where
  "find_key key ms = find (\<lambda>m. m_IdempotencyKey m = key) ms"

definition stage_message :: "int \<Rightarrow> string \<Rightarrow> string \<Rightarrow> string \<Rightarrow> supervisorState \<Rightarrow> supervisorState" where
  "stage_message now i key payload st =
     (let seq = s_NextSequence st + 1
      in st\<lparr>s_NextSequence := seq,
            s_Mailbox := gput i (mailbox st i @ [new_message now key payload seq]) (s_Mailbox st)\<rparr>)"

definition enqueueLocked ::
  "int \<Rightarrow> string \<Rightarrow> string \<Rightarrow> string \<Rightarrow> string \<Rightarrow> supervisor \<Rightarrow> mailboxmessage result \<times> supervisor" where
  "enqueueLocked now princ i key payload s =
     (case app s i of
        None \<Rightarrow> (Inl ErrApplicationNotFound, s)
      | Some a \<Rightarrow>
          if retired a then (Inl ErrApplicationRetired, s)
          else if key = [] \<or> length key > 256 then (Inl (ErrMsg ''invalid idempotency key''), s)
          else if \<not> json_Valid payload \<or> length payload > 6 * maxTextBytes
          then (Inl (ErrMsg ''invalid mailbox payload''), s)
          else
            let encoded = compact False False payload
            in case find_key key (mailbox (sv_state s) i) of
                 Some m \<Rightarrow>
                   if m_Payload m \<noteq> encoded then (Inl ErrDuplicateMessage, s) else (Inr m, s)
               | None \<Rightarrow>
                   let capacity = mailboxCapacityLocked (sv_state s) i
                   in if \<not> accepts (mc_Application capacity) (length encoded)
                         \<or> \<not> accepts (mc_Supervisor capacity) (length encoded)
                      then (Inl ErrMailboxFull, s)
                      else (Inr (new_message now key encoded (s_NextSequence (sv_state s) + 1)),
                            auditLocked now princ i ''mailbox.enqueue'' key ''allow'' []
                              (on_state (stage_message now i key encoded) s)))"

definition reserved_key :: "string \<Rightarrow> bool" where
  "reserved_key key \<longleftrightarrow> hasPrefix key ''lsfs:'' \<or> hasPrefix key ''timer:'' \<or> hasPrefix key ''kernel:''"

definition Enqueue ::
  "int \<Rightarrow> string \<Rightarrow> string \<Rightarrow> string \<Rightarrow> string \<Rightarrow> supervisor \<Rightarrow> mailboxmessage result \<times> supervisor" where
  "Enqueue now princ i key payload s =
     (if reserved_key key then (Inl (ErrMsg ''reserved event idempotency key''), s)
      else if length payload > maxTextBytes then (Inl (ErrMsg ''invalid mailbox payload''), s)
      else case enqueueLocked now princ i key payload s of
        (Inl e, s1) \<Rightarrow> (Inl e, s1)
      | (Inr m, s1) \<Rightarrow>
          if s_NextSequence (sv_state s1) \<noteq> s_NextSequence (sv_state s) then persist_return m s1
          else (Inr m, s1))"

section \<open>Taint of consumed messages\<close>

definition taintedPayload :: "string \<Rightarrow> u64" where
  "taintedPayload payload = uint_field ''taint'' payload"

definition accumulateTaint :: "string \<Rightarrow> u64 \<Rightarrow> supervisor \<Rightarrow> supervisor" where
  "accumulateTaint i taint s =
     (if taint = 0 then s
      else case app s i of
        None \<Rightarrow> s
      | Some a \<Rightarrow> put_app i (a\<lparr>a_TaintBits := or (a_TaintBits a) taint\<rparr>) s)"

section \<open>Claim and acknowledge\<close>

definition claim_message :: "mailboxmessage \<Rightarrow> mailboxmessage" where
  "claim_message m = (if m_Status m = ''pending'' then m\<lparr>m_Status := ''claimed''\<rparr> else m)"

definition claimed_messages :: "mailboxmessage list \<Rightarrow> mailboxmessage list" where
  "claimed_messages ms = map claim_message (filter (\<lambda>m. m_Status m = ''pending'') ms)"

definition ClaimMailbox :: "int \<Rightarrow> string \<Rightarrow> string \<Rightarrow> supervisor \<Rightarrow> mailboxmessage list result \<times> supervisor" where
  "ClaimMailbox now princ i s =
     (case app s i of
        None \<Rightarrow> (Inl ErrApplicationNotFound, s)
      | Some a \<Rightarrow>
          if a_State a = ''tombstoned'' then (Inl ErrApplicationRetired, s)
          else
            let ms = mailbox (sv_state s) i; out = claimed_messages ms
            in if out = [] then (Inr [], s)
               else persist_return out
                 (auditLocked now princ i ''mailbox.claim'' i ''allow'' []
                   (fold (\<lambda>m. accumulateTaint i (taintedPayload (m_Payload m))) out
                     (put_mailbox i (map claim_message ms) s))))"

fun update_first :: "('a \<Rightarrow> bool) \<Rightarrow> ('a \<Rightarrow> 'a) \<Rightarrow> 'a list \<Rightarrow> 'a list" where
  "update_first P f [] = []"
| "update_first P f (x # xs) = (if P x then f x # xs else x # update_first P f xs)"

abbreviation find_message :: "string \<Rightarrow> mailboxmessage list \<Rightarrow> mailboxmessage option" where
  "find_message mid ms \<equiv> find (\<lambda>m. m_MessageID m = mid) ms"

definition set_status :: "string \<Rightarrow> string \<Rightarrow> mailboxmessage list \<Rightarrow> mailboxmessage list" where
  "set_status mid status ms = update_first (\<lambda>m. m_MessageID m = mid) (m_Status_update (\<lambda>_. status)) ms"

definition AckMailbox :: "int \<Rightarrow> string \<Rightarrow> string \<Rightarrow> string \<Rightarrow> supervisor \<Rightarrow> unit result \<times> supervisor" where
  "AckMailbox now princ i mid s =
     (let ms = mailbox (sv_state s) i
      in case find_message mid ms of
           None \<Rightarrow> (Inl (ErrMsg ''mailbox message not found''), s)
         | Some m \<Rightarrow>
             if m_Status m = ''acked'' then (Inr (), s)
             else if m_Status m \<noteq> ''claimed'' then (Inl (ErrMsg ''message is not claimed''), s)
             else persist_return ()
               (auditLocked now princ i ''mailbox.ack'' mid ''allow'' []
                 (put_mailbox i (set_status mid ''acked'' ms) s)))"

definition requeueClaim :: "int \<Rightarrow> string \<Rightarrow> string \<Rightarrow> supervisor \<Rightarrow> unit result \<times> supervisor" where
  "requeueClaim now i mid s =
     (let ms = mailbox (sv_state s) i
      in case find_message mid ms of
           None \<Rightarrow> (Inl (ErrMsg ''claimed message not found''), s)
         | Some m \<Rightarrow>
             if m_Status m \<noteq> ''claimed'' then (Inr (), s)
             else persist_return ()
               (auditLocked now ''supervisor'' i ''turn.requeue'' mid ''allow'' ''runner stopped before commit''
                 (put_mailbox i (set_status mid ''pending'' ms) s)))"

definition ListMailbox :: "supervisor \<Rightarrow> string \<Rightarrow> mailboxmessage list result" where
  "ListMailbox s i =
     (if app s i = None then Inl ErrApplicationNotFound else Inr (mailbox (sv_state s) i))"

end
