(* ===== verification/Durability.thy ===== *)
theory Durability
  imports Mailbox
begin

text \<open>
  What every operation of the supervisor keeps of the durable state, proved once.

  An operation is a sequence of small moves on the state: appending an audit record, drawing a
  sequence number, writing the database (which may fail and roll back), rolling back, noting the
  conversation a message came from, and changing
  the rest of the live state without taking anything back (\<open>quiet_le\<close>). \<open>evo n s t\<close>
  says that \<open>t\<close> is reached from \<open>s\<close> by such moves, at most \<open>n\<close> of which draw a sequence
  number. Every component shows \<open>evo\<close> for its operations (collection \<open>audited\<close>); this
  theory shows what follows: the audit chain stays valid, and every order that the moves respect
  (the locale \<open>durable_order\<close>) relates the database before to the database after.
\<close>

section \<open>Moves that take nothing back\<close>

definition spent :: "application \<Rightarrow> bool" where
  "spent a \<longleftrightarrow> a_TokenLimit a \<noteq> 0 \<and> a_TokenLimit a \<le> a_TokensUsed a"

text \<open>Tombstoned, or frozen with an exhausted budget (a budget may only narrow, so it stays so).\<close>

definition dead :: "application \<Rightarrow> bool" where
  "dead a \<longleftrightarrow> a_State a = ''tombstoned'' \<or> (a_State a = ''frozen'' \<and> spent a)"

definition bits_le :: "u64 \<Rightarrow> u64 \<Rightarrow> bool" where
  "bits_le a b \<longleftrightarrow> or a b = b"

definition limit_le :: "u64 \<Rightarrow> u64 \<Rightarrow> bool" where
  "limit_le old new \<longleftrightarrow> old \<noteq> 0 \<longrightarrow> new \<noteq> 0 \<and> new \<le> old"

definition app_le :: "application \<Rightarrow> application \<Rightarrow> bool" where
  "app_le a b \<longleftrightarrow>
     a_ApplicationID b = a_ApplicationID a \<and> a_OwnerAgent b = a_OwnerAgent a
     \<and> a_ForkParent b = a_ForkParent a \<and> a_ContextID b = a_ContextID a
     \<and> a_CreatedAt b = a_CreatedAt a
     \<and> bits_le (a_TaintBits a) (a_TaintBits b)
     \<and> a_TokensUsed a \<le> a_TokensUsed b
     \<and> limit_le (a_TokenLimit a) (a_TokenLimit b)
     \<and> (dead a \<longrightarrow> dead b)"

definition settled :: "mailboxmessage \<Rightarrow> bool" where
  "settled m \<longleftrightarrow> \<not> active m"

definition message_le :: "mailboxmessage \<Rightarrow> mailboxmessage \<Rightarrow> bool" where
  "message_le m n \<longleftrightarrow>
     m_MessageID n = m_MessageID m \<and> m_IdempotencyKey n = m_IdempotencyKey m
     \<and> m_Payload n = m_Payload m \<and> m_Sequence n = m_Sequence m \<and> m_CreatedAt n = m_CreatedAt m
     \<and> (settled m \<longrightarrow> settled n)"

text \<open>Messages keep their place; new ones come at the end.\<close>

definition messages_le :: "mailboxmessage list \<Rightarrow> mailboxmessage list \<Rightarrow> bool" where
  "messages_le ms ns \<longleftrightarrow> (\<exists>us vs. ns = us @ vs \<and> list_all2 message_le ms us)"

definition conversation_le :: "messageconversation \<Rightarrow> messageconversation \<Rightarrow> bool" where
  "conversation_le c d \<longleftrightarrow>
     cv_ChannelID d = cv_ChannelID c \<and> cv_ExternalID d = cv_ExternalID c
     \<and> cv_ApplicationID d = cv_ApplicationID c \<and> cv_LastSequence c \<le> cv_LastSequence d"

definition channel_le :: "messagechannel \<Rightarrow> messagechannel \<Rightarrow> bool" where
  "channel_le c d \<longleftrightarrow>
     ch_ChannelID d = ch_ChannelID c \<and> ch_Kind d = ch_Kind c \<and> (ch_State c \<noteq> ''active'' \<longrightarrow> ch_State d \<noteq> ''active'')"

definition binding_le :: "wakebinding \<Rightarrow> wakebinding \<Rightarrow> bool" where
  "binding_le b c \<longleftrightarrow>
     wb_BindingID c = wb_BindingID b \<and> wb_ApplicationID c = wb_ApplicationID b \<and> wb_Kind c = wb_Kind b
     \<and> wb_Ref c = wb_Ref b \<and> wb_Cursor b \<le> wb_Cursor c"

definition mount_le :: "hostfsmount \<Rightarrow> hostfsmount \<Rightarrow> bool" where
  "mount_le m n \<longleftrightarrow>
     hm_ApplicationID n = hm_ApplicationID m \<and> hm_GuestPath n = hm_GuestPath m \<and> hm_Mode n = hm_Mode m
     \<and> hm_ExpiresAt n = hm_ExpiresAt m \<and> (hm_Enabled n \<longrightarrow> hm_Enabled m)"

definition gmap_le :: "('v \<Rightarrow> 'v \<Rightarrow> bool) \<Rightarrow> 'v gomap \<Rightarrow> 'v gomap \<Rightarrow> bool" where
  "gmap_le le m n \<longleftrightarrow> (\<forall>k v. gget m k = Some v \<longrightarrow> (\<exists>w. gget n k = Some w \<and> le v w))"

definition apps_le :: "supervisorState \<Rightarrow> supervisorState \<Rightarrow> bool" where
  "apps_le st st' \<longleftrightarrow> gmap_le app_le (s_Applications st) (s_Applications st')"

definition results_le :: "supervisorState \<Rightarrow> supervisorState \<Rightarrow> bool" where
  "results_le st st' \<longleftrightarrow> gmap_le (=) (s_Results st) (s_Results st')"

definition revoked_le :: "supervisorState \<Rightarrow> supervisorState \<Rightarrow> bool" where
  "revoked_le st st' \<longleftrightarrow> (\<exists>rs. s_RevokedTokens st' = s_RevokedTokens st @ rs)"

definition mailbox_le :: "supervisorState \<Rightarrow> supervisorState \<Rightarrow> bool" where
  "mailbox_le st st' \<longleftrightarrow> (\<forall>i. messages_le (mailbox st i) (mailbox st' i))"

definition conversations_le :: "supervisorState \<Rightarrow> supervisorState \<Rightarrow> bool" where
  "conversations_le st st' \<longleftrightarrow> gmap_le conversation_le (s_Conversations st) (s_Conversations st')"

definition channels_le :: "supervisorState \<Rightarrow> supervisorState \<Rightarrow> bool" where
  "channels_le st st' \<longleftrightarrow> gmap_le channel_le (s_Channels st) (s_Channels st')"

definition bindings_le :: "supervisorState \<Rightarrow> supervisorState \<Rightarrow> bool" where
  "bindings_le st st' \<longleftrightarrow> gmap_le binding_le (s_Bindings st) (s_Bindings st')"

definition mounts_le :: "supervisorState \<Rightarrow> supervisorState \<Rightarrow> bool" where
  "mounts_le st st' \<longleftrightarrow> gmap_le mount_le (s_HostfsMounts st) (s_HostfsMounts st')"

definition audit_le :: "supervisorState \<Rightarrow> supervisorState \<Rightarrow> bool" where
  "audit_le st st' \<longleftrightarrow> (\<exists>rs. s_Audit st' = s_Audit st @ rs)"

text \<open>The mailboxes hold the same messages, each as before or further along.\<close>

definition mail_quiet :: "supervisorState \<Rightarrow> supervisorState \<Rightarrow> bool" where
  "mail_quiet st st' \<longleftrightarrow>
     (\<forall>i. list_all2 message_le (mailbox st i) (mailbox st' i))
     \<and> (distinct (map fst (s_Mailbox st)) \<longrightarrow> distinct (map fst (s_Mailbox st')))"

text \<open>The bounded histories, and the form of the records that the checks rely on: mounts have a
  canonical root, an outbox entry and a transfer are alone with their idempotency key, an
  application with its id.\<close>

definition maxWitnessCheckpoints :: nat where "maxWitnessCheckpoints = 256"
definition maxTransfers :: nat where "maxTransfers = 256"

definition mounts_ok :: "supervisorState \<Rightarrow> bool" where
  "mounts_ok st \<longleftrightarrow> (\<forall>(_, m) \<in> set (s_HostfsMounts st). cleanAbs (hm_GuestPath m))"

definition outbox_ok :: "supervisorState \<Rightarrow> bool" where
  "outbox_ok st \<longleftrightarrow> distinct (map ob_IdempotencyKey (s_Outbox st))"

definition transfer_key :: "artifacttransfer \<Rightarrow> string \<times> string" where
  "transfer_key t = (at_ApplicationID t, at_IdempotencyKey t)"

definition transfers_ok :: "supervisorState \<Rightarrow> bool" where
  "transfers_ok st \<longleftrightarrow> distinct (map transfer_key (s_Transfers st))"

definition bounded :: "supervisorState \<Rightarrow> bool" where
  "bounded st \<longleftrightarrow>
     length (s_RouteRecords st) \<le> maxRouteRecords
     \<and> length (s_RevokedTokens st) \<le> maxRevokedTokens
     \<and> length (s_WitnessCheckpoints st) \<le> maxWitnessCheckpoints
     \<and> length (s_Transfers st) \<le> maxTransfers
     \<and> mounts_ok st \<and> outbox_ok st \<and> transfers_ok st
     \<and> distinct (map fst (s_Applications st))"

lemmas bounded_parts = bounded_def mounts_ok_def outbox_ok_def transfers_ok_def

text \<open>A mount's id carries the sequence number drawn for it.\<close>

definition mount_ids :: "supervisorState \<Rightarrow> bool" where
  "mount_ids st \<longleftrightarrow>
     (\<forall>k \<in> set (map fst (s_HostfsMounts st)). \<exists>n \<le> unat (s_NextSequence st). k = ''mnt-'' @ dec n)"

definition quiet_le :: "supervisorState \<Rightarrow> supervisorState \<Rightarrow> bool" where
  "quiet_le st st' \<longleftrightarrow>
     s_Audit st' = s_Audit st \<and> s_NextSequence st' = s_NextSequence st
     \<and> apps_le st st' \<and> results_le st st' \<and> revoked_le st st' \<and> mail_quiet st st'
     \<and> conversations_le st st' \<and> channels_le st st' \<and> bindings_le st st' \<and> mounts_le st st'
     \<and> (bounded st \<longrightarrow> bounded st') \<and> (mount_ids st \<longrightarrow> mount_ids st')"

subsection \<open>They are preorders\<close>

lemma bits_le_refl [simp]: "bits_le a a"
  by (simp add: bits_le_def)

lemma bits_le_trans: "bits_le a b \<Longrightarrow> bits_le b c \<Longrightarrow> bits_le a c"
  unfolding bits_le_def using or.assoc [of a b c] by simp

lemma bits_le_or [simp]: "bits_le a (or a b)" "bits_le a (or b a)"
  by (simp_all add: bits_le_def or.commute [of b a])

lemma limit_le_refl [simp]: "limit_le a a"
  by (simp add: limit_le_def)

lemma limit_le_trans: "limit_le a b \<Longrightarrow> limit_le b c \<Longrightarrow> limit_le a c"
  by (auto simp: limit_le_def)

lemma app_le_refl [simp]: "app_le a a"
  by (simp add: app_le_def)

lemma app_le_trans: "app_le a b \<Longrightarrow> app_le b c \<Longrightarrow> app_le a c"
  by (auto simp: app_le_def intro: bits_le_trans limit_le_trans)

lemma message_le_refl [simp]: "message_le m m"
  by (simp add: message_le_def)

lemma message_le_trans: "message_le a b \<Longrightarrow> message_le b c \<Longrightarrow> message_le a c"
  by (simp add: message_le_def)

lemma messages_le_refl [simp]: "messages_le ms ms"
  unfolding messages_le_def by (rule exI [of _ ms], rule exI [of _ "[]"]) (simp add: list_all2_same)

lemma messages_le_append [simp]: "messages_le ms (ms @ ns)"
  unfolding messages_le_def by (rule exI [of _ ms]) (simp add: list_all2_same)

lemma messages_le_map: "(\<And>m. m \<in> set ms \<Longrightarrow> message_le m (f m)) \<Longrightarrow> messages_le ms (map f ms)"
  unfolding messages_le_def
  by (rule exI [of _ "map f ms"], rule exI [of _ "[]"]) (auto simp: list_all2_map2 intro: list_all2_refl list.rel_refl_strong)

lemma all2_message_le_trans:
  "list_all2 message_le as bs \<Longrightarrow> list_all2 message_le bs cs \<Longrightarrow> list_all2 message_le as cs"
  using list_all2_trans [of message_le message_le message_le as bs cs] message_le_trans by blast

lemma messages_le_trans:
  assumes "messages_le as bs" and "messages_le bs cs"
  shows "messages_le as cs"
proof -
  from assms(1) obtain us vs where b: "bs = us @ vs" "list_all2 message_le as us"
    by (auto simp: messages_le_def)
  from assms(2) obtain xs ys where c: "cs = xs @ ys" "list_all2 message_le (us @ vs) xs"
    by (auto simp: messages_le_def b)
  from c(2) obtain x1 x2 where "xs = x1 @ x2" "list_all2 message_le us x1"
    by (auto simp: list_all2_append1)
  then have "list_all2 message_le as x1" and "cs = x1 @ (x2 @ ys)"
    using b(2) c(1) by (auto intro: all2_message_le_trans)
  then show ?thesis unfolding messages_le_def by blast
qed

lemma gmap_le_refl: "(\<And>v. le v v) \<Longrightarrow> gmap_le le m m"
  by (simp add: gmap_le_def)

lemma gmap_le_trans:
  "(\<And>u v w. le u v \<Longrightarrow> le v w \<Longrightarrow> le u w) \<Longrightarrow> gmap_le le m n \<Longrightarrow> gmap_le le n p \<Longrightarrow> gmap_le le m p"
  unfolding gmap_le_def by fast

lemma gmap_le_gput:
  "(\<And>v. le v v) \<Longrightarrow> (\<And>v. gget m k = Some v \<Longrightarrow> le v w) \<Longrightarrow> gmap_le le m (gput k w m)"
  by (simp add: gmap_le_def)

lemmas order_parts = apps_le_def results_le_def revoked_le_def mailbox_le_def conversations_le_def
  channels_le_def bindings_le_def mounts_le_def

lemma conversation_le_refl [simp]: "conversation_le c c"
  by (simp add: conversation_le_def)

lemma conversation_le_trans: "conversation_le a b \<Longrightarrow> conversation_le b c \<Longrightarrow> conversation_le a c"
  by (simp add: conversation_le_def)

lemma apps_le_refl [simp]: "apps_le st st"
  by (simp add: apps_le_def gmap_le_refl)

lemma apps_le_trans: "apps_le a b \<Longrightarrow> apps_le b c \<Longrightarrow> apps_le a c"
  unfolding apps_le_def by (rule gmap_le_trans) (blast intro: app_le_trans)

lemma results_le_refl [simp]: "results_le st st"
  by (simp add: results_le_def gmap_le_refl)

lemma results_le_trans: "results_le a b \<Longrightarrow> results_le b c \<Longrightarrow> results_le a c"
  unfolding results_le_def by (rule gmap_le_trans) blast

lemma revoked_le_refl [simp]: "revoked_le st st"
  by (simp add: revoked_le_def)

lemma revoked_le_trans: "revoked_le a b \<Longrightarrow> revoked_le b c \<Longrightarrow> revoked_le a c"
  by (auto simp: revoked_le_def)

lemma mailbox_le_refl [simp]: "mailbox_le st st"
  by (simp add: mailbox_le_def)

lemma mailbox_le_trans: "mailbox_le a b \<Longrightarrow> mailbox_le b c \<Longrightarrow> mailbox_le a c"
  unfolding mailbox_le_def by (blast intro: messages_le_trans)

lemma conversations_le_refl [simp]: "conversations_le st st"
  by (simp add: conversations_le_def gmap_le_refl)

lemma conversations_le_trans: "conversations_le a b \<Longrightarrow> conversations_le b c \<Longrightarrow> conversations_le a c"
  unfolding conversations_le_def by (rule gmap_le_trans) (blast intro: conversation_le_trans)

lemma channel_le_refl [simp]: "channel_le c c"
  by (simp add: channel_le_def)

lemma binding_le_refl [simp]: "binding_le b b"
  by (simp add: binding_le_def)

lemma mount_le_refl [simp]: "mount_le m m"
  by (simp add: mount_le_def)

lemma more_le_refl [simp]: "channels_le st st" "bindings_le st st" "mounts_le st st"
  by (simp_all add: channels_le_def bindings_le_def mounts_le_def gmap_le_refl)

lemma channels_le_trans: "channels_le a b \<Longrightarrow> channels_le b c \<Longrightarrow> channels_le a c"
  unfolding channels_le_def by (rule gmap_le_trans) (auto simp: channel_le_def)

lemma bindings_le_trans: "bindings_le a b \<Longrightarrow> bindings_le b c \<Longrightarrow> bindings_le a c"
  unfolding bindings_le_def by (rule gmap_le_trans) (auto simp: binding_le_def)

lemma mounts_le_trans: "mounts_le a b \<Longrightarrow> mounts_le b c \<Longrightarrow> mounts_le a c"
  unfolding mounts_le_def by (rule gmap_le_trans) (auto simp: mount_le_def)

lemma audit_le_refl [simp]: "audit_le st st"
  by (simp add: audit_le_def)

lemma audit_le_trans: "audit_le a b \<Longrightarrow> audit_le b c \<Longrightarrow> audit_le a c"
  by (auto simp: audit_le_def)

lemma mail_quiet_refl [simp]: "mail_quiet st st"
  by (simp add: mail_quiet_def list_all2_same)

lemma mail_quiet_trans: "mail_quiet a b \<Longrightarrow> mail_quiet b c \<Longrightarrow> mail_quiet a c"
  unfolding mail_quiet_def by (meson all2_message_le_trans)

lemma mail_quiet_le: "mail_quiet st st' \<Longrightarrow> mailbox_le st st'"
  unfolding mail_quiet_def mailbox_le_def messages_le_def by (metis append_Nil2)

lemma quiet_le_refl [simp]: "quiet_le st st"
  by (simp add: quiet_le_def)

lemma quiet_le_trans: "quiet_le a b \<Longrightarrow> quiet_le b c \<Longrightarrow> quiet_le a c"
  unfolding quiet_le_def
  by (auto intro: apps_le_trans results_le_trans revoked_le_trans mail_quiet_trans conversations_le_trans
      channels_le_trans bindings_le_trans mounts_le_trans)

section \<open>Sequences of moves\<close>

definition bumpSequence :: "supervisor \<Rightarrow> supervisor" where
  "bumpSequence s = on_state (s_NextSequence_update (\<lambda>n. n + 1)) s"

inductive evo :: "nat \<Rightarrow> supervisor \<Rightarrow> supervisor \<Rightarrow> bool" where
  start: "evo n s s"
| audit: "evo n s t \<Longrightarrow> n < m \<Longrightarrow> evo m s (auditLocked now princ aid action object decision reason t)"
| bump: "evo n s t \<Longrightarrow> n < m \<Longrightarrow> evo m s (bumpSequence t)"
| enqueue: "evo n s t \<Longrightarrow> n + 1 < m \<Longrightarrow> evo m s (snd (enqueueLocked now princ i key payload t))"
| change: "evo n s t \<Longrightarrow> quiet_le (sv_state t) (sv_state u) \<Longrightarrow> sv_committed u = sv_committed t
           \<Longrightarrow> sv_previousHash u = sv_previousHash t \<Longrightarrow> sv_sourced u = sv_sourced t \<Longrightarrow> evo n s u"
| source: "evo n s t \<Longrightarrow> m \<in> set (mailbox (sv_state t) i) \<Longrightarrow> message_source (sv_state t) i m = Some key
           \<Longrightarrow> evo n s (t\<lparr>sv_sourced := gput (m_MessageID m) key (sv_sourced t)\<rparr>)"
| persist: "evo n s t \<Longrightarrow> evo n s (snd (persistLocked t))"
| restore: "evo n s t \<Longrightarrow> evo n s (restoreLocked t)"

lemma evo_mono: "evo n s t \<Longrightarrow> n \<le> m \<Longrightarrow> evo m s t"
proof (induction arbitrary: m rule: evo.induct)
  case (audit n s t k now princ aid action object decision reason)
  then show ?case using evo.audit [of n s t m] by auto
next
  case (bump n s t k)
  then show ?case using evo.bump [of n s t m] by auto
next
  case (enqueue n s t k now princ i key payload)
  then show ?case using evo.enqueue [of n s t m] by auto
qed (auto intro: evo.intros)

lemma evo_trans: "evo n t u \<Longrightarrow> evo m s t \<Longrightarrow> evo (m + n) s u"
proof (induction arbitrary: rule: evo.induct)
  case (start n s')
  then show ?case by (auto intro: evo_mono)
next
  case (audit n s' t k now princ aid action object decision reason)
  then show ?case using evo.audit [of "m + n" s t "m + k"] by simp
next
  case (bump n s' t k)
  then show ?case using evo.bump [of "m + n" s t "m + k"] by simp
next
  case (enqueue n s' t k now princ i key payload)
  then show ?case using evo.enqueue [of "m + n" s t "m + k"] by simp
qed (auto intro: evo.intros)

section \<open>The audit chain\<close>

definition top_sequence :: "supervisor \<Rightarrow> nat" where
  "top_sequence s = max (unat (s_NextSequence (sv_state s))) (unat (s_NextSequence (sv_committed s)))"

definition chain_ok :: "supervisorState \<Rightarrow> bool" where
  "chain_ok st \<longleftrightarrow> verify_audit_from [] 0 (s_Audit st)
     \<and> (\<forall>r \<in> set (s_Audit st). au_Sequence r \<le> s_NextSequence st)"

definition audit_inv :: "supervisor \<Rightarrow> bool" where
  "audit_inv s \<longleftrightarrow> chain_ok (sv_state s) \<and> chain_ok (sv_committed s)
     \<and> sv_previousHash s = last_hash (sv_state s)"

lemma verify_audit_from_append:
  "verify_audit_from p q (rs @ [r]) \<longleftrightarrow>
     verify_audit_from p q rs
     \<and> (if rs = [] then q else au_Sequence (last rs)) < au_Sequence r
     \<and> au_PreviousHash r = (if rs = [] then p else au_Hash (last rs))
     \<and> au_Hash r = auditHash r"
  by (induction rs arbitrary: p q) auto

lemma durable_simps [simp]:
  "s_Audit (durable st) = s_Audit st" "s_NextSequence (durable st) = s_NextSequence st"
  "s_Applications (durable st) = s_Applications st" "s_Mailbox (durable st) = s_Mailbox st"
  "s_Results (durable st) = s_Results st" "s_RevokedTokens (durable st) = s_RevokedTokens st"
  "s_Conversations (durable st) = s_Conversations st" "s_Prepared (durable st) = s_Prepared st"
  "s_Confirmations (durable st) = s_Confirmations st" "s_Bindings (durable st) = s_Bindings st"
  "s_RouteRecords (durable st) = s_RouteRecords st" "s_Outbox (durable st) = s_Outbox st"
  "s_WitnessCheckpoints (durable st) = s_WitnessCheckpoints st" "s_Channels (durable st) = s_Channels st"
  "s_HostfsMounts (durable st) = s_HostfsMounts st" "s_NextKernelID (durable st) = s_NextKernelID st"
  "mailbox (durable st) i = mailbox st i"
  by (simp_all add: durable_def mailbox_def)

lemma durable_transfers: "map transfer_key (s_Transfers (durable st)) = map transfer_key (s_Transfers st)"
  by (simp add: durable_def transfer_key_def)

lemma durable_quiet [simp]: "quiet_le st (durable st)" "quiet_le (durable st) st"
  using durable_transfers [of st] map_eq_imp_length_eq [OF durable_transfers [of st]]
  by (simp_all add: quiet_le_def order_parts gmap_le_refl mail_quiet_def list_all2_same bounded_def
      mounts_ok_def outbox_ok_def transfers_ok_def mount_ids_def)

lemma chain_ok_durable [simp]: "chain_ok (durable st) \<longleftrightarrow> chain_ok st"
  by (simp add: chain_ok_def)

lemma last_hash_durable [simp]: "last_hash (durable st) = last_hash st"
  by (simp add: last_hash_def)

lemma persistLocked_cases:
  obtains (fail) q where "persistLocked s = (Some ErrStorage, restoreLocked (s\<lparr>sv_dbq := q\<rparr>))"
  | (ok) q where "persistLocked s = (None, s\<lparr>sv_dbq := q, sv_committed := durable (sv_state s)\<rparr>)"
proof (cases "sv_dbq s")
  case Nil
  then show ?thesis by (intro ok [of "[]"]) (simp add: persistLocked_def)
next
  case (Cons b q)
  then show ?thesis by (cases b) (auto simp: persistLocked_def intro: ok [of q] fail [of q])
qed

lemma unat_Suc_u64: "unat (n :: u64) + 1 < 2 ^ 64 \<Longrightarrow> unat (n + 1) = unat n + 1"
  by (subst unat_add_lem [THEN iffD1]) simp_all

lemma next_record_simps [simp]:
  "au_Sequence (next_record now princ aid action object decision reason s) = s_NextSequence (sv_state s) + 1"
  "au_PreviousHash (next_record now princ aid action object decision reason s) = sv_previousHash s"
  "au_Hash (next_record now princ aid action object decision reason s)
     = auditHash (next_record now princ aid action object decision reason s)"
  by (simp_all add: next_record_def Let_def auditHash_def)

lemma auditLocked_simps [simp]:
  "s_Audit (sv_state (auditLocked now princ aid action object decision reason s))
     = s_Audit (sv_state s) @ [next_record now princ aid action object decision reason s]"
  "s_NextSequence (sv_state (auditLocked now princ aid action object decision reason s))
     = s_NextSequence (sv_state s) + 1"
  "sv_previousHash (auditLocked now princ aid action object decision reason s)
     = au_Hash (next_record now princ aid action object decision reason s)"
  "sv_committed (auditLocked now princ aid action object decision reason s) = sv_committed s"
  by (simp_all add: auditLocked_def Let_def)

text \<open>An enqueue either leaves the state alone or stages one message and audits it.\<close>

lemma enqueueLocked_cases:
  obtains (same) "snd (enqueueLocked now princ i key payload s) = s"
  | (staged) a encoded where "app s i = Some a" "\<not> retired a"
      "encoded = compact False False payload" "find_key key (mailbox (sv_state s) i) = None"
      "accepts (mc_Application (mailboxCapacityLocked (sv_state s) i)) (length encoded)"
      "accepts (mc_Supervisor (mailboxCapacityLocked (sv_state s) i)) (length encoded)"
      "snd (enqueueLocked now princ i key payload s) =
         auditLocked now princ i ''mailbox.enqueue'' key ''allow'' [] (on_state (stage_message now i key encoded) s)"
  by (fastforce simp: enqueueLocked_def Let_def split: option.splits if_splits)

lemma chain_ok_bump:
  assumes "chain_ok st" and "unat (s_NextSequence st) + 1 < 2 ^ 64"
  shows "chain_ok (s_NextSequence_update (\<lambda>n. n + 1) st)"
proof -
  have "s_NextSequence st \<le> s_NextSequence st + 1"
    using unat_Suc_u64 [OF assms(2)] by (simp add: word_le_nat_alt)
  then show ?thesis using assms(1) by (auto simp: chain_ok_def intro: order.trans)
qed

lemma audit_inv_auditLocked:
  assumes "audit_inv s" and "unat (s_NextSequence (sv_state s)) + 1 < 2 ^ 64"
  shows "audit_inv (auditLocked now princ aid action object decision reason s)"
proof -
  let ?n = "s_NextSequence (sv_state s)"
  have lt: "?n < ?n + 1" using unat_Suc_u64 [OF assms(2)] by (simp add: word_less_nat_alt)
  have last: "(if s_Audit (sv_state s) = [] then 0 else au_Sequence (last (s_Audit (sv_state s)))) < ?n + 1"
    using assms(1) lt word_neq_0_conv
    by (auto simp: audit_inv_def chain_ok_def intro: le_less_trans [OF _ lt])
  show ?thesis
    using assms(1) lt last
    by (auto simp: audit_inv_def chain_ok_def verify_audit_from_append last_hash_def
        intro: order.trans [OF _ less_imp_le [OF lt]]
        split: if_splits)
qed

lemma evo_audit_inv:
  assumes "evo n s t" and "audit_inv s" and "top_sequence s + n < 2 ^ 64"
  shows "audit_inv t \<and> top_sequence t \<le> top_sequence s + n"
  using assms
proof (induction rule: evo.induct)
  case (audit n s t m now princ aid action object decision reason)
  then have IH: "audit_inv t" "top_sequence t \<le> top_sequence s + n" by simp_all
  then have room: "unat (s_NextSequence (sv_state t)) + 1 < 2 ^ 64"
    using audit by (simp add: top_sequence_def)
  show ?case
    using audit_inv_auditLocked [OF IH(1) room] IH(2) audit unat_Suc_u64 [OF room]
    by (auto simp: top_sequence_def)
next
  case (bump n s t m)
  then have IH: "audit_inv t" "top_sequence t \<le> top_sequence s + n" by simp_all
  then have room: "unat (s_NextSequence (sv_state t)) + 1 < 2 ^ 64"
    using bump by (simp add: top_sequence_def)
  show ?case
    using chain_ok_bump [OF _ room] IH bump unat_Suc_u64 [OF room]
    by (auto simp: top_sequence_def audit_inv_def bumpSequence_def last_hash_def)
next
  case (enqueue n s t m now princ i key payload)
  then have IH: "audit_inv t" "top_sequence t \<le> top_sequence s + n" by simp_all
  show ?case
  proof (cases now princ i key payload t rule: enqueueLocked_cases)
    case same
    then show ?thesis using IH enqueue by simp
  next
    case (staged a encoded)
    let ?u = "on_state (stage_message now i key encoded) t"
    have room: "unat (s_NextSequence (sv_state t)) + 1 < 2 ^ 64"
      using IH enqueue by (simp add: top_sequence_def)
    have u: "s_Audit (stage_message now i key encoded (sv_state t)) = s_Audit (sv_state t)"
        "s_NextSequence (stage_message now i key encoded (sv_state t)) = s_NextSequence (sv_state t) + 1"
      by (simp_all add: stage_message_def Let_def)
    have inv: "audit_inv ?u"
      using chain_ok_bump [OF _ room] IH(1) u by (simp add: audit_inv_def chain_ok_def last_hash_def)
    have room': "unat (s_NextSequence (sv_state ?u)) + 1 < 2 ^ 64"
      using IH enqueue unat_Suc_u64 [OF room] by (simp add: u top_sequence_def)
    show ?thesis
      using audit_inv_auditLocked [OF inv room'] IH(2) enqueue unat_Suc_u64 [OF room] unat_Suc_u64 [OF room']
      unfolding staged(7) by (auto simp: top_sequence_def u)
  qed
next
  case (change n s t u)
  then show ?case
    by (auto simp: audit_inv_def chain_ok_def top_sequence_def last_hash_def quiet_le_def)
next
  case (persist n s t)
  then show ?case
    by (cases t rule: persistLocked_cases)
      (auto simp: audit_inv_def top_sequence_def restoreLocked_def)
next
  case (restore n s t)
  then show ?case by (auto simp: audit_inv_def top_sequence_def restoreLocked_def)
qed (simp_all add: audit_inv_def top_sequence_def)

section \<open>Orders the moves respect\<close>

text \<open>An order on states that every move of the live state respects relates the database before
  an operation to the database after it: a write that fails and a rollback lose only what was
  never in the database.\<close>

locale durable_order =
  fixes le :: "supervisorState \<Rightarrow> supervisorState \<Rightarrow> bool"
  assumes le_refl: "le st st"
    and le_trans: "le a b \<Longrightarrow> le b c \<Longrightarrow> le a c"
    and le_quiet: "quiet_le a b \<Longrightarrow> le a b"
    and le_audit: "le st (st\<lparr>s_NextSequence := n, s_Audit := s_Audit st @ rs\<rparr>)"
    and le_stage: "le st (stage_message now i key payload st)"
begin

definition ahead :: "supervisor \<Rightarrow> bool" where
  "ahead s \<longleftrightarrow> le (sv_committed s) (sv_state s)"

lemma le_bump: "le st (s_NextSequence_update f st)"
  using le_audit [where st = st and rs = "[]" and n = "f (s_NextSequence st)"] by (cases st) simp

lemma le_auditLocked:
  "le (sv_state t) (sv_state (auditLocked now princ aid action object decision reason t))"
  using le_audit [where st = "sv_state t"] by (simp add: auditLocked_def Let_def)

lemma evo_le:
  assumes "evo n s t" and "ahead s"
  shows "le (sv_committed s) (sv_committed t) \<and> ahead t"
  using assms
proof (induction rule: evo.induct)
  case (start n s)
  then show ?case by (simp add: le_refl)
next
  case (audit n s t m now princ aid action object decision reason)
  then have "le (sv_committed t) (sv_state t)" by (simp add: ahead_def)
  from le_trans [OF this le_auditLocked] audit show ?case
    by (simp add: ahead_def)
next
  case (bump n s t m)
  then have "le (sv_committed t) (sv_state t)" by (simp add: ahead_def)
  from le_trans [OF this le_bump] bump show ?case
    by (simp add: ahead_def bumpSequence_def)
next
  case (enqueue n s t m now princ i key payload)
  then have IH: "le (sv_committed s) (sv_committed t)" "le (sv_committed t) (sv_state t)"
    by (simp_all add: ahead_def)
  show ?case
  proof (cases now princ i key payload t rule: enqueueLocked_cases)
    case (staged a encoded)
    have "le (sv_state t) (sv_state (on_state (stage_message now i key encoded) t))"
      by (simp add: le_stage)
    from le_trans [OF le_trans [OF IH(2) this] le_auditLocked] IH(1) show ?thesis
      unfolding staged(7) by (simp add: ahead_def)
  qed (simp add: IH ahead_def)
next
  case (change n s t u)
  then show ?case using le_trans le_quiet unfolding ahead_def by metis
next
  case (persist n s t)
  then have IH: "le (sv_committed s) (sv_committed t)" "le (sv_committed t) (sv_state t)"
    by (simp_all add: ahead_def)
  have d: "le (sv_state t) (durable (sv_state t))" "le (durable (sv_state t)) (sv_state t)"
    by (auto intro: le_quiet)
  show ?case
    using IH d by (cases t rule: persistLocked_cases)
      (auto simp: ahead_def restoreLocked_def le_refl intro: le_trans)
next
  case (restore n s t)
  then show ?case by (simp add: ahead_def restoreLocked_def le_refl)
qed (simp add: ahead_def)

end

lemma auditLocked_parts [simp]:
  "apps_le st (st\<lparr>s_NextSequence := n, s_Audit := rs\<rparr>)"
  "results_le st (st\<lparr>s_NextSequence := n, s_Audit := rs\<rparr>)"
  "revoked_le st (st\<lparr>s_NextSequence := n, s_Audit := rs\<rparr>)"
  "mailbox_le st (st\<lparr>s_NextSequence := n, s_Audit := rs\<rparr>)"
  "conversations_le st (st\<lparr>s_NextSequence := n, s_Audit := rs\<rparr>)"
  "channels_le st (st\<lparr>s_NextSequence := n, s_Audit := rs\<rparr>)"
  "bindings_le st (st\<lparr>s_NextSequence := n, s_Audit := rs\<rparr>)"
  "mounts_le st (st\<lparr>s_NextSequence := n, s_Audit := rs\<rparr>)"
  by (simp_all add: order_parts gmap_le_refl mailbox_def)

lemma stage_message_parts [simp]:
  "apps_le st (stage_message now i key payload st)"
  "results_le st (stage_message now i key payload st)"
  "revoked_le st (stage_message now i key payload st)"
  "mailbox_le st (stage_message now i key payload st)"
  "conversations_le st (stage_message now i key payload st)"
  "channels_le st (stage_message now i key payload st)"
  "bindings_le st (stage_message now i key payload st)"
  "mounts_le st (stage_message now i key payload st)"
  "audit_le st (stage_message now i key payload st)"
  by (simp_all add: order_parts audit_le_def gmap_le_refl mailbox_def stage_message_def Let_def)

interpretation appsOrder: durable_order apps_le
  by unfold_locales (auto simp: quiet_le_def intro: apps_le_trans)

interpretation resultsOrder: durable_order results_le
  by unfold_locales (auto simp: quiet_le_def intro: results_le_trans)

interpretation revokedOrder: durable_order revoked_le
  by unfold_locales (auto simp: quiet_le_def intro: revoked_le_trans)

interpretation mailboxOrder: durable_order mailbox_le
  by unfold_locales (auto simp: quiet_le_def intro: mailbox_le_trans mail_quiet_le)

interpretation conversationsOrder: durable_order conversations_le
  by unfold_locales (auto simp: quiet_le_def intro: conversations_le_trans)

interpretation channelsOrder: durable_order channels_le
  by unfold_locales (auto simp: quiet_le_def intro: channels_le_trans)

interpretation bindingsOrder: durable_order bindings_le
  by unfold_locales (auto simp: quiet_le_def intro: bindings_le_trans)

interpretation mountsOrder: durable_order mounts_le
  by unfold_locales (auto simp: quiet_le_def intro: mounts_le_trans)

interpretation auditOrder: durable_order audit_le
proof
  fix st :: supervisorState and n rs
  show "audit_le st (st\<lparr>s_NextSequence := n, s_Audit := s_Audit st @ rs\<rparr>)"
    by (simp add: audit_le_def)
next
  fix a b :: supervisorState
  show "quiet_le a b \<Longrightarrow> audit_le a b" by (simp add: quiet_le_def audit_le_def)
qed (auto intro: audit_le_trans)

section \<open>Rules for operations\<close>

lemma evo_auditI: "evo (n - 1) s t \<Longrightarrow> 0 < n \<Longrightarrow> evo n s (auditLocked now princ aid action object decision reason t)"
  by (rule evo.audit [of "n - 1"]) auto

lemma evo_bumpI: "evo (n - 1) s t \<Longrightarrow> 0 < n \<Longrightarrow> evo n s (bumpSequence t)"
  by (rule evo.bump [of "n - 1"]) auto

lemma evo_enqueueI:
  "evo (n - 2) s t \<Longrightarrow> 1 < n \<Longrightarrow> evo n s (snd (enqueueLocked now princ i key payload t))"
  by (rule evo.enqueue [of "n - 2"]) auto

lemma evo_return: "evo n s t \<Longrightarrow> evo n s (snd (persist_return v t))"
  using evo.persist [of n s t] by (auto simp: persist_return_def split: prod.splits option.splits)

lemma evo_fail: "evo n s t \<Longrightarrow> evo n s (snd (persist_fail e t))"
  using evo.persist [of n s t] by (auto simp: persist_fail_def split: prod.splits option.splits)

lemma evo_persisted: "evo n s t \<Longrightarrow> persistLocked t = (e, u) \<Longrightarrow> evo n s u"
  using evo.persist [of n s t] by simp

lemma evo_state:
  "evo n s t \<Longrightarrow> quiet_le (sv_state t) st \<Longrightarrow> evo n s (t\<lparr>sv_state := st\<rparr>)"
  by (rule evo.change) auto

lemmas evo_intros = evo_return evo_fail evo_auditI evo_bumpI evo_state evo.start

text \<open>Fields whose change is always a quiet one, and the quiet changes of the others.\<close>

lemmas quiet_parts = quiet_le_def order_parts mail_quiet_def mailbox_def bounded_def gmap_le_refl list_all2_same
  mounts_ok_def outbox_ok_def transfers_ok_def mount_ids_def

lemma quiet_fields [simp, intro]:
  "quiet_le st (s_Timers_update f st)" "quiet_le st (s_Prepared_update f2 st)"
  "quiet_le st (s_KernelPending_update f3 st)" "quiet_le st (s_NextKernelID_update f4 st)"
  "quiet_le st (s_Confirmations_update f5 st)"
  by (simp_all add: quiet_parts)

lemma quiet_channel:
  "(\<And>c. gget (s_Channels st) k = Some c \<Longrightarrow> channel_le c d) \<Longrightarrow>
     quiet_le st (s_Channels_update (gput k d) st)"
  by (simp add: quiet_parts gmap_le_gput)

lemma quiet_bindings:
  "gmap_le binding_le (s_Bindings st) (f (s_Bindings st)) \<Longrightarrow> quiet_le st (s_Bindings_update f st)"
  by (simp add: quiet_parts)

lemma quiet_outbox:
  "(outbox_ok st \<Longrightarrow> distinct (map ob_IdempotencyKey (f (s_Outbox st)))) \<Longrightarrow> quiet_le st (s_Outbox_update f st)"
  by (simp add: quiet_parts)

lemma quiet_mount:
  assumes "cleanAbs (hm_GuestPath m)" and "\<And>old. gget (s_HostfsMounts st) k = Some old \<Longrightarrow> mount_le old m"
    and "k \<in> set (map fst (s_HostfsMounts st)) \<or> k = ''mnt-'' @ dec (unat (s_NextSequence st))"
  shows "quiet_le st (s_HostfsMounts_update (gput k m) st)"
  using assms by (auto simp: quiet_parts gmap_le_gput dest!: gput_entries)

lemma quiet_app:
  "(\<And>b. gget (s_Applications st) i = Some b \<Longrightarrow> app_le b a) \<Longrightarrow>
     quiet_le st (s_Applications_update (gput i a) st)"
  by (simp add: quiet_parts gmap_le_gput distinct_update)

lemma quiet_mailbox:
  "list_all2 message_le (mailbox st i) ms \<Longrightarrow> quiet_le st (s_Mailbox_update (gput i ms) st)"
  by (simp add: quiet_parts gmap_le_gput distinct_update)

lemma quiet_result:
  "gget (s_Results st) k = None \<Longrightarrow> quiet_le st (s_Results_update (gput k r) st)"
  by (auto simp: quiet_parts gmap_le_def)

lemma quiet_conversation:
  "(\<And>c. gget (s_Conversations st) k = Some c \<Longrightarrow> conversation_le c d) \<Longrightarrow>
     quiet_le st (s_Conversations_update (gput k d) st)"
  by (simp add: quiet_parts gmap_le_gput)

lemma all2_map_message: "(\<And>m. m \<in> set ms \<Longrightarrow> message_le m (f m)) \<Longrightarrow> list_all2 message_le ms (map f ms)"
  by (simp add: list_all2_conv_all_nth)

lemma all2_update_first:
  "(\<And>m. find P ms = Some m \<Longrightarrow> message_le m (f m)) \<Longrightarrow> list_all2 message_le ms (update_first P f ms)"
  by (induction ms) (auto simp: list_all2_same)

end
