(* ===== verification/Capacity.thy ===== *)
theory Capacity
  imports Durability
begin

text \<open>
  Invariants of the mailboxes that every sequence of moves keeps: the charged messages stay within
  the capacity of the application and of the supervisor; message ids are unique across all
  mailboxes and idempotency keys unique within one.
\<close>

section \<open>Charges\<close>

definition charged_count :: "mailboxmessage list \<Rightarrow> nat" where
  "charged_count ms = length (filter active ms)"

definition charged_bytes :: "mailboxmessage list \<Rightarrow> nat" where
  "charged_bytes ms = sum_list (map (length \<circ> m_Payload) (filter active ms))"

definition cap_ok :: "supervisorState \<Rightarrow> bool" where
  "cap_ok st \<longleftrightarrow>
     distinct (map fst (s_Mailbox st))
     \<and> (\<forall>i. charged_count (mailbox st i) \<le> maxApplicationMailboxMessages
           \<and> charged_bytes (mailbox st i) \<le> maxApplicationMailboxBytes)
     \<and> charged_count (all_messages st) \<le> maxSupervisorMailboxMessages
     \<and> charged_bytes (all_messages st) \<le> maxSupervisorMailboxBytes"

lemma charged_append [simp]:
  "charged_count (ms @ ns) = charged_count ms + charged_count ns"
  "charged_bytes (ms @ ns) = charged_bytes ms + charged_bytes ns"
  by (simp_all add: charged_count_def charged_bytes_def)

lemma charged_Nil [simp]: "charged_count [] = 0" "charged_bytes [] = 0"
  by (simp_all add: charged_count_def charged_bytes_def)

lemma charged_new [simp]:
  "charged_count [new_message now key payload seq] = 1"
  "charged_bytes [new_message now key payload seq] = length payload"
  by (simp_all add: charged_count_def charged_bytes_def active_def new_message_def)

lemma message_le_active: "message_le m n \<Longrightarrow> active n \<Longrightarrow> active m"
  by (auto simp: message_le_def settled_def)

lemma charged_mono:
  assumes "list_all2 message_le ms ns"
  shows "charged_count ns \<le> charged_count ms" and "charged_bytes ns \<le> charged_bytes ms"
  using assms
  by (induction rule: list_all2_induct)
    (auto simp: charged_count_def charged_bytes_def message_le_def settled_def)

text \<open>A charge over all mailboxes is a sum over the applications.\<close>

lemma all_messages_sum:
  assumes "distinct (map fst m)" and "f [] = (0 :: nat)" and "\<And>xs ys. f (xs @ ys) = f xs + f ys"
    and "set (map fst m) \<subseteq> K" and "finite K"
  shows "f (concat (map snd m)) = (\<Sum>k \<in> K. f (case map_of m k of None \<Rightarrow> [] | Some v \<Rightarrow> v))"
  using assms(1,4)
proof (induction m)
  case Nil
  then show ?case using assms(2) by simp
next
  case (Cons kv m)
  obtain k v where kv: "kv = (k, v)" by (cases kv)
  have k: "k \<in> K" "map_of m k = None" using Cons.prems by (auto simp: kv map_of_eq_None_iff)
  let ?g = "\<lambda>m x. f (case map_of m x of None \<Rightarrow> [] | Some v \<Rightarrow> v)"
  have "(\<Sum>x \<in> K. ?g (kv # m) x) = f v + (\<Sum>x \<in> K - {k}. ?g (kv # m) x)"
    using k assms(5) by (simp add: sum.remove kv)
  also have "(\<Sum>x \<in> K - {k}. ?g (kv # m) x) = (\<Sum>x \<in> K - {k}. ?g m x)"
    by (rule sum.cong) (auto simp: kv)
  also have "\<dots> = (\<Sum>x \<in> K. ?g m x)"
    using k assms(2,5) by (simp add: sum.remove [of K k])
  finally show ?case using Cons assms(3) by (simp add: kv)
qed

lemma all_messages_charge:
  assumes "distinct (map fst (s_Mailbox st))" and "f [] = (0 :: nat)"
    and "\<And>xs ys. f (xs @ ys) = f xs + f ys" and "set (map fst (s_Mailbox st)) \<subseteq> K" and "finite K"
  shows "f (all_messages st) = (\<Sum>k \<in> K. f (mailbox st k))"
  using all_messages_sum [OF assms] by (simp add: all_messages_def mailbox_def)

lemma app_messages_mailbox:
  "distinct (map fst (s_Mailbox st)) \<Longrightarrow> app_messages st i = mailbox st i"
proof -
  have "concat (map snd (filter (\<lambda>(k, _). k = i) m)) = (case map_of m i of None \<Rightarrow> [] | Some v \<Rightarrow> v)"
    if "distinct (map fst m)" for m :: "mailboxmessage list gomap"
    using that
  proof (induction m)
    case (Cons kv m)
    then have "fst kv = i \<Longrightarrow> map_of m i = None" by (auto simp: map_of_eq_None_iff)
    with Cons show ?case by (cases kv) (auto split: option.splits)
  qed simp
  then show "distinct (map fst (s_Mailbox st)) \<Longrightarrow> app_messages st i = mailbox st i"
    by (simp add: app_messages_def mailbox_def)
qed

section \<open>Capacity is never exceeded\<close>

lemma cap_ok_quiet:
  assumes "cap_ok st" and "mail_quiet st st'"
  shows "cap_ok st'"
proof -
  let ?K = "set (map fst (s_Mailbox st)) \<union> set (map fst (s_Mailbox st'))"
  have d: "distinct (map fst (s_Mailbox st))" "distinct (map fst (s_Mailbox st'))"
    using assms by (simp_all add: cap_ok_def mail_quiet_def)
  have le: "charged_count (mailbox st' i) \<le> charged_count (mailbox st i)"
    "charged_bytes (mailbox st' i) \<le> charged_bytes (mailbox st i)" for i
    using assms(2) charged_mono by (auto simp: mail_quiet_def)
  have "charged_count (all_messages st') \<le> charged_count (all_messages st)"
    using all_messages_charge [OF d(1), of charged_count ?K] all_messages_charge [OF d(2), of charged_count ?K] le
    by (simp add: sum_mono)
  moreover have "charged_bytes (all_messages st') \<le> charged_bytes (all_messages st)"
    using all_messages_charge [OF d(1), of charged_bytes ?K] all_messages_charge [OF d(2), of charged_bytes ?K] le
    by (simp add: sum_mono)
  ultimately show ?thesis
    using assms(1) d(2) le unfolding cap_ok_def by (meson order.trans)
qed

lemma mailbox_stage:
  "mailbox (stage_message now i key payload st) j =
     (if j = i then mailbox st i @ [new_message now key payload (s_NextSequence st + 1)] else mailbox st j)"
  by (simp add: stage_message_def mailbox_def Let_def)

lemma stage_charge:
  assumes "distinct (map fst (s_Mailbox st))" and "f [] = (0 :: nat)"
    and "\<And>xs ys. f (xs @ ys) = f xs + f ys"
  shows "f (all_messages (stage_message now i key payload st)) =
     f (all_messages st) + f [new_message now key payload (s_NextSequence st + 1)]"
proof -
  let ?st = "stage_message now i key payload st"
  let ?K = "insert i (set (map fst (s_Mailbox st)) \<union> set (map fst (s_Mailbox ?st)))"
  have d: "distinct (map fst (s_Mailbox ?st))"
    using assms(1) by (simp add: stage_message_def Let_def distinct_update)
  have "f (all_messages ?st) = (\<Sum>k \<in> ?K. f (mailbox ?st k))"
    by (rule all_messages_charge [OF d assms(2,3)]) auto
  also have "\<dots> = f (mailbox ?st i) + (\<Sum>k \<in> ?K - {i}. f (mailbox ?st k))"
    by (subst sum.remove [of ?K i]) auto
  also have "(\<Sum>k \<in> ?K - {i}. f (mailbox ?st k)) = (\<Sum>k \<in> ?K - {i}. f (mailbox st k))"
    by (rule sum.cong) (auto simp: mailbox_stage)
  also have "f (mailbox ?st i) + \<dots> =
      (\<Sum>k \<in> ?K. f (mailbox st k)) + f [new_message now key payload (s_NextSequence st + 1)]"
    using sum.remove [of ?K i "\<lambda>k. f (mailbox st k)"] by (simp add: mailbox_stage assms(3))
  also have "(\<Sum>k \<in> ?K. f (mailbox st k)) = f (all_messages st)"
    by (rule all_messages_charge [OF assms(1,2,3), symmetric]) auto
  finally show ?thesis .
qed

lemma cap_ok_stage:
  assumes "cap_ok st"
    and "accepts (mc_Application (mailboxCapacityLocked st i)) (length payload)"
    and "accepts (mc_Supervisor (mailboxCapacityLocked st i)) (length payload)"
  shows "cap_ok (stage_message now i key payload st)"
proof -
  have d: "distinct (map fst (s_Mailbox st))" using assms(1) by (simp add: cap_ok_def)
  have a: "charged_count (mailbox st i) < maxApplicationMailboxMessages"
    "length payload + charged_bytes (mailbox st i) \<le> maxApplicationMailboxBytes"
    "charged_count (all_messages st) < maxSupervisorMailboxMessages"
    "length payload + charged_bytes (all_messages st) \<le> maxSupervisorMailboxBytes"
    using assms(2,3) d
    by (simp_all add: accepts_def mailboxCapacityLocked_def usage_of_def app_messages_mailbox
        charged_count_def charged_bytes_def)
  have "distinct (map fst (s_Mailbox (stage_message now i key payload st)))"
    using d by (simp add: stage_message_def Let_def distinct_update)
  with assms(1) a stage_charge [OF d, of charged_count] stage_charge [OF d, of charged_bytes]
  show ?thesis by (auto simp: cap_ok_def mailbox_stage)
qed

definition capacity_inv :: "supervisor \<Rightarrow> bool" where
  "capacity_inv s \<longleftrightarrow> cap_ok (sv_state s) \<and> cap_ok (sv_committed s)"

lemma auditLocked_frame [simp]:
  "s_Mailbox (sv_state (auditLocked now princ aid action object decision reason s)) = s_Mailbox (sv_state s)"
  "mailbox (sv_state (auditLocked now princ aid action object decision reason s)) i = mailbox (sv_state s) i"
  "s_RouteRecords (sv_state (auditLocked now princ aid action object decision reason s)) = s_RouteRecords (sv_state s)"
  "s_RevokedTokens (sv_state (auditLocked now princ aid action object decision reason s)) = s_RevokedTokens (sv_state s)"
  "s_WitnessCheckpoints (sv_state (auditLocked now princ aid action object decision reason s))
     = s_WitnessCheckpoints (sv_state s)"
  "s_Transfers (sv_state (auditLocked now princ aid action object decision reason s)) = s_Transfers (sv_state s)"
  "s_Applications (sv_state (auditLocked now princ aid action object decision reason s)) = s_Applications (sv_state s)"
  "s_Outbox (sv_state (auditLocked now princ aid action object decision reason s)) = s_Outbox (sv_state s)"
  "s_HostfsMounts (sv_state (auditLocked now princ aid action object decision reason s)) = s_HostfsMounts (sv_state s)"
  "s_Channels (sv_state (auditLocked now princ aid action object decision reason s)) = s_Channels (sv_state s)"
  "s_Bindings (sv_state (auditLocked now princ aid action object decision reason s)) = s_Bindings (sv_state s)"
  by (simp_all add: auditLocked_def Let_def mailbox_def)

lemma cap_ok_cong: "s_Mailbox st' = s_Mailbox st \<Longrightarrow> cap_ok st' \<longleftrightarrow> cap_ok st"
  by (simp add: cap_ok_def all_messages_def mailbox_def)

lemma cap_ok_audit [simp]:
  "cap_ok (sv_state (auditLocked now princ aid action object decision reason s)) \<longleftrightarrow> cap_ok (sv_state s)"
  by (rule cap_ok_cong) simp

lemma cap_ok_durable [simp]: "cap_ok (durable st) \<longleftrightarrow> cap_ok st"
  by (rule cap_ok_cong) simp

lemma cap_ok_bump [simp]: "cap_ok (s_NextSequence_update f st) \<longleftrightarrow> cap_ok st"
  by (rule cap_ok_cong) simp

lemma evo_capacity:
  assumes "evo n s t" and "capacity_inv s"
  shows "capacity_inv t"
  using assms
proof (induction rule: evo.induct)
  case (audit n s t m now princ aid action object decision reason)
  then show ?case by (simp add: capacity_inv_def)
next
  case (bump n s t m)
  then show ?case by (simp add: capacity_inv_def bumpSequence_def)
next
  case (enqueue n s t m now princ i key payload)
  show ?case
    using enqueue cap_ok_stage
    by (cases now princ i key payload t rule: enqueueLocked_cases) (simp_all add: capacity_inv_def)
next
  case (change n s t u)
  then show ?case by (auto simp: capacity_inv_def quiet_le_def intro: cap_ok_quiet)
next
  case (persist n s t)
  then show ?case
    by (cases t rule: persistLocked_cases) (auto simp: capacity_inv_def restoreLocked_def)
next
  case (restore n s t)
  then show ?case by (simp add: capacity_inv_def restoreLocked_def)
qed (simp_all add: capacity_inv_def)

section \<open>Unique ids and keys\<close>

definition ids_ok :: "supervisorState \<Rightarrow> bool" where
  "ids_ok st \<longleftrightarrow>
     (\<forall>i. \<forall>m \<in> set (mailbox st i). m_Sequence m \<le> s_NextSequence st
            \<and> m_MessageID m = ''msg-'' @ dec (unat (m_Sequence m)))
     \<and> (\<forall>i. distinct (map m_Sequence (mailbox st i)) \<and> distinct (map m_IdempotencyKey (mailbox st i)))
     \<and> (\<forall>i j. \<forall>m \<in> set (mailbox st i). \<forall>n \<in> set (mailbox st j). m_Sequence m = m_Sequence n \<longrightarrow> i = j)"

definition ids_inv :: "supervisor \<Rightarrow> bool" where
  "ids_inv s \<longleftrightarrow> ids_ok (sv_state s) \<and> ids_ok (sv_committed s)"

lemma all2_message_le_maps:
  assumes "list_all2 message_le ms ns"
  shows "map m_Sequence ns = map m_Sequence ms" and "map m_IdempotencyKey ns = map m_IdempotencyKey ms"
    and "map m_MessageID ns = map m_MessageID ms"
  using assms by (induction rule: list_all2_induct) (auto simp: message_le_def)

lemma ids_ok_quiet:
  assumes "ids_ok st" and "mail_quiet st st'" and "s_NextSequence st \<le> s_NextSequence st'"
  shows "ids_ok st'"
proof -
  have l: "list_all2 message_le (mailbox st i) (mailbox st' i)" for i
    using assms(2) by (simp add: mail_quiet_def)
  note maps = all2_message_le_maps [OF l]
  have origin: "\<exists>m \<in> set (mailbox st i). m_Sequence m = m_Sequence n \<and> m_MessageID m = m_MessageID n"
    if "n \<in> set (mailbox st' i)" for n i
    using that l [of i]
    by (auto simp: list_all2_conv_all_nth in_set_conv_nth [of n] message_le_def intro!: bexI [OF _ nth_mem])
  show ?thesis
    unfolding ids_ok_def
  proof (intro conjI allI ballI impI)
    fix i n assume "n \<in> set (mailbox st' i)"
    from origin [OF this] obtain m where m: "m \<in> set (mailbox st i)" "m_Sequence m = m_Sequence n"
      "m_MessageID m = m_MessageID n" by blast
    have "m_Sequence m \<le> s_NextSequence st" "m_MessageID m = ''msg-'' @ dec (unat (m_Sequence m))"
      using assms(1) m(1) unfolding ids_ok_def by blast+
    with m assms(3) show "m_Sequence n \<le> s_NextSequence st'"
      "m_MessageID n = ''msg-'' @ dec (unat (m_Sequence n))"
      by simp_all
  next
    fix i show "distinct (map m_Sequence (mailbox st' i))" "distinct (map m_IdempotencyKey (mailbox st' i))"
      using assms(1) by (simp_all add: maps ids_ok_def)
  next
    fix i j m n
    assume "m \<in> set (mailbox st' i)" "n \<in> set (mailbox st' j)" "m_Sequence m = m_Sequence n"
    with origin [of m i] origin [of n j] assms(1) show "i = j" by (fastforce simp: ids_ok_def)
  qed
qed

lemma find_key_None: "find_key key ms = None \<longleftrightarrow> key \<notin> m_IdempotencyKey ` set ms"
  by (auto simp: find_key_def find_None_iff)

lemma ids_ok_stage:
  assumes "ids_ok st" and "find_key key (mailbox st i) = None"
    and "unat (s_NextSequence st) + 1 < 2 ^ 64"
  shows "ids_ok (stage_message now i key payload st)"
proof -
  let ?q = "s_NextSequence st + 1"
  have lt: "s_NextSequence st < ?q"
    using unat_Suc_u64 [OF assms(3)] by (simp add: word_less_nat_alt)
  have old: "m_Sequence m < ?q" if "m \<in> set (mailbox st j)" for m j
    using assms(1) that lt by (auto simp: ids_ok_def intro: le_less_trans)
  have new: "m_Sequence (new_message now key payload ?q) = ?q"
    "m_IdempotencyKey (new_message now key payload ?q) = key"
    "m_MessageID (new_message now key payload ?q) = ''msg-'' @ dec (unat ?q)"
    by (simp_all add: new_message_def)
  have q: "s_NextSequence (stage_message now i key payload st) = ?q"
    by (simp add: stage_message_def Let_def)
  have k: "key \<notin> m_IdempotencyKey ` set (mailbox st i)"
    using assms(2) by (simp add: find_key_None)
  show ?thesis
    unfolding ids_ok_def
  proof (intro conjI allI ballI impI)
    fix j m assume "m \<in> set (mailbox (stage_message now i key payload st) j)"
    then show "m_Sequence m \<le> s_NextSequence (stage_message now i key payload st)"
      "m_MessageID m = ''msg-'' @ dec (unat (m_Sequence m))"
      using assms(1) old by (auto simp: mailbox_stage q new ids_ok_def less_imp_le split: if_splits)
  next
    fix j
    show "distinct (map m_Sequence (mailbox (stage_message now i key payload st) j))"
      using assms(1) old [of _ i] by (fastforce simp: mailbox_stage new ids_ok_def)
    show "distinct (map m_IdempotencyKey (mailbox (stage_message now i key payload st) j))"
      using assms(1) k by (auto simp: mailbox_stage new ids_ok_def)
  next
    fix j j' m n
    assume "m \<in> set (mailbox (stage_message now i key payload st) j)"
      "n \<in> set (mailbox (stage_message now i key payload st) j')" "m_Sequence m = m_Sequence n"
    then show "j = j'"
      using assms(1) old new by (fastforce simp: mailbox_stage ids_ok_def split: if_splits)
  qed
qed

lemma ids_ok_bump:
  assumes "ids_ok st" and "s_Mailbox st' = s_Mailbox st" and "s_NextSequence st \<le> s_NextSequence st'"
  shows "ids_ok st'"
proof (rule ids_ok_quiet [OF assms(1) _ assms(3)])
  show "mail_quiet st st'" using assms(2) by (simp add: mail_quiet_def mailbox_def list_all2_same)
qed

lemma ids_ok_auditLocked:
  assumes "ids_ok (sv_state s)" and "unat (s_NextSequence (sv_state s)) + 1 < 2 ^ 64"
  shows "ids_ok (sv_state (auditLocked now princ aid action object decision reason s))"
  using assms unat_Suc_u64 [OF assms(2)]
  by (intro ids_ok_bump [OF assms(1)]) (simp_all add: word_le_nat_alt)

lemma ids_ok_durable [simp]: "ids_ok (durable st) \<longleftrightarrow> ids_ok st"
  by (simp add: ids_ok_def)

lemma evo_ids:
  assumes "evo n s t" and "audit_inv s" and "ids_inv s" and "top_sequence s + n < 2 ^ 64"
  shows "ids_inv t"
  using assms
proof (induction rule: evo.induct)
  case (audit n s t m now princ aid action object decision reason)
  then have room: "unat (s_NextSequence (sv_state t)) + 1 < 2 ^ 64"
    using evo_audit_inv [of n s t] by (simp add: top_sequence_def)
  have "ids_ok (sv_state t)" "ids_ok (sv_committed t)" using audit by (simp_all add: ids_inv_def)
  then show ?case
    unfolding ids_inv_def by (intro conjI ids_ok_auditLocked room) simp_all
next
  case (bump n s t m)
  then have room: "unat (s_NextSequence (sv_state t)) + 1 < 2 ^ 64"
    using evo_audit_inv [of n s t] by (simp add: top_sequence_def)
  have IH: "ids_ok (sv_state t)" "ids_ok (sv_committed t)" using bump by (simp_all add: ids_inv_def)
  have "ids_ok (sv_state (bumpSequence t))"
    by (rule ids_ok_bump [OF IH(1)])
      (simp_all add: bumpSequence_def word_le_nat_alt unat_Suc_u64 [OF room])
  with IH(2) show ?case by (simp add: ids_inv_def bumpSequence_def)
next
  case (enqueue n s t m now princ i key payload)
  then have IH: "ids_inv t" "ids_ok (sv_state t)" "ids_ok (sv_committed t)" by (simp_all add: ids_inv_def)
  show ?case
  proof (cases now princ i key payload t rule: enqueueLocked_cases)
    case (staged a encoded)
    have room2: "unat (s_NextSequence (sv_state t)) + 2 < 2 ^ 64"
      using enqueue evo_audit_inv [of n s t] by (simp add: top_sequence_def)
    then have room: "unat (s_NextSequence (sv_state t)) + 1 < 2 ^ 64" by simp
    let ?u = "on_state (stage_message now i key encoded) t"
    have q: "s_NextSequence (sv_state ?u) = s_NextSequence (sv_state t) + 1"
      by (simp add: stage_message_def Let_def)
    have "ids_ok (sv_state ?u)"
      using ids_ok_stage [OF IH(2) staged(4) room] by simp
    moreover have "unat (s_NextSequence (sv_state ?u)) + 1 < 2 ^ 64"
      using unat_Suc_u64 [OF room] room2 unfolding q by simp
    ultimately have "ids_ok (sv_state (snd (enqueueLocked now princ i key payload t)))"
      unfolding staged(7) by (rule ids_ok_auditLocked)
    moreover have "sv_committed (snd (enqueueLocked now princ i key payload t)) = sv_committed t"
      unfolding staged(7) by simp
    ultimately show ?thesis using IH(3) by (simp add: ids_inv_def)
  qed (simp add: IH(1))
next
  case (change n s t u)
  then have "ids_ok (sv_state t)" "ids_ok (sv_committed t)" "mail_quiet (sv_state t) (sv_state u)"
    "s_NextSequence (sv_state u) = s_NextSequence (sv_state t)"
    by (simp_all add: ids_inv_def quiet_le_def)
  then show ?case using change ids_ok_quiet [of "sv_state t" "sv_state u"] by (simp add: ids_inv_def)
next
  case (persist n s t)
  then show ?case
    by (cases t rule: persistLocked_cases) (simp_all add: ids_inv_def restoreLocked_def)
next
  case (restore n s t)
  then show ?case by (simp add: ids_inv_def restoreLocked_def)
qed (simp_all add: ids_inv_def)

text \<open>Ids of mounts come from sequence numbers already drawn.\<close>

definition mount_inv :: "supervisor \<Rightarrow> bool" where
  "mount_inv s \<longleftrightarrow> mount_ids (sv_state s) \<and> mount_ids (sv_committed s)"

lemma mount_ids_later:
  assumes "mount_ids st" and "s_HostfsMounts st' = s_HostfsMounts st"
    and "unat (s_NextSequence st) \<le> unat (s_NextSequence st')"
  shows "mount_ids st'"
  unfolding mount_ids_def
proof
  fix k assume "k \<in> set (map fst (s_HostfsMounts st'))"
  then obtain n where "n \<le> unat (s_NextSequence st)" and "k = ''mnt-'' @ dec n"
    using assms(1,2) by (auto simp: mount_ids_def)
  with assms(3) show "\<exists>n \<le> unat (s_NextSequence st'). k = ''mnt-'' @ dec n"
    using order.trans by blast
qed

lemma mount_ids_durable [simp]: "mount_ids (durable st) \<longleftrightarrow> mount_ids st"
  by (simp add: mount_ids_def)

lemma mount_ids_audit:
  "mount_ids (sv_state s) \<Longrightarrow> unat (s_NextSequence (sv_state s)) + 1 < 2 ^ 64 \<Longrightarrow>
     mount_ids (sv_state (auditLocked now princ aid action object decision reason s))"
  by (erule mount_ids_later) (auto simp: auditLocked_def Let_def unat_Suc_u64)

lemma evo_mounts:
  assumes "evo n s t" and "audit_inv s" and "mount_inv s" and "top_sequence s + n < 2 ^ 64"
  shows "mount_inv t"
  using assms
proof (induction rule: evo.induct)
  case (audit n s t m now princ aid action object decision reason)
  then have "unat (s_NextSequence (sv_state t)) + 1 < 2 ^ 64"
    using evo_audit_inv [of n s t] by (simp add: top_sequence_def)
  with audit show ?case by (simp add: mount_inv_def mount_ids_audit)
next
  case (bump n s t m)
  then have room: "unat (s_NextSequence (sv_state t)) + 1 < 2 ^ 64"
    using evo_audit_inv [of n s t] by (simp add: top_sequence_def)
  have "mount_ids (sv_state (bumpSequence t))"
    by (rule mount_ids_later [of "sv_state t"])
      (use bump room in \<open>auto simp: mount_inv_def bumpSequence_def unat_Suc_u64\<close>)
  with bump show ?case by (simp add: mount_inv_def bumpSequence_def)
next
  case (enqueue n s t m now princ i key payload)
  then have IH: "mount_inv t" by simp
  show ?case
  proof (cases now princ i key payload t rule: enqueueLocked_cases)
    case (staged a encoded)
    let ?u = "on_state (stage_message now i key encoded) t"
    have room2: "unat (s_NextSequence (sv_state t)) + 2 < 2 ^ 64"
      using enqueue evo_audit_inv [of n s t] by (simp add: top_sequence_def)
    have q: "s_NextSequence (sv_state ?u) = s_NextSequence (sv_state t) + 1"
        "s_HostfsMounts (sv_state ?u) = s_HostfsMounts (sv_state t)"
      by (simp_all add: stage_message_def Let_def)
    have step: "unat (s_NextSequence (sv_state t) + 1) = unat (s_NextSequence (sv_state t)) + 1"
      using room2 by (intro unat_Suc_u64) simp
    have "mount_ids (sv_state ?u)"
      by (rule mount_ids_later [of "sv_state t"]) (use IH q step in \<open>auto simp: mount_inv_def\<close>)
    moreover have "unat (s_NextSequence (sv_state ?u)) + 1 < 2 ^ 64"
      unfolding q step using room2 by simp
    ultimately show ?thesis
      using IH mount_ids_audit [of ?u] unfolding staged(7) by (simp add: mount_inv_def)
  qed (simp add: IH)
next
  case (change n s t u)
  then show ?case by (simp add: mount_inv_def quiet_le_def)
next
  case (persist n s t)
  then show ?case
    by (cases t rule: persistLocked_cases) (simp_all add: mount_inv_def restoreLocked_def)
next
  case (restore n s t)
  then show ?case by (simp add: mount_inv_def restoreLocked_def)
qed (simp_all add: mount_inv_def)

section \<open>Bounded histories\<close>

definition bounded_inv :: "supervisor \<Rightarrow> bool" where
  "bounded_inv s \<longleftrightarrow> bounded (sv_state s) \<and> bounded (sv_committed s)"

lemma bounded_durable [simp]: "bounded (durable st) \<longleftrightarrow> bounded st"
  using durable_quiet [of st] by (auto simp: quiet_le_def)

lemma bounded_stage [simp]: "bounded (stage_message now i key payload st) \<longleftrightarrow> bounded st"
  by (simp add: bounded_parts stage_message_def Let_def)

lemma bounded_audit [simp]:
  "bounded (sv_state (auditLocked now princ aid action object decision reason s)) \<longleftrightarrow> bounded (sv_state s)"
  by (simp add: bounded_parts)

lemma bounded_bump [simp]: "bounded (s_NextSequence_update f st) \<longleftrightarrow> bounded st"
  by (simp add: bounded_parts)

lemma evo_bounded:
  assumes "evo n s t" and "bounded_inv s"
  shows "bounded_inv t"
  using assms
proof (induction rule: evo.induct)
  case (audit n s t m now princ aid action object decision reason)
  then show ?case by (simp add: bounded_inv_def)
next
  case (bump n s t m)
  then show ?case by (simp add: bounded_inv_def bumpSequence_def)
next
  case (enqueue n s t m now princ i key payload)
  then show ?case
    by (cases now princ i key payload t rule: enqueueLocked_cases) (simp_all add: bounded_inv_def)
next
  case (change n s t u)
  then show ?case by (simp add: bounded_inv_def quiet_le_def)
next
  case (persist n s t)
  then show ?case
    by (cases t rule: persistLocked_cases) (auto simp: bounded_inv_def restoreLocked_def)
next
  case (restore n s t)
  then show ?case by (simp add: bounded_inv_def restoreLocked_def)
qed (simp_all add: bounded_inv_def)

section \<open>Provenance of messages\<close>

text \<open>Every entry of the source map names a message of a mailbox whose own envelope leads to that
  conversation.\<close>

definition source_inv :: "supervisor \<Rightarrow> bool" where
  "source_inv s \<longleftrightarrow> (\<forall>mid key. gget (sv_sourced s) mid = Some key \<longrightarrow>
     (\<exists>i. \<exists>m \<in> set (mailbox (sv_state s) i). m_MessageID m = mid \<and> message_source (sv_state s) i m = Some key))"

lemma message_source_mono:
  assumes "message_source st i m = Some key" and "conversations_le st st'" and "m_Payload m' = m_Payload m"
  shows "message_source st' i m' = Some key"
proof -
  obtain c where c: "gget (s_Conversations st) key = Some c"
      "key = conversationKey (string_field ''channel'' (m_Payload m)) (string_field ''external_id'' (m_Payload m))"
    using assms(1) by (auto simp: message_source_def Let_def split: if_splits option.splits)
  with assms(2) obtain d where "gget (s_Conversations st') key = Some d" "conversation_le c d"
    by (auto simp: conversations_le_def gmap_le_def)
  with assms(1,3) c show ?thesis
    by (auto simp: message_source_def Let_def conversation_le_def split: if_splits option.splits)
qed

lemma source_inv_mono:
  assumes "source_inv s" and "sv_sourced t = sv_sourced s" and "mailbox_le (sv_state s) (sv_state t)"
    and "conversations_le (sv_state s) (sv_state t)"
  shows "source_inv t"
  unfolding source_inv_def
proof (intro allI impI)
  fix mid key assume "gget (sv_sourced t) mid = Some key"
  with assms(1,2) obtain i m where m: "m \<in> set (mailbox (sv_state s) i)" "m_MessageID m = mid"
      "message_source (sv_state s) i m = Some key"
    unfolding source_inv_def by metis
  obtain us vs where us: "mailbox (sv_state t) i = us @ vs" "list_all2 message_le (mailbox (sv_state s) i) us"
    using assms(3) unfolding mailbox_le_def messages_le_def by blast
  obtain m' where "m' \<in> set us" "message_le m m'"
    using us(2) m(1) by (metis in_set_conv_nth list_all2_conv_all_nth)
  then have "m' \<in> set (mailbox (sv_state t) i) \<and> m_MessageID m' = mid \<and> message_source (sv_state t) i m' = Some key"
    using m(2) us(1) message_source_mono [OF m(3) assms(4), of m'] by (simp add: message_le_def)
  then show "\<exists>i. \<exists>m \<in> set (mailbox (sv_state t) i). m_MessageID m = mid \<and> message_source (sv_state t) i m = Some key"
    by blast
qed

text \<open>A rescan of the envelopes finds only such entries.\<close>

definition sources_ok :: "supervisorState \<Rightarrow> string gomap \<Rightarrow> bool" where
  "sources_ok st src \<longleftrightarrow> (\<forall>mid key. gget src mid = Some key \<longrightarrow>
     (\<exists>i. \<exists>ms. (i, ms) \<in> set (s_Mailbox st) \<and> (\<exists>m \<in> set ms. m_MessageID m = mid \<and> message_source st i m = Some key)))"

lemma sources_ok_message:
  assumes "sources_ok st src" and "(i, ms) \<in> set (s_Mailbox st)" and "m \<in> set ms"
  shows "sources_ok st (rescan_message st i m src)"
proof (cases "message_source st i m")
  case None
  then show ?thesis using assms(1) by (simp add: rescan_message_def)
next
  case (Some key)
  then have e: "rescan_message st i m src = gput (m_MessageID m) key src" by (simp add: rescan_message_def)
  show ?thesis
    unfolding sources_ok_def e
  proof (intro allI impI)
    fix mid key' assume a: "gget (gput (m_MessageID m) key src) mid = Some key'"
    show "\<exists>i ms. (i, ms) \<in> set (s_Mailbox st) \<and> (\<exists>m \<in> set ms. m_MessageID m = mid \<and> message_source st i m = Some key')"
    proof (cases "mid = m_MessageID m")
      case True
      with a Some assms(2,3) show ?thesis by (intro exI [of _ i] exI [of _ ms]) auto
    next
      case False
      with a assms(1) show ?thesis unfolding sources_ok_def by simp
    qed
  qed
qed

lemma sources_ok_messages:
  "sources_ok st src \<Longrightarrow> (i, ms) \<in> set (s_Mailbox st) \<Longrightarrow> set ns \<subseteq> set ms \<Longrightarrow>
     sources_ok st (fold (rescan_message st i) ns src)"
  by (induction ns arbitrary: src) (simp_all add: sources_ok_message)

lemma sources_ok_mailboxes:
  "sources_ok st src \<Longrightarrow> set kvs \<subseteq> set (s_Mailbox st) \<Longrightarrow>
     sources_ok st (fold (\<lambda>(aid, ms). fold (rescan_message st aid) ms) kvs src)"
proof (induction kvs arbitrary: src)
  case (Cons kv kvs)
  obtain i ms where kv: "kv = (i, ms)" by (cases kv)
  have "sources_ok st (fold (rescan_message st i) ms src)"
    by (rule sources_ok_messages [OF Cons.prems(1), of i ms]) (use Cons.prems(2) kv in auto)
  then show ?case using Cons.IH Cons.prems(2) by (simp add: kv)
qed simp

lemma rescan_sources: "sources_ok st (rescanSourced st)"
  unfolding rescanSourced_def by (rule sources_ok_mailboxes) (simp_all add: sources_ok_def)

lemma source_inv_rescan:
  assumes "distinct (map fst (s_Mailbox (sv_state s)))" and "sv_sourced s = rescanSourced (sv_state s)"
  shows "source_inv s"
  unfolding source_inv_def
proof (intro allI impI)
  fix mid key assume "gget (sv_sourced s) mid = Some key"
  with rescan_sources [of "sv_state s"] assms(2) obtain i ms m where
    m: "(i, ms) \<in> set (s_Mailbox (sv_state s))" "m \<in> set ms" "m_MessageID m = mid"
       "message_source (sv_state s) i m = Some key"
    unfolding sources_ok_def by metis
  have "mailbox (sv_state s) i = ms" using m(1) assms(1) by (simp add: mailbox_def)
  with m show "\<exists>i. \<exists>m \<in> set (mailbox (sv_state s) i). m_MessageID m = mid
      \<and> message_source (sv_state s) i m = Some key" by blast
qed

lemma source_inv_restore:
  "capacity_inv s \<Longrightarrow> source_inv (restoreLocked s)"
  by (rule source_inv_rescan) (simp_all add: restoreLocked_def capacity_inv_def cap_ok_def)

lemma auditLocked_sources [simp]:
  "sv_sourced (auditLocked now princ aid action object decision reason s) = sv_sourced s"
  "s_Conversations (sv_state (auditLocked now princ aid action object decision reason s)) = s_Conversations (sv_state s)"
  by (simp_all add: auditLocked_def Let_def)

lemma source_inv_audit: "source_inv s \<Longrightarrow> source_inv (auditLocked now princ aid action object decision reason s)"
  by (rule source_inv_mono [of s]) (simp_all add: mailbox_le_def conversations_le_def gmap_le_refl)

lemma evo_sources:
  assumes "evo n s t" and "capacity_inv s" and "source_inv s"
  shows "source_inv t"
  using assms
proof (induction rule: evo.induct)
  case (audit n s t m now princ aid action object decision reason)
  then show ?case by (simp add: source_inv_audit)
next
  case (bump n s t m)
  then have "source_inv t" by simp
  then show ?case
    by (rule source_inv_mono) (simp_all add: bumpSequence_def mailbox_le_def mailbox_def conversations_le_def gmap_le_refl)
next
  case (enqueue n s t m now princ i key payload)
  then have IH: "source_inv t" by simp
  show ?case
  proof (cases now princ i key payload t rule: enqueueLocked_cases)
    case (staged a encoded)
    have "source_inv (on_state (stage_message now i key encoded) t)"
      by (rule source_inv_mono [OF IH]) simp_all
    then show ?thesis unfolding staged(7) by (rule source_inv_audit)
  qed (simp add: IH)
next
  case (change n s t u)
  then show ?case
    using source_inv_mono [of t u] mail_quiet_le by (auto simp: quiet_le_def)
next
  case (source n s t m i key)
  then show ?case unfolding source_inv_def by (auto split: if_splits)
next
  case (persist n s t)
  then have "source_inv t" "capacity_inv t" using evo_capacity by blast+
  then show ?case
  proof (cases t rule: persistLocked_cases)
    case (fail q)
    have "capacity_inv (t\<lparr>sv_dbq := q\<rparr>)" using \<open>capacity_inv t\<close> by (simp add: capacity_inv_def)
    then show ?thesis unfolding fail by (simp add: source_inv_restore)
  next
    case (ok q)
    then show ?thesis using \<open>source_inv t\<close> by (simp add: source_inv_def)
  qed
next
  case (restore n s t)
  then show ?case using evo_capacity source_inv_restore by blast
qed simp

section \<open>What an accepted message is\<close>

lemma enqueueLocked_Inr:
  assumes "enqueueLocked now princ i key payload s = (Inr m, s1)"
  shows "json_Valid payload" and "m_Payload m = compact False False payload" and "m_IdempotencyKey m = key"
    and "m \<in> set (mailbox (sv_state s1) i)" and "s_Conversations (sv_state s1) = s_Conversations (sv_state s)"
    and "s_Channels (sv_state s1) = s_Channels (sv_state s)" and "sv_policy s1 = sv_policy s"
    and "\<exists>a. app s i = Some a \<and> \<not> retired a"
  using assms
  by (auto simp: enqueueLocked_def Let_def find_key_def find_Some_iff new_message_def mailbox_def
      stage_message_def auditLocked_def split: option.splits if_splits)

text \<open>A message stays with its key and payload.\<close>

lemma message_kept:
  assumes "mailbox_le st st'" and "m \<in> set (mailbox st i)"
  shows "\<exists>n \<in> set (mailbox st' i). m_IdempotencyKey n = m_IdempotencyKey m \<and> m_Payload n = m_Payload m
     \<and> m_MessageID n = m_MessageID m"
proof -
  from assms(1) have "messages_le (mailbox st i) (mailbox st' i)" by (simp add: mailbox_le_def)
  then obtain us vs where u: "mailbox st' i = us @ vs" "list_all2 message_le (mailbox st i) us"
    unfolding messages_le_def by blast
  obtain j where j: "j < length (mailbox st i)" "m = mailbox st i ! j" using assms(2) by (auto simp: in_set_conv_nth)
  then have "message_le m (us ! j)" "us ! j \<in> set us" using u(2) by (auto simp: list_all2_conv_all_nth)
  then show ?thesis by (intro bexI [of _ "us ! j"]) (auto simp: u(1) message_le_def)
qed

end
