(* ===== verification/Lifecycle.thy ===== *)
theory Lifecycle
  imports Capacity
begin

text \<open>
  Application identity and lifecycle (\<^verbatim>\<open>runtime/supervisor.go\<close>, \<^verbatim>\<open>SetApplicationState\<close> and
  \<^verbatim>\<open>SetTokenLimit\<close> of \<^verbatim>\<open>runtime/runner.go\<close>): create, fork, retire, route policy, freeze and
  thaw, budgets, and the read-only views. The lemmas of the second half show \<open>evo\<close> for these
  operations and for those of the mailbox.
\<close>

section \<open>Create and fork\<close>

text \<open>A version 4 UUID from sixteen random bytes.\<close>

definition uuid :: "string \<Rightarrow> string" where
  "uuid bs =
     (let b = bs[6 := char_of (code (bs ! 6) mod 16 + 64), 8 := char_of (code (bs ! 8) mod 64 + 128)]
      in hexbytes (take 4 b) @ ''-'' @ hexbytes (take 2 (drop 4 b)) @ ''-'' @ hexbytes (take 2 (drop 6 b))
         @ ''-'' @ hexbytes (take 2 (drop 8 b)) @ ''-'' @ hexbytes (take 6 (drop 10 b)))"

definition default_wake :: "string \<Rightarrow> string" where
  "default_wake wake = (if wake = [] then ''on_event'' else wake)"

definition valid_wake :: "string \<Rightarrow> bool" where
  "valid_wake wake \<longleftrightarrow> wake = ''on_event'' \<or> wake = ''manual'' \<or> wake = ''on_quiescent''"

definition new_application :: "string \<Rightarrow> string \<Rightarrow> string \<Rightarrow> u64 \<Rightarrow> string \<Rightarrow> int \<Rightarrow> u64 \<Rightarrow> application" where
  "new_application i owner parent version wake now taint =
     \<lparr>a_ApplicationID = i, a_OwnerAgent = owner, a_ForkParent = parent, a_ContractVersion = version,
      a_State = ''serving'', a_WakePolicy = wake, a_Checkpoint = [], a_Generation = 1,
      a_CreatedAt = now, a_RetiredAt = 0, a_TokensUsed = 0, a_TokensCached = 0, a_TokenLimit = 0,
      a_Failures = 0, a_ContextID = [], a_KernelID = 0, a_LastProvider = [], a_LastCompat = [],
      a_RoutePolicy = \<lparr>rp_Version = 0, rp_Backends = []\<rparr>, a_TaintBits = taint\<rparr>"

definition CreateApplication ::
  "int \<Rightarrow> string option \<Rightarrow> string option \<Rightarrow> string \<Rightarrow> string \<Rightarrow> string \<Rightarrow> supervisor
     \<Rightarrow> application result \<times> supervisor" where
  "CreateApplication now rnd ctxrnd princ owner wake0 s =
     (let wake = default_wake wake0
      in if owner = [] \<or> length owner > 256 then (Inl (ErrMsg ''invalid owner''), s)
         else if \<not> valid_wake wake then (Inl (ErrMsg ''invalid wake policy''), s)
         else case rnd of
           None \<Rightarrow> (Inl (ErrMsg ''rand''), s)
         | Some bs \<Rightarrow>
             let i = uuid bs; kid = s_NextKernelID (sv_state s) + 1;
                 s1 = on_state (s_NextKernelID_update (\<lambda>_. kid)) s
             in case ContextStore_Create (sv_contexts s1) owner [] ctxrnd of
                  (Inl e, ctxs) \<Rightarrow> (Inl e, s1\<lparr>sv_contexts := ctxs\<rparr>)
                | (Inr contextID, ctxs) \<Rightarrow>
                    let a = (new_application i owner [] 1 wake now 0)\<lparr>a_KernelID := kid, a_ContextID := contextID\<rparr>
                    in persist_return a
                         (auditLocked now princ i ''application.create'' i ''allow'' []
                           (put_mailbox i [] (put_app i a (s1\<lparr>sv_contexts := ctxs\<rparr>)))))"

definition ForkApplication ::
  "int \<Rightarrow> string option \<Rightarrow> string option \<Rightarrow> string \<Rightarrow> string \<Rightarrow> string \<Rightarrow> string \<Rightarrow> supervisor
     \<Rightarrow> application result \<times> supervisor" where
  "ForkApplication now rnd ctxrnd princ parentID owner wake0 s =
     (let wake = default_wake wake0
      in case app s parentID of
           None \<Rightarrow> (Inl ErrApplicationNotFound, s)
         | Some parent \<Rightarrow>
             if a_State parent = ''tombstoned'' then (Inl ErrApplicationRetired, s)
             else if owner = [] \<or> length owner > 256 then (Inl (ErrMsg ''invalid owner''), s)
             else if \<not> valid_wake wake then (Inl (ErrMsg ''invalid wake policy''), s)
             else case rnd of
               None \<Rightarrow> (Inl (ErrMsg ''rand''), s)
             | Some bs \<Rightarrow>
                 let i = uuid bs; kid = s_NextKernelID (sv_state s) + 1;
                     s1 = on_state (s_NextKernelID_update (\<lambda>_. kid)) s
                 in case ContextStore_ForkTo (sv_contexts s1) (a_OwnerAgent parent) (a_ContextID parent) owner
                           (''fork:'' @ i) ctxrnd of
                      (Inl e, ctxs) \<Rightarrow> (Inl e, s1\<lparr>sv_contexts := ctxs\<rparr>)
                    | (Inr contextID, ctxs) \<Rightarrow>
                        let a = (new_application i owner parentID 0 wake now (a_TaintBits parent))
                                  \<lparr>a_KernelID := kid, a_ContextID := contextID\<rparr>
                        in persist_return a
                             (auditLocked now princ i ''application.fork'' parentID ''allow'' []
                               (put_mailbox i [] (put_app i a (s1\<lparr>sv_contexts := ctxs\<rparr>)))))"

section \<open>Views\<close>

definition ContextPages :: "string \<Rightarrow> supervisor \<Rightarrow> (string list \<times> string) result \<times> supervisor" where
  "ContextPages i s =
     (case app s i of
        None \<Rightarrow> (Inl ErrApplicationNotFound, s)
      | Some a \<Rightarrow>
          (case ContextStore_Pages (sv_contexts s) (a_OwnerAgent a) (a_ContextID a) of
             (r, ctxs) \<Rightarrow> (r, s\<lparr>sv_contexts := ctxs\<rparr>)))"

definition AuditContextPages :: "int \<Rightarrow> string \<Rightarrow> string \<Rightarrow> supervisor \<Rightarrow> unit result \<times> supervisor" where
  "AuditContextPages now princ i s =
     (if app s i = None then (Inl ErrApplicationNotFound, s)
      else persist_return () (auditLocked now princ i ''context.pages'' i ''allow'' [] s))"

definition SetTurnConcurrency :: "int \<Rightarrow> supervisor \<Rightarrow> unit result \<times> supervisor" where
  "SetTurnConcurrency n s =
     (if n < 1 \<or> n > 64 then (Inl (ErrMsg ''turn concurrency must be between 1 and 64''), s)
      else (Inr (), s\<lparr>sv_turnConcurrency := n\<rparr>))"

definition InspectApplication :: "string \<Rightarrow> supervisor \<Rightarrow> application result" where
  "InspectApplication i s = (case app s i of None \<Rightarrow> Inl ErrApplicationNotFound | Some a \<Rightarrow> Inr a)"

definition ListApplications :: "supervisor \<Rightarrow> application list" where
  "ListApplications s =
     sort_key a_CreatedAt (sort_key a_ApplicationID (map snd (s_Applications (sv_state s))))"

definition ListTimers :: "string \<Rightarrow> supervisor \<Rightarrow> applicationtimer list result" where
  "ListTimers i s =
     (if app s i = None then Inl ErrApplicationNotFound
      else Inr (sort_key tm_TimerID
             (filter (\<lambda>t. tm_ApplicationID t = i) (map snd (s_Timers (sv_state s))))))"

definition Audit :: "supervisor \<Rightarrow> auditrecord list" where
  "Audit s = s_Audit (sv_state s)"

section \<open>Retire, route policy, state and budget\<close>

definition disable_bindings :: "string \<Rightarrow> wakebinding gomap \<Rightarrow> wakebinding gomap" where
  "disable_bindings i bs =
     map (\<lambda>(k, b). (k, if wb_ApplicationID b = i then b\<lparr>wb_Enabled := False\<rparr> else b)) bs"

text \<open>Handles, throttle mark, persisted kernel events and bindings of a retired application.\<close>

definition release_application :: "string \<Rightarrow> supervisor \<Rightarrow> supervisor" where
  "release_application i s =
     s\<lparr>sv_kernelApps := removeAll i (sv_kernelApps s), sv_lastClaim := gdel i (sv_lastClaim s),
       sv_kernelSrcs := removeAll i (sv_kernelSrcs s),
       sv_state := s_Bindings_update (disable_bindings i) (s_KernelPending_update (gdel i) (sv_state s))\<rparr>"

definition RetireApplication :: "int \<Rightarrow> string \<Rightarrow> string \<Rightarrow> supervisor \<Rightarrow> unit result \<times> supervisor" where
  "RetireApplication now princ i s =
     (case app s i of
        None \<Rightarrow> (Inl ErrApplicationNotFound, s)
      | Some a \<Rightarrow>
          if a_State a = ''tombstoned'' then (Inr (), s)
          else
            let s1 = put_app i (a\<lparr>a_State := ''retiring'', a_RetiredAt := now\<rparr>) s;
                s2 = auditLocked now princ i ''application.retire'' i ''allow'' [] s1;
                s3 = put_app i (a\<lparr>a_State := ''tombstoned'', a_RetiredAt := now\<rparr>) s2;
                s4 = expireMailboxLocked i s3
            in persist_return () (release_application i s4))"

definition valid_backends :: "string list \<Rightarrow> bool" where
  "valid_backends backends \<longleftrightarrow>
     list_all (\<lambda>b. b \<noteq> [] \<and> length b \<le> 128) backends \<and> distinct backends"

definition SetRoutePolicy ::
  "int \<Rightarrow> string \<Rightarrow> string \<Rightarrow> string list \<Rightarrow> supervisor \<Rightarrow> routepolicy result \<times> supervisor" where
  "SetRoutePolicy now princ i backends s =
     (case app s i of
        None \<Rightarrow> (Inl ErrApplicationNotFound, s)
      | Some a \<Rightarrow>
          if retired a then (Inl ErrApplicationRetired, s)
          else if \<not> valid_backends backends then (Inl (ErrMsg ''invalid route policy backends''), s)
          else
            let policy = \<lparr>rp_Version = rp_Version (a_RoutePolicy a) + 1, rp_Backends = backends\<rparr>
            in persist_return policy
                 (auditLocked now princ i ''route.policy.set'' (dec (unat (rp_Version policy))) ''allow''
                   (joinStr '','' backends) (put_app i (a\<lparr>a_RoutePolicy := policy\<rparr>) s)))"

definition RouteRecords :: "string \<Rightarrow> supervisor \<Rightarrow> routerecord list result" where
  "RouteRecords i s =
     (if app s i = None then Inl ErrApplicationNotFound
      else Inr (filter (\<lambda>r. rr_ApplicationID r = i) (rev (s_RouteRecords (sv_state s)))))"

text \<open>Append and keep the newest \<open>n\<close>: the policy of every bounded history.\<close>

definition append_bounded :: "nat \<Rightarrow> 'a list \<Rightarrow> 'a \<Rightarrow> 'a list" where
  "append_bounded n xs x = (let ys = xs @ [x] in if length ys > n then drop (length ys - n) ys else ys)"

definition recordRouteLocked :: "int \<Rightarrow> routerecord \<Rightarrow> supervisor \<Rightarrow> supervisor" where
  "recordRouteLocked now r s =
     (let s1 = bumpSequence s;
          r1 = r\<lparr>rr_Sequence := s_NextSequence (sv_state s1), rr_Time := now\<rparr>
      in on_state (s_RouteRecords_update (\<lambda>rs. append_bounded maxRouteRecords rs r1)) s1)"

definition SetApplicationState ::
  "int \<Rightarrow> string \<Rightarrow> string \<Rightarrow> string \<Rightarrow> supervisor \<Rightarrow> unit result \<times> supervisor" where
  "SetApplicationState now princ i st s =
     (case app s i of
        None \<Rightarrow> (Inl ErrApplicationNotFound, s)
      | Some a \<Rightarrow>
          if a_State a = ''tombstoned'' then (Inl ErrApplicationRetired, s)
          else if st \<noteq> ''frozen'' \<and> st \<noteq> ''serving'' then (Inl (ErrMsg ''invalid application state''), s)
          else if st = ''serving'' \<and> a_TokenLimit a > 0 \<and> a_TokensUsed a \<ge> a_TokenLimit a
          then (Inl (ErrMsg ''token budget exhausted''), s)
          else persist_return ()
            (auditLocked now princ i (''application.'' @ st) i ''allow'' [] (put_app i (a\<lparr>a_State := st\<rparr>) s)))"

definition SetTokenLimit :: "int \<Rightarrow> string \<Rightarrow> string \<Rightarrow> u64 \<Rightarrow> supervisor \<Rightarrow> unit result \<times> supervisor" where
  "SetTokenLimit now princ i limit s =
     (case app s i of
        None \<Rightarrow> (Inl ErrApplicationNotFound, s)
      | Some a \<Rightarrow>
          if a_State a = ''tombstoned'' then (Inl ErrApplicationRetired, s)
          else if a_TokenLimit a \<noteq> 0 \<and> (limit = 0 \<or> limit > a_TokenLimit a)
          then (Inl (ErrMsg ''budget may only narrow''), s)
          else
            let a1 = a\<lparr>a_TokenLimit := limit\<rparr>;
                a2 = (if limit > 0 \<and> a_TokensUsed a1 \<ge> limit then a1\<lparr>a_State := ''frozen''\<rparr> else a1)
            in persist_return () (auditLocked now princ i ''budget.set'' i ''allow'' [] (put_app i a2 s)))"

section \<open>The operations as moves\<close>

lemma append_bounded_length: "length xs \<le> n \<Longrightarrow> length (append_bounded n xs x) \<le> n"
  by (cases n) (auto simp: append_bounded_def Let_def)

lemma quiet_app_then:
  assumes "quiet_le st st'" and "\<And>b. gget (s_Applications st') i = Some b \<Longrightarrow> app_le b a"
  shows "quiet_le st (s_Applications_update (gput i a) st')"
  using quiet_le_trans [OF assms(1) quiet_app [OF assms(2)]] .

lemma mailbox_gput [simp]:
  "mailbox (s_Mailbox_update (gput i ms) st) j = (if j = i then ms else mailbox st j)"
  by (simp add: mailbox_def)

lemma evo_kernel_id:
  "evo n s (s\<lparr>sv_state := s_NextKernelID_update f (sv_state s), sv_contexts := ctxs\<rparr>)"
  by (rule evo.change [OF evo.start]) auto

lemma evo_new_application:
  assumes "app s i = None" and "mailbox (sv_state s) i = []"
  shows "evo 1 s (snd (persist_return a (auditLocked now princ i action object decision reason
           (put_mailbox i [] (put_app i a
             (s\<lparr>sv_state := s_NextKernelID_update f (sv_state s), sv_contexts := ctxs\<rparr>))))))"
proof -
  let ?s1 = "s\<lparr>sv_state := s_NextKernelID_update f (sv_state s), sv_contexts := ctxs\<rparr>"
  have "evo 0 s (put_app i a ?s1)"
    by (rule evo_state [OF evo_kernel_id], rule quiet_app) (use assms(1) in simp)
  then have "evo 0 s (put_mailbox i [] (put_app i a ?s1))"
    by (rule evo_state, intro quiet_mailbox) (use assms(2) in \<open>simp add: mailbox_def\<close>)
  then show ?thesis by (intro evo_return evo_auditI) simp_all
qed

lemma evo_CreateApplication [audited]:
  assumes "\<And>bs. rnd = Some bs \<Longrightarrow> app s (uuid bs) = None \<and> mailbox (sv_state s) (uuid bs) = []"
  shows "evo 1 s (snd (CreateApplication now rnd ctxrnd princ owner wake s))"
  using assms evo_new_application [of s _ _ now princ "''application.create''"]
  by (auto simp: CreateApplication_def Let_def intro: evo.start evo_kernel_id
      split: option.splits prod.splits sum.splits)

lemma evo_ForkApplication [audited]:
  assumes "\<And>bs. rnd = Some bs \<Longrightarrow> app s (uuid bs) = None \<and> mailbox (sv_state s) (uuid bs) = []"
  shows "evo 1 s (snd (ForkApplication now rnd ctxrnd princ parentID owner wake s))"
  using assms evo_new_application [of s _ _ now princ "''application.fork''"]
  by (auto simp: ForkApplication_def Let_def intro: evo.start evo_kernel_id
      split: option.splits prod.splits sum.splits)

lemma evo_contexts: "evo n s (s\<lparr>sv_contexts := ctxs\<rparr>)"
  by (rule evo.change [OF evo.start]) auto

lemma evo_ContextPages [audited]: "evo 0 s (snd (ContextPages i s))"
  by (auto simp: ContextPages_def intro: evo.start evo_contexts split: option.splits prod.splits)

lemma evo_AuditContextPages [audited]: "evo 1 s (snd (AuditContextPages now princ i s))"
  by (auto simp: AuditContextPages_def intro!: evo_intros)

lemma evo_SetTurnConcurrency [audited]: "evo 0 s (snd (SetTurnConcurrency n s))"
  by (auto simp: SetTurnConcurrency_def intro: evo.start evo.change [OF evo.start])

lemma evo_put_app:
  "evo n s t \<Longrightarrow> (\<And>b. app t i = Some b \<Longrightarrow> app_le b a) \<Longrightarrow> evo n s (put_app i a t)"
  by (rule evo_state) (auto intro: quiet_app)

lemma evo_put_mailbox:
  "evo n s t \<Longrightarrow> list_all2 message_le (mailbox (sv_state t) i) ms \<Longrightarrow> evo n s (put_mailbox i ms t)"
  by (rule evo_state) (auto intro: quiet_mailbox)

lemma expire_le [simp]: "message_le m (expire m)"
  by (simp add: message_le_def expire_def settled_def active_def)

lemma unclaim_le [simp]: "message_le m (unclaim m)"
  by (simp add: message_le_def unclaim_def settled_def active_def)

lemma quiet_disable: "quiet_le st (s_Bindings_update (disable_bindings i) st)"
  by (rule quiet_bindings) (auto simp: gmap_le_def disable_bindings_def gget_map_values binding_le_def)

lemma evo_RetireApplication [audited]: "evo 1 s (snd (RetireApplication now princ i s))"
proof (cases "app s i")
  case None
  then show ?thesis by (simp add: RetireApplication_def evo.start)
next
  case (Some a)
  show ?thesis
  proof (cases "a_State a = ''tombstoned''")
    case True
    then show ?thesis using Some by (simp add: RetireApplication_def evo.start)
  next
    case False
    let ?a1 = "a\<lparr>a_State := ''retiring'', a_RetiredAt := now\<rparr>"
    let ?a2 = "a\<lparr>a_State := ''tombstoned'', a_RetiredAt := now\<rparr>"
    let ?s2 = "auditLocked now princ i ''application.retire'' i ''allow'' [] (put_app i ?a1 s)"
    text \<open>The intermediate state is not a move of its own: an exhausted, frozen application is
      \<open>retiring\<close> for an instant.\<close>
    have eq: "put_app i ?a2 ?s2 = auditLocked now princ i ''application.retire'' i ''allow'' [] (put_app i ?a2 s)"
      by (simp add: auditLocked_def next_record_def Let_def)
    have "evo 0 s (put_app i ?a2 s)"
      by (rule evo_put_app [OF evo.start]) (use Some in \<open>auto simp: app_le_def dead_def\<close>)
    then have "evo 1 s (put_app i ?a2 ?s2)" unfolding eq by (intro evo_auditI) simp_all
    then have s4: "evo 1 s (expireMailboxLocked i (put_app i ?a2 ?s2))"
      unfolding expireMailboxLocked_def by (rule evo_put_mailbox) (auto intro: all2_map_message)
    have "evo 1 s (release_application i (expireMailboxLocked i (put_app i ?a2 ?s2)))"
      by (rule evo.change [OF s4])
        (auto simp: release_application_def intro: quiet_le_trans [OF quiet_fields(3) quiet_disable])
    then show ?thesis
      unfolding RetireApplication_def Some option.case if_not_P [OF False] Let_def by (rule evo_return)
  qed
qed

lemma evo_SetRoutePolicy [audited]: "evo 1 s (snd (SetRoutePolicy now princ i backends s))"
  by (auto simp: SetRoutePolicy_def Let_def app_le_def dead_def spent_def split: option.splits
      intro!: evo_return evo_auditI evo_put_app evo.start)

lemma evo_SetApplicationState [audited]: "evo 1 s (snd (SetApplicationState now princ i st s))"
  by (auto simp: SetApplicationState_def app_le_def dead_def spent_def word_neq_0_conv not_le
      split: option.splits intro!: evo_return evo_auditI evo_put_app evo.start)

lemma evo_SetTokenLimit [audited]: "evo 1 s (snd (SetTokenLimit now princ i limit s))"
  by (auto simp: SetTokenLimit_def Let_def app_le_def dead_def spent_def limit_le_def word_neq_0_conv not_le
      split: option.splits intro!: evo_return evo_auditI evo_put_app evo.start)

subsection \<open>Mailbox operations\<close>

lemma evo_Enqueue [audited]: "evo 2 s (snd (Enqueue now princ i key payload s))"
proof -
  have e: "evo 2 s (snd (enqueueLocked now princ i key payload s))"
    by (rule evo_enqueueI [OF evo.start]) simp
  show ?thesis
    using e by (auto simp: Enqueue_def intro: evo.start evo_return split: prod.splits sum.splits)
qed

lemma evo_accumulateTaint: "evo n s t \<Longrightarrow> evo n s (accumulateTaint i taint t)"
  by (auto simp: accumulateTaint_def app_le_def dead_def spent_def split: option.splits intro!: evo_put_app)

lemma evo_fold_taint:
  "evo n s t \<Longrightarrow> evo n s (fold (\<lambda>m. accumulateTaint i (f m)) ms t)"
  by (induction ms arbitrary: t) (auto intro: evo_accumulateTaint)

lemma claim_le [simp]: "message_le m (claim_message m)"
  by (simp add: message_le_def claim_message_def settled_def active_def)

lemma evo_ClaimMailbox [audited]: "evo 1 s (snd (ClaimMailbox now princ i s))"
  by (auto simp: ClaimMailbox_def Let_def split: option.splits
      intro!: evo_return evo_auditI evo_fold_taint evo_put_mailbox evo.start all2_map_message)

lemma set_status_le:
  assumes "find_message mid ms = Some m" and "active m"
  shows "list_all2 message_le ms (set_status mid status ms)"
  unfolding set_status_def
  by (rule all2_update_first) (use assms in \<open>auto simp: message_le_def settled_def\<close>)

lemma evo_AckMailbox [audited]: "evo 1 s (snd (AckMailbox now princ i mid s))"
  by (auto simp: AckMailbox_def Let_def active_def split: option.splits
      intro!: evo_return evo_auditI evo_put_mailbox evo.start set_status_le)

lemma evo_requeueClaim [audited]: "evo 1 s (snd (requeueClaim now i mid s))"
  by (auto simp: requeueClaim_def Let_def active_def split: option.splits
      intro!: evo_return evo_auditI evo_put_mailbox evo.start set_status_le)

end
