(* ===== verification/Sample.thy ===== *)
theory Sample
  imports Lifecycle
begin

text \<open>A small supervisor on which the properties are instantiated: one serving application with
  one message in its mailbox, tainted, no writes failing.\<close>

definition sample_message :: "string \<Rightarrow> mailboxmessage" where
  "sample_message status =
     \<lparr>m_MessageID = ''msg-1'', m_IdempotencyKey = ''k1'', m_Payload = ''{}'', m_Status = status,
      m_Sequence = 1, m_CreatedAt = 5, m_Attempts = 0\<rparr>"

definition sample_app :: application where
  "sample_app = (new_application ''a1'' ''owner'' [] 1 ''on_event'' 5 2)\<lparr>a_ContextID := ''c1'', a_KernelID := 1\<rparr>"

definition sample_state :: supervisorState where
  "sample_state = empty_state\<lparr>s_Applications := [(''a1'', sample_app)],
     s_Mailbox := [(''a1'', [sample_message ''pending''])], s_NextSequence := 1, s_NextKernelID := 1\<rparr>"

definition sample_supervisor :: supervisor where
  "sample_supervisor =
     \<lparr>sv_state = sample_state, sv_policy = sample_manifest, sv_previousHash = [], sv_committed = sample_state,
      sv_contexts = empty_cstore\<lparr>db_contexts := [(''c1'', \<lparr>c_Owner = ''owner'', c_Tail = None\<rparr>)]\<rparr>,
      sv_authorizer = cedarPolicyFromCapabilitySet sample_manifest,
      sv_kernelApps = [], sv_kernelSrcs = [], sv_lastClaim = [], sv_lastPrefix = [], sv_sourced = [],
      sv_inflight = [], sv_turnConcurrency = 0, sv_dbq = []\<rparr>"

lemma sample_simps [simp]:
  "gget (s_Applications sample_state) i = (if i = ''a1'' then Some sample_app else None)"
  "mailbox sample_state i = (if i = ''a1'' then [sample_message ''pending''] else [])"
  "sv_policy sample_supervisor = sample_manifest" "sv_dbq sample_supervisor = []"
  "sv_state sample_supervisor = sample_state" "sv_committed sample_supervisor = sample_state"
  "sv_previousHash sample_supervisor = []"
  "s_Audit sample_state = []" "s_NextSequence sample_state = 1"
  by (simp_all add: sample_supervisor_def sample_state_def mailbox_def empty_state_def)

lemma sample_app_simps [simp]:
  "a_State sample_app = ''serving''" "a_TaintBits sample_app = 2" "a_ApplicationID sample_app = ''a1''"
  "a_OwnerAgent sample_app = ''owner''" "a_ContextID sample_app = ''c1''" "a_WakePolicy sample_app = ''on_event''"
  "a_TokenLimit sample_app = 0" "a_TokensUsed sample_app = 0" "\<not> retired sample_app"
  by (simp_all add: sample_app_def new_application_def retired_def)

lemma sample_persist: "sv_dbq s = [] \<Longrightarrow> persist_return v s = (Inr v, s\<lparr>sv_committed := durable (sv_state s)\<rparr>)"
  by (simp add: persist_return_def persistLocked_def)

lemma auditLocked_dbq [simp]:
  "sv_dbq (auditLocked now princ aid action object decision reason s) = sv_dbq s"
  "sv_policy (auditLocked now princ aid action object decision reason s) = sv_policy s"
  "sv_contexts (auditLocked now princ aid action object decision reason s) = sv_contexts s"
  by (simp_all add: auditLocked_def Let_def)

lemma sample_audit_inv: "audit_inv sample_supervisor" "capacity_inv sample_supervisor" "bounded_inv sample_supervisor"
  by (simp_all add: audit_inv_def chain_ok_def last_hash_def capacity_inv_def cap_ok_def bounded_inv_def
      bounded_parts sample_state_def empty_state_def mailbox_def all_messages_def charged_count_def
      charged_bytes_def sample_message_def active_def maxApplicationMailboxMessages_def
      maxApplicationMailboxBytes_def maxSupervisorMailboxMessages_def maxSupervisorMailboxBytes_def)

lemma sample_top: "top_sequence sample_supervisor = 1"
  by (simp add: top_sequence_def)

end
