(* ===== verification/Taint.thy ===== *)
theory Taint
  imports Sample
begin

text \<open>
  The export gate and the human confirmation slow path (\<^verbatim>\<open>runtime/taint.go\<close>). The lemmas show
  that the gate is the only way out: text leaves only if the application's taint fits the export
  mask, or the caller confirms, or an approved request for exactly this text is used up.
\<close>

definition confirmationTTL :: int where "confirmationTTL = 5 * 60 * 10 ^ 9"
definition maxPendingConfirmations :: nat where "maxPendingConfirmations = 64"

section \<open>The confirmation table\<close>

definition expire_request :: "int \<Rightarrow> confirmationrequest \<Rightarrow> confirmationrequest" where
  "expire_request now r =
     (if cr_Status r = ''pending'' \<and> now > cr_ExpiresAt r then r\<lparr>cr_Status := ''expired''\<rparr> else r)"

definition sweepConfirmations :: "int \<Rightarrow> confirmationrequest gomap \<Rightarrow> confirmationrequest gomap" where
  "sweepConfirmations now cs =
     (let cs1 = map (\<lambda>(k, r). (k, expire_request now r)) cs;
          terminals = sort_key (cr_CreatedAt \<circ> snd) (filter (\<lambda>(_, r). cr_Status r \<noteq> ''pending'') cs1);
          over = length cs1 - maxPendingConfirmations
      in if length cs1 \<le> maxPendingConfirmations then cs1
         else fold (\<lambda>(k, _). gdel k) (take over terminals) cs1)"

definition pending_count :: "confirmationrequest gomap \<Rightarrow> nat" where
  "pending_count cs = length (filter (\<lambda>(_, r). cr_Status r = ''pending'') cs)"

abbreviation put_confirmation :: "string \<Rightarrow> confirmationrequest \<Rightarrow> supervisor \<Rightarrow> supervisor" where
  "put_confirmation rid r s \<equiv> on_state (s_Confirmations_update (gput rid r)) s"

section \<open>The gate\<close>

definition blocked :: "application \<Rightarrow> u64 \<Rightarrow> u64" where
  "blocked a exportMask = a_TaintBits a AND NOT exportMask"

definition escalateExportLocked ::
  "int \<Rightarrow> string option \<Rightarrow> string \<Rightarrow> application \<Rightarrow> string \<Rightarrow> supervisor \<Rightarrow> string result \<times> supervisor" where
  "escalateExportLocked now rnd princ a txt s =
     (case rnd of
        None \<Rightarrow> (Inl (ErrMsg ''rand''), s)
      | Some raw \<Rightarrow>
          let rid = ''cfm-'' @ hexbytes raw;
              request = \<lparr>cr_RequestID = rid, cr_ApplicationID = a_ApplicationID a, cr_Kind = ''taint.export'',
                         cr_Object = txt, cr_Reason = ''unmasked taint requires human approval'',
                         cr_CreatedAt = now, cr_ExpiresAt = now + confirmationTTL,
                         cr_Status = ''pending'', cr_SettledBy = []\<rparr>;
              s1 = on_state (s_Confirmations_update (sweepConfirmations now)) s
          in if pending_count (s_Confirmations (sv_state s1)) \<ge> maxPendingConfirmations
             then (Inl (ErrMsg ''confirmation queue full; retry after settling pending requests''),
                   auditLocked now princ (a_ApplicationID a) ''confirmation.create'' ''rejected'' ''deny''
                     ''slow-path queue full'' s1)
             else persist_fail (ErrConfirmationPending rid)
               (auditLocked now princ (a_ApplicationID a) ''confirmation.create'' rid ''allow'' ''taint.export''
                 (put_confirmation rid request s1)))"

definition exportViaRequestLocked ::
  "int \<Rightarrow> string \<Rightarrow> application \<Rightarrow> string \<Rightarrow> string \<Rightarrow> supervisor \<Rightarrow> string result \<times> supervisor" where
  "exportViaRequestLocked now princ a txt rid s =
     (case gget (s_Confirmations (sv_state s)) rid of
        None \<Rightarrow> (Inl (ErrMsg ''confirmation request not found''), s)
      | Some r \<Rightarrow>
          if cr_ApplicationID r \<noteq> a_ApplicationID a \<or> cr_Kind r \<noteq> ''taint.export''
          then (Inl (ErrMsg ''confirmation request not found''), s)
          else if cr_Status r = ''consumed'' then (Inl (ErrMsg ''confirmation request already used''), s)
          else if cr_Status r \<noteq> ''approved'' then (Inl (ErrMsg ''confirmation request not approved''), s)
          else if now > cr_ExpiresAt r
          then (Inl (ErrMsg ''confirmation request expired''),
                snd (persistLocked (put_confirmation rid (r\<lparr>cr_Status := ''expired''\<rparr>) s)))
          else if txt \<noteq> cr_Object r
          then (Inl (ErrMsg ''export payload does not match the approved request''), s)
          else persist_return txt
            (auditLocked now princ (a_ApplicationID a) ''taint.export.confirm'' txt ''allow''
              (''one-shot via '' @ rid) (put_confirmation rid (r\<lparr>cr_Status := ''consumed''\<rparr>) s)))"

definition exportApplication ::
  "int \<Rightarrow> string option \<Rightarrow> string \<Rightarrow> string \<Rightarrow> string \<Rightarrow> bool \<Rightarrow> bool \<Rightarrow> string \<Rightarrow> supervisor
     \<Rightarrow> string result \<times> supervisor" where
  "exportApplication now rnd princ i txt confirm escalate requestID s =
     (case app s i of
        None \<Rightarrow> (Inl ErrApplicationNotFound, s)
      | Some a \<Rightarrow>
          if retired a then (Inl ErrApplicationRetired, s)
          else if txt = [] \<or> length txt > maxTextBytes then (Inl (ErrMsg ''invalid export payload''), s)
          else if requestID \<noteq> [] then exportViaRequestLocked now princ a txt requestID s
          else if blocked a (cs_ExportMask (sv_policy s)) = 0
          then persist_return txt (auditLocked now princ i ''taint.export'' txt ''allow'' ''clean'' s)
          else if escalate \<and> \<not> confirm then escalateExportLocked now rnd princ a txt s
          else if \<not> confirm
          then persist_fail ErrTaintBlocked
                 (auditLocked now princ i ''taint.export'' txt ''deny'' ''unmasked taint'' s)
          else persist_return txt
                 (auditLocked now princ i ''taint.export.confirm'' txt ''allow''
                   ''human-confirmed unmasked taint'' s))"

definition SettleConfirmation ::
  "int \<Rightarrow> string \<Rightarrow> string \<Rightarrow> bool \<Rightarrow> supervisor \<Rightarrow> confirmationrequest result \<times> supervisor" where
  "SettleConfirmation now princ rid approve s =
     (case gget (s_Confirmations (sv_state s)) rid of
        None \<Rightarrow> (Inl (ErrMsg ''confirmation request not found''), s)
      | Some r \<Rightarrow>
          if cr_Status r \<noteq> ''pending'' then (Inl (ErrMsg ''confirmation request already settled''), s)
          else if now > cr_ExpiresAt r
          then (Inl (ErrMsg ''confirmation request expired''),
                snd (persistLocked (put_confirmation rid (r\<lparr>cr_Status := ''expired''\<rparr>) s)))
          else
            let r1 = r\<lparr>cr_Status := (if approve then ''approved'' else ''denied''), cr_SettledBy := princ\<rparr>
            in persist_return r1
                 (auditLocked now princ (cr_ApplicationID r)
                   (if approve then ''confirmation.approve'' else ''confirmation.deny'') rid ''allow'' (cr_Kind r)
                   (put_confirmation rid r1 s)))"

definition ListConfirmations :: "string \<Rightarrow> supervisor \<Rightarrow> confirmationrequest list" where
  "ListConfirmations i s =
     sort_key cr_CreatedAt
       (filter (\<lambda>r. i = [] \<or> cr_ApplicationID r = i) (map snd (s_Confirmations (sv_state s))))"

definition foldTaint :: "string \<Rightarrow> u64 \<Rightarrow> supervisor \<Rightarrow> supervisor" where
  "foldTaint i taint s = (if taint = 0 then s else snd (persistLocked (accumulateTaint i taint s)))"

section \<open>The operations as moves\<close>

lemma evo_put_confirmation:
  "evo n s t \<Longrightarrow> evo n s (t\<lparr>sv_state := s_Confirmations_update f (sv_state t)\<rparr>)"
  by (rule evo_state) auto

lemmas evo_confirm_intros = evo_return evo_fail evo_auditI evo_put_confirmation evo.persist evo.start

lemma evo_exportViaRequest: "0 < n \<Longrightarrow> evo n s (snd (exportViaRequestLocked now princ a txt rid s))"
  by (auto simp: exportViaRequestLocked_def split: option.splits intro!: evo_confirm_intros)

lemma evo_escalateExport:
  assumes "0 < n"
  shows "evo n s (snd (escalateExportLocked now rnd princ a txt s))"
proof -
  have two: "evo n s (s\<lparr>sv_state := s_Confirmations_update f (s_Confirmations_update g (sv_state s))\<rparr>)" for n f g
    by (rule evo_state [OF evo.start]) (auto intro: quiet_le_trans [OF quiet_fields(5) quiet_fields(5)])
  show ?thesis
    using assms
    by (auto simp: escalateExportLocked_def Let_def comp_def split: option.splits
        intro!: evo_fail evo_auditI two [unfolded comp_def] evo_put_confirmation evo.start)
qed

lemma evo_exportApplication [audited]:
  "evo 1 s (snd (exportApplication now rnd princ i txt confirm escalate requestID s))"
  by (auto simp: exportApplication_def split: option.splits
      intro!: evo_exportViaRequest evo_escalateExport evo_return evo_fail evo_auditI evo.start)

lemma evo_SettleConfirmation [audited]: "evo 1 s (snd (SettleConfirmation now princ rid approve s))"
  by (auto simp: SettleConfirmation_def Let_def split: option.splits intro!: evo_confirm_intros)

lemma evo_foldTaint [audited]: "evo 0 s (foldTaint i taint s)"
  by (auto simp: foldTaint_def intro!: evo.persist evo_accumulateTaint evo.start)

section \<open>The gate is the only way out\<close>

lemma persist_return_Inr:
  "persist_return v s = (Inr w, s') \<Longrightarrow>
     w = v \<and> sv_committed s' = durable (sv_state s) \<and> sv_state s' = sv_state s \<and> sv_contexts s' = sv_contexts s
     \<and> sv_policy s' = sv_policy s"
  by (cases s rule: persistLocked_cases) (auto simp: persist_return_def)

lemma persist_fail_Inr [simp]: "persist_fail e s \<noteq> (Inr w, s')"
  by (cases s rule: persistLocked_cases) (auto simp: persist_fail_def)

lemma auditLocked_confirmations [simp]:
  "s_Confirmations (sv_state (auditLocked now princ aid action object decision reason s)) = s_Confirmations (sv_state s)"
  by (simp add: auditLocked_def Let_def)

text \<open>C4. Export gate: text leaves the boundary only unchanged and only for an application that is
  not retired, and only in one of three ways: its accumulated taint fits the manifest's export mask;
  the caller explicitly confirmed; or the named request was approved for this application and this
  very text and had not expired, and is consumed, in memory and in the database, by this export.\<close>

theorem export_gate:
  assumes "exportApplication now rnd princ i txt confirm escalate requestID s = (Inr out, s')"
  shows "out = txt \<and> (\<exists>a. app s i = Some a \<and> \<not> retired a \<and>
    (requestID = [] \<and> a_TaintBits a AND NOT (cs_ExportMask (sv_policy s)) = 0
     \<or> requestID = [] \<and> confirm
     \<or> (\<exists>r. gget (s_Confirmations (sv_state s)) requestID = Some r \<and> cr_Status r = ''approved''
          \<and> cr_ApplicationID r = a_ApplicationID a \<and> cr_Object r = txt \<and> now \<le> cr_ExpiresAt r
          \<and> map_option cr_Status (gget (s_Confirmations (sv_state s')) requestID) = Some ''consumed''
          \<and> map_option cr_Status (gget (s_Confirmations (sv_committed s')) requestID) = Some ''consumed'')))"
  using assms
  by (auto simp: exportApplication_def exportViaRequestLocked_def escalateExportLocked_def Let_def blocked_def
      split: option.splits if_splits dest!: persist_return_Inr)

theorem export_gate_witness:
  "fst (exportApplication 9 None ''p'' ''a1'' ''hi'' True False [] sample_supervisor) = Inr ''hi''
   \<and> a_TaintBits sample_app AND NOT (cs_ExportMask sample_manifest) \<noteq> 0"
proof -
  let ?e = "exportApplication 9 None ''p'' ''a1'' ''hi'' True False [] sample_supervisor"
  have ok: "fst ?e = Inr ''hi''"
    by (simp add: exportApplication_def maxTextBytes_def sample_persist)
  have "2 AND NOT (cs_ExportMask sample_manifest) \<noteq> 0" by code_simp
  with export_gate [of 9 None "''p''" "''a1''" "''hi''" True False "[]" sample_supervisor "''hi''" "snd ?e"] ok
  show ?thesis by (metis prod.collapse sample_app_simps(2))
qed

end
