(* ===== verification/GoJSON_Raw.thy ===== *)
theory GoJSON_Raw
  imports GoJSON_Scan
begin

text \<open>
  Embedding raw JSON. A \<^verbatim>\<open>json.RawMessage\<close> is compacted and copied into the marshalled text.
  Two facts make this safe. Compacting keeps a valid text valid: the scanner on the original and on
  the compacted copy stay in step up to the text they collect (\<open>shape\<close>). And a valid text cannot
  break out of the place it is copied to: scanned inside any stack it completes exactly one value
  there, or the scanner rejects the whole (nesting too deep).
\<close>

section \<open>Control does not depend on the text collected\<close>

fun frame_shape :: "jframe \<Rightarrow> jframe" where
  "frame_shape (FArr _) = FArr []"
| "frame_shape (FObj _) = FObj []"
| "frame_shape (FKey _ _) = FKey [] []"

fun mode_shape :: "jmode \<Rightarrow> jmode" where
  "mode_shape (InStr k _) = InStr k []"
| "mode_shape (InEsc k _) = InEsc k []"
| "mode_shape (InEscU n k _) = InEscU n k []"
| "mode_shape (Neg _) = Neg []"
| "mode_shape (Num0 _) = Num0 []"
| "mode_shape (Num1 _) = Num1 []"
| "mode_shape (Dot _) = Dot []"
| "mode_shape (Dot0 _) = Dot0 []"
| "mode_shape (NumE _) = NumE []"
| "mode_shape (NumESign _) = NumESign []"
| "mode_shape (NumE0 _) = NumE0 []"
| "mode_shape (Lit r _) = Lit r JNull"
| "mode_shape (EndTop _) = EndTop JNull"
| "mode_shape m = m"

definition shape :: "jstate \<Rightarrow> jstate" where
  "shape x = (mode_shape (fst x), map frame_shape (snd x))"

lemma shape_pair [simp]: "shape (m, st) = (mode_shape m, map frame_shape st)"
  by (simp add: shape_def)

lemma frame_shape_idem [simp]: "frame_shape (frame_shape f) = frame_shape f"
  by (cases f) simp_all

lemma jcomplete_shape:
  "map_option shape (jcomplete v st) = map_option shape (jcomplete w (map frame_shape st))"
  by (cases st rule: list.exhaust; cases "hd st") (simp_all add: comp_def)

lemma jend_shape: "map_option shape (jend c st) = map_option shape (jend c (map frame_shape st))"
proof (cases st)
  case (Cons f st1)
  show ?thesis
    using jcomplete_shape [of _ st1]
    unfolding Cons by (cases f) (simp_all add: jend_def comp_def)
qed (simp add: jend_def)

lemma jend_same:
  "map frame_shape st = map frame_shape st' \<Longrightarrow> map_option shape (jend c st) = map_option shape (jend c st')"
  using jend_shape [of c st] jend_shape [of c st'] by simp

lemma jafter_shape:
  "map_option shape (jafter c (jcomplete v st)) = map_option shape (jafter c (jcomplete w (map frame_shape st)))"
proof (cases st)
  case (Cons f st1)
  show ?thesis
    unfolding Cons by (cases f) (auto simp: jafter_def comp_def intro!: jend_same)
qed (simp add: jafter_def)

lemma jpush_shape: "map_option shape (jpush f m st) = map_option shape (jpush f m (map frame_shape st))"
  by (simp add: jpush_def comp_def)

lemma jbegin_shape: "map_option shape (jbegin c st) = map_option shape (jbegin c (map frame_shape st))"
  using jpush_shape by (simp add: jbegin_def comp_def)

lemma jstring_done_shape:
  "map_option shape (jstring_done k acc st) = map_option shape (jstring_done k [] (map frame_shape st))"
proof (cases k)
  case True
  then show ?thesis by (cases st rule: list.exhaust; cases "hd st") (simp_all add: comp_def)
next
  case False
  then show ?thesis using jcomplete_shape [of _ st] by simp
qed

lemma jstep_shape: "map_option shape (jstep c (m, st)) = map_option shape (jstep c (shape (m, st)))"
proof (cases m)
  case BeginValue
  then show ?thesis using jbegin_shape by simp
next
  case BeginValueOrEmpty
  then show ?thesis
    using jbegin_shape [of c st] jcomplete_shape
    by (cases st rule: list.exhaust; cases "hd st") (simp_all add: comp_def)
next
  case BeginStringOrEmpty
  then show ?thesis
    using jcomplete_shape by (cases st rule: list.exhaust; cases "hd st") (simp_all add: comp_def)
next
  case (InStr k acc)
  then show ?thesis using jstring_done_shape [of k acc st] by (simp add: comp_def)
next
  case (Num0 acc)
  then show ?thesis using jafter_shape [of c _ st] by (simp add: comp_def)
next
  case (Num1 acc)
  then show ?thesis using jafter_shape [of c _ st] by (simp add: comp_def)
next
  case (Dot0 acc)
  then show ?thesis using jafter_shape [of c _ st] by (simp add: comp_def)
next
  case (NumE0 acc)
  then show ?thesis using jafter_shape [of c _ st] by (simp add: comp_def)
next
  case (Lit r v)
  then show ?thesis using jcomplete_shape [of v st] by (simp add: comp_def split: list.split)
next
  case EndValue
  then show ?thesis using jend_shape by simp
qed (simp_all add: comp_def)

lemma jstep_same_shape:
  assumes "shape x = shape y"
  shows "map_option shape (jstep c x) = map_option shape (jstep c y)"
  using jstep_shape [of c "fst x" "snd x"] jstep_shape [of c "fst y" "snd y"] assms by simp

section \<open>Compacting keeps a text valid\<close>

fun in_string :: "jmode \<Rightarrow> bool" where
  "in_string (InStr _ _) = True"
| "in_string (InEsc _ _) = True"
| "in_string (InEscU _ _ _) = True"
| "in_string _ = False"

fun in_escape :: "jmode \<Rightarrow> bool" where
  "in_escape (InEsc _ _) = True"
| "in_escape _ = False"

text \<open>The modes that end a number, with the digits read.\<close>

fun number_text :: "jmode \<Rightarrow> string option" where
  "number_text (Num0 acc) = Some acc"
| "number_text (Num1 acc) = Some acc"
| "number_text (Dot0 acc) = Some acc"
| "number_text (NumE0 acc) = Some acc"
| "number_text _ = None"

definition number_char :: "char \<Rightarrow> bool" where
  "number_char c \<longleftrightarrow> is_digit c \<or> c = CHR ''.'' \<or> c = CHR ''e'' \<or> c = CHR ''E''"

lemma number_step:
  "number_text m = Some acc \<Longrightarrow> \<not> number_char c \<Longrightarrow>
     jstep c (m, st) = jafter c (jcomplete (JNum (rev acc)) st)"
  by (cases m) (auto simp: number_char_def)

text \<open>The scanner on the original at \<open>x\<close>, on the copy at \<open>y\<close>: in step, or the original has
  seen whitespace after a number that the copy has not closed yet.\<close>

definition in_step :: "jstate \<Rightarrow> jstate \<Rightarrow> bool" where
  "in_step x y \<longleftrightarrow> shape x = shape y
     \<or> (\<exists>acc z. number_text (fst y) = Some acc \<and> jcomplete (JNum (rev acc)) (snd y) = Some z
          \<and> shape z = shape x)"

lemma shape_in_string:
  "shape x = shape y \<Longrightarrow> in_string (fst x) = in_string (fst y) \<and> in_escape (fst x) = in_escape (fst y)"
  by (cases x; cases y; cases "fst x"; cases "fst y") auto

lemma shape_InStr: "shape (InStr k acc, st) = shape y \<Longrightarrow> \<exists>acc' st'. y = (InStr k acc', st') \<and> map frame_shape st = map frame_shape st'"
  by (cases y; cases "fst y") auto

lemma jcomplete_ended:
  "jcomplete v st = Some z \<Longrightarrow> fst z = EndValue \<or> fst z = EndTop v"
  by (cases "(v, st)" rule: jcomplete.cases) auto

lemma jcomplete_not_string: "jcomplete v st = Some z \<Longrightarrow> \<not> in_string (fst z)"
  using jcomplete_ended [of v st z] by auto

lemma in_step_string:
  assumes "in_step x y" and "in_string (fst x)"
  shows "shape x = shape y"
proof (rule ccontr)
  assume "shape x \<noteq> shape y"
  with assms(1) obtain acc z where z: "jcomplete (JNum (rev acc)) (snd y) = Some z" "shape z = shape x"
    unfolding in_step_def by blast
  from jcomplete_not_string [OF z(1)] shape_in_string [OF z(2)] assms(2) show False by simp
qed

lemma step_shape_obtain:
  assumes "shape x = shape y" and "jstep c x = Some x1"
  obtains y1 where "jstep c y = Some y1" "shape x1 = shape y1"
  using jstep_same_shape [OF assms(1), of c] assms(2) by (cases "jstep c y") auto

text \<open>Outside strings the scanner accepts no byte that compacting rewrites.\<close>

definition kept :: "char \<Rightarrow> bool" where
  "kept c \<longleftrightarrow> code c < 128 \<and> \<not> html_char c"

fun lit_ok :: "jmode \<Rightarrow> bool" where
  "lit_ok (Lit r v) = list_all (\<lambda>c. 97 \<le> code c \<and> code c \<le> 122) r"
| "lit_ok _ = True"

lemma kept_simps:
  "is_ws c \<Longrightarrow> kept c" "is_digit c \<Longrightarrow> kept c" "is_hex c \<Longrightarrow> kept c" "kept QUOTE" "kept BSLASH"
  "c \<in> set ''{}[],:-+.0eEtfnbru/'' \<Longrightarrow> kept c"
  by (auto simp: kept_def html_char_def is_ws_def is_digit_def is_hex_def QUOTE_def BSLASH_def)

lemma kept_letter: "97 \<le> code c \<Longrightarrow> code c \<le> 122 \<Longrightarrow> kept c"
  by (auto simp: kept_def html_char_def)

lemma jend_kept: "jend c st = Some z \<Longrightarrow> kept c"
  by (auto simp: jend_def intro: kept_simps split: if_splits list.splits jframe.splits)

lemma jafter_kept: "jafter c r = Some z \<Longrightarrow> kept c"
  by (auto simp: jafter_def intro: kept_simps jend_kept split: option.splits prod.splits jmode.splits if_splits)

lemma jbegin_kept: "jbegin c st = Some z \<Longrightarrow> kept c"
  by (auto simp: jbegin_def intro: kept_simps split: if_splits)

lemma jstep_kept:
  assumes "jstep c (m, st) = Some x1" and "\<And>k acc. m \<noteq> InStr k acc" and "lit_ok m"
  shows "kept c"
  using assms
  by (cases m) (auto intro: kept_simps kept_letter jend_kept jafter_kept jbegin_kept split: if_splits list.splits)

lemma jcomplete_lit_ok: "jcomplete v st = Some z \<Longrightarrow> lit_ok (fst z)"
  using jcomplete_ended [of v st z] by auto

lemma jend_modes: "jend c st = Some z \<Longrightarrow> lit_ok (fst z) \<and> \<not> in_string (fst z)"
  by (auto simp: jend_def dest: jcomplete_lit_ok jcomplete_not_string split: if_splits list.splits jframe.splits)

lemma jafter_modes: "jafter c (jcomplete v st) = Some z \<Longrightarrow> lit_ok (fst z) \<and> \<not> in_string (fst z)"
  by (auto simp: jafter_def dest: jend_modes split: option.splits prod.splits jmode.splits if_splits)

lemma jbegin_modes:
  "jbegin c st = Some z \<Longrightarrow> lit_ok (fst z) \<and> (in_string (fst z) \<longrightarrow> c = QUOTE) \<and> \<not> in_escape (fst z)"
  by (auto simp: jbegin_def jpush_def kept_def html_char_def split: if_splits)

lemma in_escape_string: "in_escape m \<Longrightarrow> in_string m"
  by (cases m) auto

lemma jstring_done_modes: "jstring_done k acc st = Some z \<Longrightarrow> lit_ok (fst z) \<and> \<not> in_string (fst z)"
  by (cases "(k, acc, st)" rule: jstring_done.cases) (auto dest: jcomplete_lit_ok jcomplete_not_string)

lemma jstep_lit_ok: "jstep c (m, st) = Some z \<Longrightarrow> lit_ok m \<Longrightarrow> lit_ok (fst z)"
  by (cases m)
    (auto dest: jcomplete_lit_ok jend_modes jafter_modes jbegin_modes jstring_done_modes
      split: if_splits list.splits jframe.splits)

lemma not_escape: "\<not> in_string m \<Longrightarrow> \<not> in_escape m"
  by (cases m) auto

lemma quote_ends_nothing: "jend QUOTE st = None" "jafter QUOTE (jcomplete v st) = None"
proof -
  have e: "jend QUOTE st = None" for st
    by (auto simp: jend_def is_ws_def QUOTE_def split: list.splits jframe.splits)
  have ws: "\<not> is_ws QUOTE" by (simp add: is_ws_def QUOTE_def)
  show "jend QUOTE st = None" by (rule e)
  show "jafter QUOTE (jcomplete v st) = None"
    by (cases "(v, st)" rule: jcomplete.cases) (auto simp: jafter_def e ws)
qed

lemma jstep_outside:
  assumes "jstep c (m, st) = Some z" and "\<not> in_string m" and "lit_ok m"
  shows "(in_string (fst z) \<longleftrightarrow> c = QUOTE) \<and> \<not> in_escape (fst z)"
proof (cases "c = QUOTE")
  case True
  have q: "\<not> is_ws QUOTE" "QUOTE \<noteq> CHR '']''" "QUOTE \<noteq> CHR '':''" "QUOTE \<noteq> CHR ''0''" "\<not> is_digit QUOTE"
      "QUOTE \<noteq> CHR ''.''" "QUOTE \<noteq> CHR ''e''" "QUOTE \<noteq> CHR ''E''" "QUOTE \<noteq> CHR ''+''" "QUOTE \<noteq> CHR ''-''" "code QUOTE < 97"
    by (simp_all add: QUOTE_def is_ws_def is_digit_def)
  show ?thesis
    using assms unfolding True
    by (cases m) (auto simp: q quote_ends_nothing jbegin_def split: if_splits list.splits, auto simp: QUOTE_def)
next
  case False
  have "\<not> in_string (fst z)"
    using assms False
    by (cases m) (auto dest: jcomplete_not_string jend_modes jafter_modes jbegin_modes
        split: if_splits list.splits jframe.splits)
  then show ?thesis using False not_escape by simp
qed

lemma jstep_inside:
  assumes "jstep c (m, st) = Some z" and "in_string m"
  shows "in_string (fst z) = (in_escape m \<or> c \<noteq> QUOTE) \<and> in_escape (fst z) = (\<not> in_escape m \<and> c = BSLASH)"
proof (cases m)
  case (InStr k acc)
  then show ?thesis
    using assms not_escape by (auto dest: jstring_done_modes simp: QUOTE_def BSLASH_def split: if_splits)
next
  case (InEsc k acc)
  then show ?thesis using assms by (auto split: if_splits)
next
  case (InEscU n k acc)
  have "\<not> is_hex QUOTE" "\<not> is_hex BSLASH" by (simp_all add: QUOTE_def BSLASH_def is_hex_def is_digit_def)
  then show ?thesis using InEscU assms by (auto split: if_splits)
qed (use assms in simp_all)

text \<open>One byte that compacting keeps.\<close>

lemma ended_step:
  assumes "jcomplete v st = Some z" and "jstep c z = Some x1" and "\<not> is_ws c"
  shows "\<not> number_char c" and "jafter c (jcomplete v st) = jstep c z"
proof -
  have ends: "\<not> number_char c" if "jend c st' = Some x1" for st'
    using that assms(3)
    by (auto simp: jend_def number_char_def is_digit_def split: list.splits jframe.splits if_splits)
  show "\<not> number_char c"
    using assms ends by (cases "(v, st)" rule: jcomplete.cases) auto
  show "jafter c (jcomplete v st) = jstep c z"
    using jstep_complete [OF assms(1)] assms(1) by simp
qed

lemma in_step_kept:
  assumes "in_step x y" and "jstep c x = Some x1" and "\<not> is_ws c \<or> in_string (fst x)"
  shows "\<exists>y1. jstep c y = Some y1 \<and> in_step x1 y1"
proof (cases "shape x = shape y")
  case True
  from step_shape_obtain [OF True assms(2)] show ?thesis unfolding in_step_def by blast
next
  case False
  with assms(1) obtain acc z where z: "number_text (fst y) = Some acc"
      "jcomplete (JNum (rev acc)) (snd y) = Some z" "shape z = shape x"
    unfolding in_step_def by blast
  have ws: "\<not> is_ws c" using assms(3) False in_step_string [OF assms(1)] by blast
  from step_shape_obtain [OF z(3) [symmetric] assms(2)] obtain z1 where z1: "jstep c z = Some z1" "shape x1 = shape z1" .
  have "jstep c y = Some z1"
    using number_step [OF z(1) ended_step(1) [OF z(2) z1(1) ws], of "snd y"] ended_step(2) [OF z(2) z1(1) ws] z1(1)
    by simp
  with z1(2) show ?thesis by (auto simp: in_step_def)
qed

text \<open>Whitespace outside strings, which compacting drops.\<close>

lemma jafter_ws: "is_ws c \<Longrightarrow> jafter c (jcomplete v st) = jcomplete v st"
  by (cases "(v, st)" rule: jcomplete.cases) (auto simp: jafter_def jend_def)

lemma shape_number:
  "mode_shape m = mode_shape m' \<Longrightarrow> number_text m = Some acc \<Longrightarrow> \<exists>acc'. number_text m' = Some acc'"
  by (cases m; cases m') auto

lemma in_step_ws:
  assumes "in_step x y" and "jstep c x = Some x1" and "is_ws c" and "\<not> in_string (fst x)" and "lit_ok (fst x)"
  shows "in_step x1 y"
proof -
  obtain m st where x: "x = (m, st)" by (cases x)
  have c: "\<not> number_char c" "c \<noteq> CHR ''0''" "c \<noteq> CHR ''-''" "c \<noteq> CHR ''+''" "\<not> (97 \<le> code c \<and> code c \<le> 122)"
    using assms(3) by (auto simp: is_ws_def number_char_def is_digit_def)
  show ?thesis
  proof (cases "number_text m")
    case None
    then have "x1 = x"
      using assms c unfolding x
      by (cases m) (auto simp: jbegin_def jend_def number_char_def split: list.splits if_splits)
    then show ?thesis using assms(1) by simp
  next
    case (Some acc)
    have "shape x = shape y"
    proof (rule ccontr)
      assume "shape x \<noteq> shape y"
      with assms(1) obtain v st' z where z: "jcomplete v st' = Some z" "shape z = shape x"
        unfolding in_step_def by blast
      from jcomplete_ended [OF z(1)] z(2) Some show False unfolding x by (cases z; cases m) auto
    qed
    then obtain m' st' where y: "y = (m', st')" "mode_shape m = mode_shape m'" "map frame_shape st = map frame_shape st'"
      unfolding x by (cases y) auto
    obtain acc' where acc': "number_text m' = Some acc'" using shape_number [OF y(2) Some] by blast
    have "jcomplete (JNum (rev acc)) st = Some x1"
      using number_step [OF Some c(1), of st] assms(2) jafter_ws [OF assms(3)] unfolding x by simp
    then have "map_option shape (jcomplete (JNum (rev acc')) st') = Some (shape x1)"
      using jcomplete_shape [of "JNum (rev acc)" st JNull] jcomplete_shape [of "JNum (rev acc')" st' JNull] y(3) by simp
    then show ?thesis using acc' unfolding in_step_def y(1) by auto
  qed
qed

section \<open>Whole texts\<close>

lemma in_step_InStr:
  assumes "in_step (InStr k acc, st) y"
  shows "\<exists>acc' st'. y = (InStr k acc', st') \<and> map frame_shape st = map frame_shape st'"
  using shape_InStr [OF in_step_string [OF assms]] by simp

lemma rewritten_in_string:
  "jstep c (m, st) = Some x \<Longrightarrow> lit_ok m \<Longrightarrow> \<not> kept c \<Longrightarrow> \<exists>k acc. m = InStr k acc"
  using jstep_kept by blast

lemma line_sep_bytes:
  "line_sep (c # cs) \<Longrightarrow> \<exists>a b ds. cs = a # b # ds \<and> 128 \<le> code c \<and> 128 \<le> code a \<and> 128 \<le> code b"
  by (cases "c # cs" rule: line_sep.cases) auto

lemma jstep_high: "128 \<le> code c \<Longrightarrow> jstep c (InStr k acc, st) = Some (InStr k (c # acc), st)"
  by (auto simp: QUOTE_def BSLASH_def)

text \<open>What compacting does with one byte, by the mode it is scanned in.\<close>

lemma compact_html: "html_char c \<Longrightarrow> compact ins e (c # cs) = u00 c @ compact ins False cs"
  by simp

lemma compact_sep:
  "\<not> html_char c \<Longrightarrow> line_sep (c # cs) \<Longrightarrow> compact ins e (c # cs) = u202 (cs ! 1) @ compact ins False (drop 2 cs)"
  by simp

lemma compact_step:
  assumes "jstep c (m, st) = Some (m1, st1)" and "lit_ok m" and "\<not> html_char c" and "\<not> line_sep (c # cs)"
    and "in_string m \<or> \<not> is_ws c"
  shows "compact (in_string m) (in_escape m) (c # cs) = c # compact (in_string m1) (in_escape m1) cs"
proof (cases "in_string m")
  case True
  then show ?thesis
    using assms jstep_inside [OF assms(1) True] by (cases "in_escape m") (auto simp: BSLASH_def QUOTE_def)
next
  case False
  then show ?thesis
    using assms jstep_outside [OF assms(1) False assms(2)] not_escape [OF False] by (cases "c = QUOTE") simp_all
qed

lemma compact_ws:
  assumes "jstep c (m, st) = Some (m1, st1)" and "lit_ok m" and "\<not> html_char c" and "\<not> line_sep (c # cs)"
    and "\<not> in_string m" and "is_ws c"
  shows "compact (in_string m) (in_escape m) (c # cs) = compact (in_string m1) (in_escape m1) cs"
proof -
  have "c \<noteq> QUOTE" using assms(6) by (auto simp: is_ws_def QUOTE_def)
  then show ?thesis
    using assms jstep_outside [OF assms(1,5,2)] not_escape [OF assms(5)] by simp
qed

text \<open>The two rewritten sequences, in a string.\<close>

lemma html_in_step:
  assumes "jrun (c # cs) (m, st) = Some x'" and "in_step (m, st) y" and "lit_ok m" and "html_char c"
  obtains k acc acc' st' where "m = InStr k acc" and "y = (InStr k acc', st')"
    and "jrun cs (InStr k (c # acc), st) = Some x'"
    and "in_step (InStr k (c # acc), st) (InStr k (rev (u00 c) @ acc'), st')"
proof -
  obtain x1 where step: "jstep c (m, st) = Some x1" and run: "jrun cs x1 = Some x'"
    using assms(1) by (auto split: option.splits)
  have "\<not> kept c" using assms(4) by (simp add: kept_def)
  with rewritten_in_string [OF step assms(3)] obtain k acc where m: "m = InStr k acc" by blast
  with in_step_InStr assms(2) obtain acc' st' where y: "y = (InStr k acc', st')" "map frame_shape st = map frame_shape st'"
    by blast
  have "x1 = (InStr k (c # acc), st)"
    using step assms(4) unfolding m by (auto simp: html_char_def QUOTE_def BSLASH_def)
  with m y run show thesis by (intro that) (auto simp: in_step_def)
qed

lemma sep_in_step:
  assumes "jrun (c # cs) (m, st) = Some x'" and "in_step (m, st) y" and "lit_ok m" and "line_sep (c # cs)"
  obtains k acc acc' st' acc1 where "m = InStr k acc" and "y = (InStr k acc', st')"
    and "jrun (drop 2 cs) (InStr k acc1, st) = Some x'"
    and "in_step (InStr k acc1, st) (InStr k (rev (u202 (cs ! 1)) @ acc'), st')"
proof -
  obtain a b ds where cs: "cs = a # b # ds" "128 \<le> code c" "128 \<le> code a" "128 \<le> code b"
    using line_sep_bytes [OF assms(4)] by blast
  obtain x1 where step: "jstep c (m, st) = Some x1"
    using assms(1) by (auto split: option.splits)
  have "\<not> kept c" using cs(2) by (simp add: kept_def)
  with rewritten_in_string [OF step assms(3)] obtain k acc where m: "m = InStr k acc" by blast
  with in_step_InStr assms(2) obtain acc' st' where y: "y = (InStr k acc', st')" "map frame_shape st = map frame_shape st'"
    by blast
  have "jrun ds (InStr k (b # a # c # acc), st) = Some x'"
    using assms(1) unfolding cs(1) m by (simp add: jstep_high cs del: jstep.simps)
  with m y show thesis by (intro that [of k acc acc' st' "b # a # c # acc"]) (auto simp: in_step_def cs(1))
qed

lemma compact_in_step:
  assumes "jrun p (m, st) = Some x'" and "in_step (m, st) y" and "lit_ok m"
  shows "\<exists>y'. jrun (compact (in_string m) (in_escape m) p) y = Some y' \<and> in_step x' y'"
  using assms
proof (induction "length p" arbitrary: p m st y rule: less_induct)
  case less
  show ?case
  proof (cases p)
    case Nil
    then show ?thesis using less.prems by simp
  next
    case (Cons c cs)
    note IH = less.hyps [unfolded Cons]
    obtain m1 st1 where step: "jstep c (m, st) = Some (m1, st1)" and run: "jrun cs (m1, st1) = Some x'"
      using less.prems(1) unfolding Cons by (auto split: option.splits)
    have lit1: "lit_ok m1" using jstep_lit_ok [OF step less.prems(3)] by simp
    consider (html) "html_char c" | (sep) "\<not> html_char c" "line_sep (c # cs)"
      | (ws) "\<not> html_char c" "\<not> line_sep (c # cs)" "\<not> in_string m" "is_ws c"
      | (keep) "\<not> html_char c" "\<not> line_sep (c # cs)" "in_string m \<or> \<not> is_ws c"
      by blast
    then show ?thesis
    proof cases
      case html
      from html_in_step [OF less.prems [unfolded Cons] html] obtain k acc acc' st' where
        h: "m = InStr k acc" "y = (InStr k acc', st')" "jrun cs (InStr k (c # acc), st) = Some x'"
          "in_step (InStr k (c # acc), st) (InStr k (rev (u00 c) @ acc'), st')" .
      from IH [OF _ h(3,4)] show ?thesis
        unfolding Cons compact_html [OF html] h(1,2) jrun_append jrun_u00 by simp
    next
      case sep
      from sep_in_step [OF less.prems [unfolded Cons] sep(2)] obtain k acc acc' st' acc1 where
        h: "m = InStr k acc" "y = (InStr k acc', st')" "jrun (drop 2 cs) (InStr k acc1, st) = Some x'"
          "in_step (InStr k acc1, st) (InStr k (rev (u202 (cs ! 1)) @ acc'), st')" .
      from IH [OF _ h(3,4)] show ?thesis
        unfolding Cons compact_sep [OF sep] h(1,2) jrun_append jrun_u202 by simp
    next
      case ws
      have "in_step (m1, st1) y" using in_step_ws [OF less.prems(2) step ws(4)] ws(3) less.prems(3) by simp
      from IH [OF _ run this lit1] show ?thesis
        unfolding Cons compact_ws [OF step less.prems(3) ws] by simp
    next
      case keep
      from in_step_kept [OF less.prems(2) step] keep(3) obtain y1 where
        y1: "jstep c y = Some y1" "in_step (m1, st1) y1" by auto
      from IH [OF _ run y1(2) lit1] show ?thesis
        unfolding Cons compact_step [OF step less.prems(3) keep] jrun.simps y1(1) by simp
    qed
  qed
qed

lemma jeof_in_step: "jeof x = Some v \<Longrightarrow> in_step x y \<Longrightarrow> jeof y \<noteq> None"
proof -
  assume v: "jeof x = Some v" and xy: "in_step x y"
  obtain m st where x: "x = (m, st)" by (cases x)
  obtain m' st' where y: "y = (m', st')" by (cases y)
  show ?thesis
  proof (cases "shape x = shape y")
    case True
    then show ?thesis using v unfolding x y by (cases m; cases m'; cases st; cases st') auto
  next
    case False
    with xy obtain acc z where z: "number_text m' = Some acc" "jcomplete (JNum (rev acc)) st' = Some z" "shape z = shape x"
      unfolding in_step_def y by auto
    have "m \<noteq> EndValue" using v unfolding x by (cases st) auto
    with z jcomplete_ended [OF z(2)] have "st' = []"
      unfolding x by (cases "(JNum (rev acc), st')" rule: jcomplete.cases) (cases m; auto)+
    with z(1) show ?thesis unfolding y by (cases m') auto
  qed
qed

lemma compact_valid:
  assumes "json_Valid p"
  shows "json_Valid (compact False False p)"
proof -
  obtain x v where x: "jrun p (BeginValue, []) = Some x" "jeof x = Some v"
    using assms unfolding json_Valid_def json_parse_def by (cases "jrun p (BeginValue, [])") auto
  have "in_step (BeginValue, []) (BeginValue, [])" by (simp add: in_step_def)
  from compact_in_step [OF x(1) this] obtain y where
    "jrun (compact False False p) (BeginValue, []) = Some y" "in_step x y" by auto
  with jeof_in_step [OF x(2)] show ?thesis unfolding json_Valid_def json_parse_def by auto
qed

section \<open>A valid text inside another\<close>

text \<open>Scanning the text by itself (\<open>x\<close>) and above the stack \<open>b\<close> (\<open>y\<close>).\<close>

fun above :: "jframe list \<Rightarrow> jstate \<Rightarrow> jstate \<Rightarrow> bool" where
  "above b (EndTop v, st) y = (jcomplete v b = Some y)"
| "above b (m, st) y = (y = (m, st @ b))"

definition keeps_above :: "jframe list \<Rightarrow> jstate option \<Rightarrow> jstate option \<Rightarrow> bool" where
  "keeps_above b r r' \<longleftrightarrow> (\<forall>x. r = Some x \<longrightarrow> r' = None \<or> (\<exists>y. r' = Some y \<and> above b x y))"

lemma keeps_above_simps [simp]:
  "keeps_above b None r'" "keeps_above b r None" "keeps_above b (Some x) (Some y) = above b x y"
  by (simp_all add: keeps_above_def)

lemma above_complete: "keeps_above b (jcomplete v st) (jcomplete v (st @ b))"
proof (cases "(v, st)" rule: jcomplete.cases)
  case (1 v')
  then show ?thesis by (cases "jcomplete v b") simp_all
qed simp_all

lemma above_end:
  assumes "st \<noteq> []"
  shows "keeps_above b (jend c st) (jend c (st @ b))"
proof -
  obtain f st' where st: "st = f # st'" using assms by (cases st) auto
  show ?thesis unfolding st by (cases f) (simp_all add: jend_def above_complete)
qed

lemma above_after: "keeps_above b (jafter c (jcomplete v st)) (jafter c (jcomplete v (st @ b)))"
proof (cases "(v, st)" rule: jcomplete.cases)
  case (1 v')
  show ?thesis
  proof (cases "is_ws c")
    case True
    then show ?thesis using above_complete by (simp add: jafter_ws)
  next
    case False
    with 1 show ?thesis by (simp add: jafter_def)
  qed
next
  case (2 v' vs st')
  then show ?thesis using above_end [of "FArr (v # vs) # st'" b c] by (simp add: jafter_def)
next
  case (3 v' k ms st')
  then show ?thesis using above_end [of "FObj ((k, v) # ms) # st'" b c] by (simp add: jafter_def)
qed (simp add: jafter_def)

lemma above_push:
  "keeps_above b (jpush f BeginStringOrEmpty st) (jpush f BeginStringOrEmpty (st @ b))"
  "keeps_above b (jpush f BeginValueOrEmpty st) (jpush f BeginValueOrEmpty (st @ b))"
  by (simp_all add: jpush_def)

lemma above_begin: "keeps_above b (jbegin c st) (jbegin c (st @ b))"
  by (simp add: jbegin_def above_push)

lemma above_string_done: "keeps_above b (jstring_done k acc st) (jstring_done k acc (st @ b))"
  using above_complete by (cases "(k, acc, st)" rule: jstring_done.cases) simp_all

lemma above_step:
  assumes "above b (m, st) y"
  shows "keeps_above b (jstep c (m, st)) (jstep c y)"
proof (cases m)
  case (EndTop v)
  then have "jcomplete v b = Some y" using assms by simp
  then show ?thesis
    using EndTop jstep_complete [of v b y c] jafter_ws [of c v b] by simp
next
  case (InStr k acc)
  then show ?thesis using assms above_string_done [of b k acc st] by simp
next
  case EndValue
  then show ?thesis
    using assms above_end [of st b c] by (cases "st = []") (simp_all add: jend_def)
next
  case (Lit r v)
  then show ?thesis using assms above_complete [of b v st] by (cases r) simp_all
next
  case BeginValueOrEmpty
  then show ?thesis
    using assms above_begin [of b c st] above_complete [of b _ "tl st"]
    by (cases st rule: list.exhaust; cases "hd st") (simp_all split: list.split jframe.split)
next
  case BeginStringOrEmpty
  then show ?thesis
    using assms above_complete [of b _ "tl st"]
    by (cases st rule: list.exhaust; cases "hd st") (simp_all split: list.split jframe.split)
qed (use assms above_begin [of b c st] above_after [of b c _ st] in simp_all)

lemma above_run: "above b x y \<Longrightarrow> keeps_above b (jrun p x) (jrun p y)"
proof (induction p arbitrary: x y)
  case (Cons c cs)
  have "keeps_above b (jstep c x) (jstep c y)" using above_step Cons.prems by (cases x) blast
  then show ?case using Cons.IH by (cases "jstep c x"; cases "jstep c y") auto
qed simp

text \<open>\<open>fits d t v\<close>: scanned inside a stack that leaves \<open>d\<close> levels, the value text \<open>t\<close> is
  rejected or completes the value \<open>v\<close>.\<close>

definition fits :: "nat \<Rightarrow> string \<Rightarrow> json \<Rightarrow> bool" where
  "fits d t v \<longleftrightarrow> (\<forall>st c. length st + d \<le> maxNestingDepth \<longrightarrow> closing c \<longrightarrow>
     jrun (t @ [c]) (BeginValue, st) = None \<or> jrun (t @ [c]) (BeginValue, st) = jafter c (jcomplete v st))"

lemma yields_fits: "yields d t v \<Longrightarrow> fits d t v"
  by (simp add: yields_def fits_def)

lemma closing_ends: "closing c \<Longrightarrow> \<not> number_char c \<and> \<not> is_ws c"
  by (auto simp: closing_def number_char_def is_digit_def is_ws_def)

lemma parsed_fits:
  assumes "json_parse p = Some v"
  shows "fits d p v"
  unfolding fits_def
proof (intro allI impI)
  fix b c assume c: "closing c"
  obtain m st where x: "jrun p (BeginValue, []) = Some (m, st)" "jeof (m, st) = Some v"
    using assms unfolding json_parse_def by (cases "jrun p (BeginValue, [])") auto
  from above_run [of b "(BeginValue, [])" "(BeginValue, b)" p] x(1)
  consider "jrun p (BeginValue, b) = None" | y where "jrun p (BeginValue, b) = Some y" "above b (m, st) y"
    by (cases "jrun p (BeginValue, b)") auto
  then show "jrun (p @ [c]) (BeginValue, b) = None \<or> jrun (p @ [c]) (BeginValue, b) = jafter c (jcomplete v b)"
  proof cases
    case 1
    then show ?thesis by (simp add: jrun_append)
  next
    case (2 y)
    have "jstep c y = jafter c (jcomplete v b)"
    proof (cases "number_text m")
      case None
      then have "m = EndTop v" using x(2) by (cases m; cases st) auto
      then show ?thesis using 2(2) jstep_complete [of v b y c] by simp
    next
      case (Some acc)
      then have "st = []" "v = JNum (rev acc)" "y = (m, b)" using x(2) 2(2) by (cases m; cases st; auto)+
      then show ?thesis using number_step [OF Some, of c b] closing_ends [OF c] by simp
    qed
    then show ?thesis using 2(1) by (cases "jstep c y") (auto simp: jrun_append split: option.splits)
  qed
qed

lemma fits_member:
  assumes "plain_key k" and "m = BeginString \<or> m = BeginStringOrEmpty" and "fits d t v"
    and "length st + 1 + d \<le> maxNestingDepth" and "closing c"
  shows "jrun (jmember (k, t) @ [c]) (m, FObj ms # st) = None
    \<or> jrun (jmember (k, t) @ [c]) (m, FObj ms # st) = jend c (FObj ((k, v) # ms) # st)"
proof -
  have e: "jmember (k, t) @ [c] = (QUOTE # k @ [QUOTE, CHR '':'']) @ (t @ [c])"
    by (simp add: jmember_def)
  have "jrun (t @ [c]) (BeginValue, FKey k ms # st) = None
      \<or> jrun (t @ [c]) (BeginValue, FKey k ms # st) = jend c (FObj ((k, v) # ms) # st)"
    using assms(3) [unfolded fits_def, rule_format, of "FKey k ms # st" c] assms(4,5) by (simp add: jafter_def)
  then show ?thesis
    unfolding e jrun_append [of "QUOTE # k @ [QUOTE, CHR '':'']"] jrun_key [OF assms(1,2), of ms st] by simp
qed

lemma fits_members:
  assumes "kts \<noteq> []" and "\<forall>(k, t, v) \<in> set kts. plain_key k \<and> fits d t v"
    and "m = BeginString \<or> m = BeginStringOrEmpty" and "length st + 1 + d \<le> maxNestingDepth"
  shows "jrun (jmembers (texts kts) @ ''}'') (m, FObj ms # st) = None
    \<or> jrun (jmembers (texts kts) @ ''}'') (m, FObj ms # st) = jcomplete (JObj (rev ms @ vals kts)) st"
  using assms
proof (induction kts arbitrary: m ms)
  case (Cons kt kts)
  obtain k t v where kt: "kt = (k, t, v)" by (cases kt)
  have y: "plain_key k" "fits d t v" using Cons.prems(2) by (auto simp: kt)
  note mem = fits_member [OF y(1) Cons.prems(3) y(2) Cons.prems(4)]
  show ?case
  proof (cases "kts = []")
    case True
    then show ?thesis
      using mem [of "CHR ''}''" ms] by (simp add: kt closing_def jend_def is_ws_def)
  next
    case False
    then have e: "jmembers (texts (kt # kts)) @ ''}''
        = (jmember (k, t) @ [CHR '','']) @ (jmembers (texts kts) @ ''}'')"
      by (cases kts) (auto simp: kt)
    have "jrun (jmember (k, t) @ [CHR '','']) (m, FObj ms # st) = None
        \<or> jrun (jmember (k, t) @ [CHR '','']) (m, FObj ms # st) = Some (BeginString, FObj ((k, v) # ms) # st)"
      using mem [of "CHR '',''" ms] by (simp add: closing_def jend_def is_ws_def)
    then show ?thesis
      unfolding e jrun_append [of "jmember (k, t) @ [CHR '','']"]
      using Cons.IH [OF False _ _ Cons.prems(4), of BeginString "(k, v) # ms"] Cons.prems(2) by (auto simp: kt)
  qed
qed simp

text \<open>A marshalled object with raw members that is valid has exactly its members.\<close>

lemma json_parse_fits:
  assumes "kts \<noteq> []" and "\<forall>(k, t, v) \<in> set kts. plain_key k \<and> fits d t v" and "Suc d \<le> maxNestingDepth"
    and "json_Valid (jobject (texts kts))"
  shows "json_parse (jobject (texts kts)) = Some (JObj (vals kts))"
proof -
  have "jstep (CHR ''{'') (BeginValue, []) = Some (BeginStringOrEmpty, [FObj []])"
    by (simp add: jbegin_def is_ws_def jpush_def maxNestingDepth_def)
  then have "jrun (jobject (texts kts)) (BeginValue, []) = jrun (jmembers (texts kts) @ ''}'') (BeginStringOrEmpty, [FObj []])"
    by (simp add: jobject_def del: jstep.simps)
  then show ?thesis
    using fits_members [OF assms(1,2), of BeginStringOrEmpty "[]" "[]"] assms(3,4)
    by (auto simp: json_parse_def json_Valid_def)
qed

section \<open>Compacting a marshalled object\<close>

lemma line_sep_across:
  assumes "line_sep (c # cs @ rest)" and "\<not> line_sep (c # cs)" and "jrun (c # cs) (m, st) = Some x" and "lit_ok m"
  shows "in_string (fst x)"
proof -
  obtain a b ds where cs: "cs @ rest = a # b # ds" "128 \<le> code c" "128 \<le> code a"
    using line_sep_bytes [OF assms(1)] by blast
  obtain x1 where step: "jstep c (m, st) = Some x1"
    using assms(3) by (auto split: option.splits)
  have "\<not> kept c" using cs(2) by (simp add: kept_def)
  with rewritten_in_string [OF step assms(4)] obtain k acc where m: "m = InStr k acc" by blast
  consider "cs = []" | "cs = [a]" | e where "cs = a # b # e"
    using cs(1) by (auto simp: Cons_eq_append_conv append_eq_Cons_conv)
  then show ?thesis
  proof cases
    case 3
    then have "line_sep (c # cs)" using assms(1) by simp
    then show ?thesis using assms(2) by simp
  qed (use assms(3) cs(2,3) in \<open>auto simp: m jstep_high simp del: jstep.simps\<close>)
qed

lemma compact_append:
  assumes "jrun p (m, st) = Some x" and "\<not> in_string (fst x)" and "lit_ok m"
  shows "compact (in_string m) (in_escape m) (p @ rest) = compact (in_string m) (in_escape m) p @ compact False False rest"
  using assms
proof (induction "length p" arbitrary: p m st rule: less_induct)
  case less
  show ?case
  proof (cases p)
    case Nil
    then show ?thesis using less.prems not_escape by auto
  next
    case (Cons c cs)
    note IH = less.hyps [unfolded Cons]
    obtain m1 st1 where step: "jstep c (m, st) = Some (m1, st1)" and run: "jrun cs (m1, st1) = Some x"
      using less.prems(1) unfolding Cons by (auto split: option.splits)
    have lit1: "lit_ok m1" using jstep_lit_ok [OF step less.prems(3)] by simp
    have self: "in_step (m, st) (m, st)" by (simp add: in_step_def)
    have across: "line_sep (c # cs @ rest) = line_sep (c # cs)"
      using line_sep_across [of c cs rest m st x] less.prems unfolding Cons
      by (cases "c # cs" rule: line_sep.cases) auto
    consider (html) "html_char c" | (sep) "\<not> html_char c" "line_sep (c # cs)"
      | (ws) "\<not> html_char c" "\<not> line_sep (c # cs)" "\<not> in_string m" "is_ws c"
      | (keep) "\<not> html_char c" "\<not> line_sep (c # cs)" "in_string m \<or> \<not> is_ws c"
      by blast
    then show ?thesis
    proof cases
      case html
      from html_in_step [OF less.prems(1) [unfolded Cons] self less.prems(3) html] obtain k acc where
        h: "m = InStr k acc" "jrun cs (InStr k (c # acc), st) = Some x" by metis
      from IH [OF _ h(2) less.prems(2)] show ?thesis
        unfolding Cons append_Cons compact_html [OF html] h(1) by simp
    next
      case sep
      then have sep': "line_sep (c # cs @ rest)" using across by simp
      obtain a b ds where cs: "cs = a # b # ds" using line_sep_bytes [OF sep(2)] by blast
      from sep_in_step [OF less.prems(1) [unfolded Cons] self less.prems(3) sep(2)] obtain k acc acc1 where
        h: "m = InStr k acc" "jrun (drop 2 cs) (InStr k acc1, st) = Some x" by metis
      from IH [OF _ h(2) less.prems(2)] show ?thesis
        unfolding Cons append_Cons compact_sep [OF sep] compact_sep [OF sep(1) sep'] h(1) by (simp add: cs)
    next
      case ws
      then have ws': "\<not> line_sep (c # cs @ rest)" using across by simp
      from IH [OF _ run less.prems(2) lit1] show ?thesis
        unfolding Cons append_Cons compact_ws [OF step less.prems(3) ws] compact_ws [OF step less.prems(3) ws(1) ws' ws(3,4)]
        by simp
    next
      case keep
      then have keep': "\<not> line_sep (c # cs @ rest)" using across by simp
      from IH [OF _ run less.prems(2) lit1] show ?thesis
        unfolding Cons append_Cons compact_step [OF step less.prems(3) keep]
          compact_step [OF step less.prems(3) keep(1) keep' keep(3)] by simp
    qed
  qed
qed

lemma compact_value:
  assumes "json_Valid p"
  shows "compact False False (p @ rest) = compact False False p @ compact False False rest"
proof -
  obtain m st v where x: "jrun p (BeginValue, []) = Some (m, st)" "jeof (m, st) = Some v"
    using assms unfolding json_Valid_def json_parse_def by (cases "jrun p (BeginValue, [])") auto
  then have "\<not> in_string m" by (cases m; cases st) auto
  with compact_append [OF x(1)] show ?thesis by simp
qed

text \<open>Strings and numbers as marshalled are compact already.\<close>

definition quiet_byte :: "char \<Rightarrow> bool" where
  "quiet_byte c \<longleftrightarrow> c \<noteq> QUOTE \<and> c \<noteq> BSLASH \<and> \<not> html_char c \<and> code c \<noteq> 226"

lemma not_line_sep: "code c \<noteq> 226 \<Longrightarrow> \<not> line_sep (c # cs)"
  by (cases "c # cs" rule: line_sep.cases) auto

lemma compact_quiet: "list_all quiet_byte cs \<Longrightarrow> compact True False (cs @ rest) = cs @ compact True False rest"
  by (induction cs) (auto simp: quiet_byte_def not_line_sep)

lemma compact_bslash:
  "\<not> html_char c \<Longrightarrow> code c < 128 \<Longrightarrow> compact True False (BSLASH # c # rest) = BSLASH # c # compact True False rest"
  by (simp add: not_line_sep html_char_def BSLASH_def)

lemma hex_quiet: "is_hex c \<Longrightarrow> quiet_byte c"
  by (auto simp: is_hex_def is_digit_def quiet_byte_def QUOTE_def BSLASH_def html_char_def)

lemmas hexdig_quiet = hex_quiet [OF hexdig_is_hex]

lemma compact_u00: "compact True False (u00 c @ rest) = u00 c @ compact True False rest"
proof -
  have "list_all quiet_byte (''00'' @ [hexdig (code c div 16), hexdig (code c mod 16)])"
    using hexdig_quiet code_less [of c] by (simp add: quiet_byte_def QUOTE_def BSLASH_def html_char_def less_mult_imp_div_less)
  from compact_quiet [OF this] show ?thesis
    by (simp add: u00_def compact_bslash html_char_def del: compact.simps)
qed

lemma compact_u202: "compact True False (u202 c @ rest) = u202 c @ compact True False rest"
proof -
  have "list_all quiet_byte (''202'' @ [hexdig (code c mod 16)])"
    using hexdig_quiet by (simp add: quiet_byte_def QUOTE_def BSLASH_def html_char_def)
  from compact_quiet [OF this] show ?thesis
    by (simp add: u202_def compact_bslash html_char_def del: compact.simps)
qed

lemma compact_fffd: "compact True False ((BSLASH # ''ufffd'') @ rest) = (BSLASH # ''ufffd'') @ compact True False rest"
proof -
  have "list_all quiet_byte ''fffd''" by (simp add: quiet_byte_def QUOTE_def BSLASH_def html_char_def)
  from compact_quiet [OF this] show ?thesis by (simp add: compact_bslash html_char_def del: compact.simps)
qed

lemma esc_ascii_cases:
  assumes "code c < 128"
  shows "list_all quiet_byte (esc_ascii c) \<or> esc_ascii c = u00 c
    \<or> (\<exists>d. esc_ascii c = [BSLASH, d] \<and> \<not> html_char d \<and> code d < 128)"
proof (cases "c = QUOTE \<or> c = BSLASH")
  case True
  then have "esc_ascii c = [BSLASH, c]" "\<not> html_char c"
    by (auto simp: esc_ascii_def html_char_def QUOTE_def BSLASH_def)
  with assms show ?thesis by blast
next
  case False
  show ?thesis
  proof (cases "code c < 32 \<or> html_char c")
    case True
    with False show ?thesis by (simp add: esc_ascii_def html_char_def)
  next
    case False2: False
    with False assms show ?thesis by (simp add: esc_ascii_def quiet_byte_def)
  qed
qed

lemma compact_esc_ascii:
  assumes "code c < 128"
  shows "compact True False (esc_ascii c @ rest) = esc_ascii c @ compact True False rest"
  using esc_ascii_cases [OF assms]
proof (elim disjE exE conjE)
  fix d assume "esc_ascii c = [BSLASH, d]" "\<not> html_char d" "code d < 128"
  then show ?thesis using compact_bslash [of d rest] by (simp del: compact.simps)
qed (simp_all add: compact_quiet compact_u00 del: compact.simps)

lemma line_sep_take:
  assumes "utf8_len (c # cs) = n" and "n \<noteq> 0" and "\<not> line_sep (c # cs)"
  shows "\<not> line_sep (c # take (n - 1) cs @ rest)"
  using assms by (cases "code c = 226") (auto simp: not_line_sep split: list.splits if_splits)

lemma compact_sequence:
  assumes "utf8_len (c # cs) = n" and "n \<noteq> 0" and "\<not> code c < 128" and "\<not> line_sep (c # cs)"
  shows "compact True False (c # take (n - 1) cs @ rest) = c # take (n - 1) cs @ compact True False rest"
proof -
  have "list_all quiet_byte (take (n - 1) cs)"
    using assms(1-3)
    by (auto simp: quiet_byte_def QUOTE_def BSLASH_def html_char_def utf8_cont_def split: list.splits if_splits)
  moreover have "\<not> html_char c" "c \<noteq> QUOTE" "c \<noteq> BSLASH"
    using assms(3) by (auto simp: html_char_def QUOTE_def BSLASH_def)
  ultimately show ?thesis using line_sep_take [OF assms(1,2,4)] compact_quiet by simp
qed

lemma compact_esc: "compact True False (esc s @ rest) = esc s @ compact True False rest"
proof (induction s rule: esc.induct)
  case (2 c cs)
  consider "code c < 128" | "\<not> code c < 128" "utf8_len (c # cs) = 0"
    | "\<not> code c < 128" "utf8_len (c # cs) \<noteq> 0" "line_sep (c # cs)"
    | "\<not> code c < 128" "utf8_len (c # cs) \<noteq> 0" "\<not> line_sep (c # cs)"
    by blast
  then show ?case
  proof cases
    case 1
    then show ?thesis
      using "2.IH"(1) compact_esc_ascii by (simp del: compact.simps)
  next
    case 2
    then have e: "esc (c # cs) = (BSLASH # ''ufffd'') @ esc cs" by (simp del: utf8_len.simps)
    show ?thesis unfolding e using "2.IH"(2) [OF 2] compact_fffd by simp
  next
    case 3
    then have e: "esc (c # cs) = u202 (cs ! 1) @ esc (drop 2 cs)" by (simp del: utf8_len.simps)
    show ?thesis unfolding e using "2.IH"(3) [OF 3] compact_u202 by simp
  next
    case 4
    let ?n = "utf8_len (c # cs)"
    have e: "esc (c # cs) = c # take (?n - 1) cs @ esc (drop (?n - 1) cs)" using 4 by (simp del: utf8_len.simps)
    show ?thesis
      unfolding e using "2.IH"(4) [OF 4] compact_sequence [OF refl 4(2,1,3)] by (simp del: compact.simps utf8_len.simps)
  qed
qed simp

lemma compact_quote: "compact False False (quote s @ rest) = quote s @ compact False False rest"
proof -
  have "compact False False (quote s @ rest) = QUOTE # compact True False (esc s @ QUOTE # rest)"
    by (simp add: quote_def QUOTE_def html_char_def not_line_sep is_ws_def)
  also have "\<dots> = QUOTE # esc s @ compact True False (QUOTE # rest)" unfolding compact_esc ..
  also have "compact True False (QUOTE # rest) = QUOTE # compact False False rest"
    by (simp add: QUOTE_def html_char_def not_line_sep BSLASH_def)
  finally show ?thesis by (simp add: quote_def)
qed

lemma compact_digits: "list_all is_digit cs \<Longrightarrow> compact False False (cs @ rest) = cs @ compact False False rest"
  by (induction cs) (auto simp: is_digit_def html_char_def not_line_sep is_ws_def QUOTE_def)

lemma compact_dec: "compact False False (dec n @ rest) = dec n @ compact False False rest"
  by (rule compact_digits [OF dec_digits])

text \<open>Texts that compacting treats on their own, whatever follows.\<close>

definition settles :: "string \<Rightarrow> bool" where
  "settles t \<longleftrightarrow> (\<forall>rest. compact False False (t @ rest) = compact False False t @ compact False False rest)"

lemma settles_quote [simp]: "settles (quote s)" "compact False False (quote s) = quote s"
proof -
  show e: "compact False False (quote s) = quote s" using compact_quote [of s "[]"] by simp
  show "settles (quote s)" by (simp add: settles_def e compact_quote)
qed

lemma settles_dec [simp]: "settles (dec n)" "compact False False (dec n) = dec n"
proof -
  show e: "compact False False (dec n) = dec n" using compact_dec [of n "[]"] by simp
  show "settles (dec n)" by (simp add: settles_def e compact_dec)
qed

lemma settles_valid: "json_Valid p \<Longrightarrow> settles p"
  by (simp add: settles_def compact_value)

lemma compact_member:
  assumes "list_all quiet_byte k" and "settles t"
  shows "compact False False (jmember (k, t) @ rest) = jmember (k, compact False False t) @ compact False False rest"
proof -
  have q: "compact False False (QUOTE # cs) = QUOTE # compact True False cs"
      "compact True False (QUOTE # cs) = QUOTE # compact False False cs"
      "compact False False (CHR '':'' # cs) = CHR '':'' # compact False False cs" for cs
    by (simp_all add: QUOTE_def BSLASH_def html_char_def not_line_sep is_ws_def)
  show ?thesis
    using assms(2) unfolding jmember_def fst_conv snd_conv append_Cons append_assoc q compact_quiet [OF assms(1)]
    by (simp add: q settles_def del: compact.simps)
qed

lemma compact_punctuation:
  "compact False False (CHR ''{'' # cs) = CHR ''{'' # compact False False cs"
  "compact False False (CHR ''}'' # cs) = CHR ''}'' # compact False False cs"
  "compact False False (CHR '','' # cs) = CHR '','' # compact False False cs"
  by (simp_all add: QUOTE_def html_char_def not_line_sep is_ws_def)

lemma compact_members:
  assumes "\<forall>(k, t) \<in> set kvs. list_all quiet_byte k \<and> settles t"
  shows "compact False False (jmembers kvs @ ''}'') = jmembers (map (apsnd (compact False False)) kvs) @ ''}''"
  using assms
proof (induction kvs rule: jmembers.induct)
  case 1
  show ?case by (simp add: compact_punctuation del: compact.simps(2))
next
  case (2 kv)
  then show ?case
    using compact_member [of "fst kv" "snd kv" "''}''"]
    by (cases kv) (simp add: compact_punctuation del: compact.simps(2))
next
  case (3 kv kv' kvs)
  have e: "jmembers (kv # kv' # kvs) @ ''}'' = jmember kv @ CHR '','' # (jmembers (kv' # kvs) @ ''}'')"
    by simp
  obtain k t where kv: "kv = (k, t)" by (cases kv)
  have m: "list_all quiet_byte k" "settles t" using "3.prems" by (auto simp: kv)
  have IH: "compact False False (jmembers (kv' # kvs) @ ''}'')
      = jmembers (map (apsnd (compact False False)) (kv' # kvs)) @ ''}''"
    by (rule "3.IH") (use "3.prems" in auto)
  have "compact False False (jmembers (kv # kv' # kvs) @ ''}'')
      = jmember (k, compact False False t) @ compact False False (CHR '','' # (jmembers (kv' # kvs) @ ''}''))"
    unfolding e unfolding kv by (rule compact_member [OF m])
  also have "\<dots> = jmember (k, compact False False t) @ CHR '','' # (jmembers (map (apsnd (compact False False)) (kv' # kvs)) @ ''}'')"
    unfolding compact_punctuation IH ..
  finally show ?case by (simp add: kv del: compact.simps)
qed

lemma compact_object:
  "\<forall>(k, t) \<in> set kvs. list_all quiet_byte k \<and> settles t \<Longrightarrow>
     compact False False (jobject kvs) = jobject (map (apsnd (compact False False)) kvs)"
  unfolding jobject_def compact_punctuation by (simp only: compact_members)

end
