(* ===== verification/Gateway.thy ===== *)
theory Gateway
  imports Taint GoJSON_Raw
begin

text \<open>
  The messaging gateway (\<^verbatim>\<open>runtime/gateway.go\<close>): channels, conversations, inbound delivery into
  the mailbox, replies and the outbox. The lemmas show what a delivered message says of itself,
  whatever its sender wrote: its taint is external and its source is the conversation it came in
  through; and that a reply goes to no other conversation.
\<close>

definition maxOutboxEntries :: nat where "maxOutboxEntries = 256"

section \<open>Channels and conversations\<close>

definition sourceOf :: "string \<Rightarrow> string \<Rightarrow> supervisor \<Rightarrow> supervisor" where
  "sourceOf mid key s = s\<lparr>sv_sourced := gput mid key (sv_sourced s)\<rparr>"

definition sourceFor :: "string \<Rightarrow> supervisor \<Rightarrow> string" where
  "sourceFor mid s = (case gget (sv_sourced s) mid of None \<Rightarrow> [] | Some key \<Rightarrow> key)"

definition active_channel :: "string \<Rightarrow> supervisor \<Rightarrow> bool" where
  "active_channel ch s =
     (case gget (s_Channels (sv_state s)) ch of None \<Rightarrow> False | Some c \<Rightarrow> ch_State c = ''active'')"

definition conversationLocked :: "string \<Rightarrow> string \<Rightarrow> supervisor \<Rightarrow> (string \<times> messageconversation) option" where
  "conversationLocked ch ex s =
     (let key = conversationKey ch ex
      in case gget (s_Conversations (sv_state s)) key of
           None \<Rightarrow> None
         | Some c \<Rightarrow> if cv_ChannelID c \<noteq> ch \<or> cv_ExternalID c \<noteq> ex then None else Some (key, c))"

definition CreateChannel :: "int \<Rightarrow> string \<Rightarrow> string \<Rightarrow> string \<Rightarrow> supervisor \<Rightarrow> messagechannel result \<times> supervisor" where
  "CreateChannel now princ ch kind s =
     (if ch = [] \<or> length ch > 128 \<or> kind = [] \<or> length kind > 64
      then (Inl (ErrMsg ''invalid message channel''), s)
      else if gget (s_Channels (sv_state s)) ch \<noteq> None then (Inl (ErrMsg ''channel already exists''), s)
      else
        let c = \<lparr>ch_ChannelID = ch, ch_Kind = kind, ch_State = ''active'', ch_CreatedAt = now\<rparr>
        in persist_return c
             (auditLocked now princ [] ''channel.create'' ch ''allow'' kind
               (on_state (s_Channels_update (gput ch c)) s)))"

definition RevokeChannel :: "int \<Rightarrow> string \<Rightarrow> string \<Rightarrow> supervisor \<Rightarrow> unit result \<times> supervisor" where
  "RevokeChannel now princ ch s =
     (case gget (s_Channels (sv_state s)) ch of
        None \<Rightarrow> (Inl ErrChannelNotFound, s)
      | Some c \<Rightarrow>
          persist_return ()
            (auditLocked now princ [] ''channel.revoke'' ch ''allow'' []
              (on_state (s_Channels_update (gput ch (c\<lparr>ch_State := ''revoked''\<rparr>))) s)))"

definition BindConversation ::
  "int \<Rightarrow> string \<Rightarrow> string \<Rightarrow> string \<Rightarrow> string \<Rightarrow> supervisor \<Rightarrow> messageconversation result \<times> supervisor" where
  "BindConversation now princ ch ex i s =
     (if \<not> active_channel ch s then (Inl ErrChannelNotFound, s)
      else if app s i = None then (Inl ErrApplicationNotFound, s)
      else if ex = [] \<or> length ex > 256 then (Inl (ErrMsg ''invalid external identity''), s)
      else
        let key = conversationKey ch ex
        in case gget (s_Conversations (sv_state s)) key of
             Some c \<Rightarrow>
               if cv_ChannelID c \<noteq> ch \<or> cv_ExternalID c \<noteq> ex \<or> cv_ApplicationID c \<noteq> i
               then (Inl ErrConversationBound, s) else persist_return c s
           | None \<Rightarrow>
               let c = \<lparr>cv_ChannelID = ch, cv_ExternalID = ex, cv_Principal = [], cv_ApplicationID = i,
                        cv_LastSequence = 0, cv_CreatedAt = now\<rparr>
               in persist_return c
                    (auditLocked now princ i ''conversation.bind'' key ''allow'' []
                      (on_state (s_Conversations_update (gput key c)) s)))"

definition ListConversations :: "string \<Rightarrow> supervisor \<Rightarrow> messageconversation list" where
  "ListConversations ch s =
     sort_key cv_CreatedAt
       (filter (\<lambda>c. ch = [] \<or> cv_ChannelID c = ch) (map snd (s_Conversations (sv_state s))))"

section \<open>Inbound\<close>

definition gateway_key :: "string \<Rightarrow> string \<Rightarrow> int \<Rightarrow> string" where
  "gateway_key ch ex seq = ''gw:'' @ ch @ '':'' @ ex @ '':'' @ dec_int seq"

text \<open>The envelope: the sender's text, the taint label and the origin, the payload kept raw.\<close>

definition envelope_members :: "string \<Rightarrow> string \<Rightarrow> string \<Rightarrow> int \<Rightarrow> string \<Rightarrow> (string \<times> string) list" where
  "envelope_members txt ch ex seq raw =
     [(''text'', quote txt), (''taint'', dec (unat TaintExternal)), (''source'', quote ''gateway''),
      (''channel'', quote ch), (''external_id'', quote ex), (''sequence'', dec_int seq), (''payload'', raw)]"

definition envelope :: "string \<Rightarrow> string \<Rightarrow> int \<Rightarrow> string \<Rightarrow> string option" where
  "envelope ch ex seq payload =
     map_option (\<lambda>raw. jobject (envelope_members (string_field ''text'' payload) ch ex seq raw)) (marshalRaw payload)"

definition DeliverInbound ::
  "int \<Rightarrow> string \<Rightarrow> string \<Rightarrow> int \<Rightarrow> string \<Rightarrow> supervisor \<Rightarrow> mailboxmessage result \<times> supervisor" where
  "DeliverInbound now ch ex seq payload s =
     (if \<not> active_channel ch s then (Inl ErrChannelNotFound, s)
      else case conversationLocked ch ex s of
        None \<Rightarrow> (Inl ErrConversationNotFound, s)
      | Some (key, cv) \<Rightarrow>
          if seq \<le> 0 \<or> length payload > maxTextBytes \<or> \<not> json_Valid payload
          then (Inl (ErrMsg ''invalid gateway message''), s)
          else if seq \<le> cv_LastSequence cv then
            (case find_key (gateway_key ch ex seq) (mailbox (sv_state s) (cv_ApplicationID cv)) of
               Some m \<Rightarrow> (Inr m, s)
             | None \<Rightarrow> (Inl (ErrMsg ''sequence already routed but record missing''), s))
          else case envelope ch ex seq payload of
            None \<Rightarrow> (Inl (ErrMsg ''json''), s)
          | Some wrapped \<Rightarrow>
              (case enqueueLocked now ''gateway'' (cv_ApplicationID cv) (gateway_key ch ex seq) wrapped s of
                 (Inl e, s1) \<Rightarrow> (Inl e, s1)
               | (Inr m, s1) \<Rightarrow>
                   persist_return m
                     (on_state (s_Conversations_update (gput key (cv\<lparr>cv_LastSequence := seq\<rparr>)))
                       (sourceOf (m_MessageID m) key s1))))"

section \<open>Outbound\<close>

text \<open>Drop the oldest entries that are not pending, at most \<open>n\<close> of them.\<close>

fun drop_terminal :: "nat \<Rightarrow> outboxentry list \<Rightarrow> outboxentry list" where
  "drop_terminal n [] = []"
| "drop_terminal n (e # es) =
     (if n > 0 \<and> ob_Status e \<noteq> ''pending'' then drop_terminal (n - 1) es else e # drop_terminal n es)"

definition enqueueOutboxLocked ::
  "int \<Rightarrow> string \<Rightarrow> string \<Rightarrow> string \<Rightarrow> supervisor \<Rightarrow> outboxentry result \<times> supervisor" where
  "enqueueOutboxLocked now key idempotency payload s =
     (case gget (s_Conversations (sv_state s)) key of
        None \<Rightarrow> (Inl ErrConversationNotFound, s)
      | Some _ \<Rightarrow>
          (case find (\<lambda>e. ob_IdempotencyKey e = idempotency) (s_Outbox (sv_state s)) of
             Some e \<Rightarrow> (Inr e, s)
           | None \<Rightarrow>
               let s1 = bumpSequence s;
                   e = \<lparr>ob_EntryID = ''out-'' @ dec (unat (s_NextSequence (sv_state s1))), ob_ConversationID = key,
                        ob_IdempotencyKey = idempotency, ob_Payload = payload, ob_Status = ''pending'',
                        ob_Attempts = 0, ob_CreatedAt = now, ob_SentAt = 0, ob_Receipt = []\<rparr>;
                   es = s_Outbox (sv_state s1) @ [e]
               in (Inr e, on_state (s_Outbox_update (\<lambda>_. drop_terminal (length es - maxOutboxEntries) es)) s1)))"

definition conversationKeyFor :: "messageconversation \<Rightarrow> string" where
  "conversationKeyFor c = conversationKey (cv_ChannelID c) (cv_ExternalID c)"

definition usage_json :: "usage \<Rightarrow> string" where
  "usage_json u = jobject
     [(''input_tokens'', dec (unat (u_InputTokens u))), (''output_tokens'', dec (unat (u_OutputTokens u))),
      (''cached_tokens'', dec (unat (u_CachedTokens u)))]"

definition result_json :: "turnresult \<Rightarrow> string" where
  "result_json r = jobject
     ([(''application_id'', quote (tr_ApplicationID r)), (''message_id'', quote (tr_MessageID r)),
       (''text'', quote (tr_Text r)), (''usage'', usage_json (tr_Usage r)), (''status'', quote (tr_Status r)),
       (''checkpoint'', quote (tr_Checkpoint r))]
      @ (if tr_Provider r = [] then [] else [(''provider'', quote (tr_Provider r))])
      @ (if tr_Fallbacks r = 0 then [] else [(''fallbacks'', dec (unat (tr_Fallbacks r)))])
      @ (if tr_CacheHitKind r = [] then [] else [(''cache_hit_kind'', quote (tr_CacheHitKind r))])
      @ (if tr_FailureReason r = [] then [] else [(''failure_reason'', quote (tr_FailureReason r))]))"

definition reply_json :: "turnresult \<Rightarrow> string" where
  "reply_json r = jobject [(''kind'', quote ''reply''), (''result'', result_json r)]"

text \<open>The guards of a reply, in order: the error and the reason recorded when one fails.\<close>

definition reply_denied :: "string \<Rightarrow> string \<Rightarrow> supervisor \<Rightarrow> (error \<times> string) option" where
  "reply_denied i mid s =
     (case app s i of
        None \<Rightarrow> Some (ErrApplicationNotFound, ''application not found'')
      | Some a \<Rightarrow>
          if a_State a \<noteq> ''serving'' then Some (ErrApplicationRetired, ''application is not active'')
          else
            let key = sourceFor mid s
            in if key = [] then Some (ErrConversationNotFound, ''source conversation not found'')
               else case gget (s_Conversations (sv_state s)) key of
                 None \<Rightarrow> Some (ErrConversationNotFound, ''source binding mismatch'')
               | Some c \<Rightarrow>
                   if key \<noteq> conversationKeyFor c \<or> cv_ApplicationID c \<noteq> i
                   then Some (ErrConversationNotFound, ''source binding mismatch'')
                   else if \<not> active_channel (cv_ChannelID c) s
                   then Some (ErrChannelNotFound, ''source channel is not active'')
                   else if blocked a (cs_ExportMask (sv_policy s)) \<noteq> 0 then Some (ErrTaintBlocked, ''unmasked taint'')
                   else None)"

definition Reply :: "int \<Rightarrow> string \<Rightarrow> string \<Rightarrow> string \<Rightarrow> supervisor \<Rightarrow> outboxentry result \<times> supervisor" where
  "Reply now princ i mid s =
     (case gget (s_Results (sv_state s)) mid of
        None \<Rightarrow> (Inl (ErrMsg ''result not found''), s)
      | Some r \<Rightarrow>
          if tr_ApplicationID r \<noteq> i then (Inl (ErrMsg ''result not found''), s)
          else case reply_denied i mid s of
            Some (e, reason) \<Rightarrow>
              persist_fail e (auditLocked now princ i ''gateway.reply'' mid ''deny'' reason s)
          | None \<Rightarrow>
              let key = sourceFor mid s
              in (case enqueueOutboxLocked now key (''reply:'' @ mid) (reply_json r) s of
                    (Inl e, s1) \<Rightarrow> (Inl e, s1)
                  | (Inr entry, s1) \<Rightarrow>
                      persist_return entry
                        (auditLocked now princ i ''gateway.reply'' (ob_EntryID entry) ''allow'' key s1)))"

definition claim_entry :: "string \<Rightarrow> outboxentry \<Rightarrow> outboxentry" where
  "claim_entry key e =
     (if ob_ConversationID e = key \<and> ob_Status e = ''pending'' then e\<lparr>ob_Attempts := ob_Attempts e + 1\<rparr> else e)"

definition ClaimOutbox :: "string \<Rightarrow> string \<Rightarrow> supervisor \<Rightarrow> outboxentry list result \<times> supervisor" where
  "ClaimOutbox ch ex s =
     (if \<not> active_channel ch s then (Inl ErrChannelNotFound, s)
      else case conversationLocked ch ex s of
        None \<Rightarrow> (Inl ErrConversationNotFound, s)
      | Some (key, _) \<Rightarrow>
          let es = s_Outbox (sv_state s);
              out = map (claim_entry key) (filter (\<lambda>e. ob_ConversationID e = key \<and> ob_Status e = ''pending'') es)
          in if out = [] then (Inr [], s)
             else (Inr out, snd (persistLocked (on_state (s_Outbox_update (map (claim_entry key))) s))))"

definition ack_entry :: "int \<Rightarrow> string \<Rightarrow> outboxentry \<Rightarrow> outboxentry" where
  "ack_entry now receipt e =
     e\<lparr>ob_Status := ''sent'', ob_SentAt := now, ob_Receipt := (if length receipt \<le> 256 then receipt else ob_Receipt e)\<rparr>"

definition AckOutbox :: "int \<Rightarrow> string \<Rightarrow> string \<Rightarrow> string \<Rightarrow> supervisor \<Rightarrow> unit result \<times> supervisor" where
  "AckOutbox now princ entryID receipt s =
     (case find (\<lambda>e. ob_EntryID e = entryID) (s_Outbox (sv_state s)) of
        None \<Rightarrow> (Inl (ErrMsg ''outbox entry not found''), s)
      | Some e \<Rightarrow>
          if ob_Status e = ''sent'' then (Inr (), s)
          else persist_return ()
            (auditLocked now princ [] ''gateway.ack'' entryID ''allow'' receipt
              (on_state (s_Outbox_update (update_first (\<lambda>e. ob_EntryID e = entryID) (ack_entry now receipt))) s)))"

section \<open>What a stored envelope says\<close>

lemma envelope_keys [simp]:
  "plain_key ''text''" "plain_key ''taint''" "plain_key ''source''"
  "plain_key ''channel''" "plain_key ''external_id''" "plain_key ''sequence''" "plain_key ''payload''"
  by (simp_all add: plain_key_def inert_def QUOTE_def BSLASH_def)

lemma envelope_parsed:
  assumes "json_Valid payload" and "envelope ch ex seq payload = Some wrapped" and "json_Valid wrapped" and "0 < seq"
  shows "\<exists>v. json_parse (compact False False wrapped) = Some (JObj
    [(''text'', JStr (unquote (esc (string_field ''text'' payload)))), (''taint'', JNum (dec (unat TaintExternal))),
     (''source'', JStr (unquote (esc ''gateway''))), (''channel'', JStr (unquote (esc ch))),
     (''external_id'', JStr (unquote (esc ex))), (''sequence'', JNum (dec (nat seq))), (''payload'', v)])"
proof -
  let ?t = "string_field ''text'' payload" and ?raw = "compact False False payload"
  let ?raw2 = "compact False False ?raw"
  have d: "dec_int seq = dec (nat seq)" using assms(4) by (simp add: dec_int_def)
  have w: "wrapped = jobject (envelope_members ?t ch ex seq ?raw)"
    using assms(1,2) by (simp add: envelope_def marshalRaw_def)
  have valid: "json_Valid ?raw" "json_Valid ?raw2" using assms(1) compact_valid by blast+
  have c: "compact False False wrapped = jobject (envelope_members ?t ch ex seq ?raw2)"
    unfolding w by (subst compact_object) (auto simp: envelope_members_def d settles_valid valid(1)
        quiet_byte_def QUOTE_def BSLASH_def html_char_def simp del: compact.simps)
  obtain v where v: "json_parse ?raw2 = Some v" using valid(2) by (auto simp: json_Valid_def)
  let ?kts = "[(''text'', quote ?t, JStr (unquote (esc ?t))), (''taint'', dec (unat TaintExternal), JNum (dec (unat TaintExternal))),
     (''source'', quote ''gateway'', JStr (unquote (esc ''gateway''))), (''channel'', quote ch, JStr (unquote (esc ch))),
     (''external_id'', quote ex, JStr (unquote (esc ex))), (''sequence'', dec (nat seq), JNum (dec (nat seq))),
     (''payload'', ?raw2, v)]"
  have t: "envelope_members ?t ch ex seq ?raw2 = texts ?kts" by (simp add: envelope_members_def d)
  have "json_parse (jobject (texts ?kts)) = Some (JObj (vals ?kts))"
  proof (rule json_parse_fits [where d = 0])
    show "\<forall>(k, t, v) \<in> set ?kts. plain_key k \<and> fits 0 t v"
      by (simp add: yields_fits yields_quote yields_dec parsed_fits [OF v] del: compact.simps esc.simps)
    show "json_Valid (jobject (texts ?kts))" using compact_valid [OF assms(3)] unfolding c t .
  qed (simp_all add: maxNestingDepth_def)
  then show ?thesis unfolding c t by (intro exI [of _ v]) (simp del: esc.simps)
qed

lemma fold_names:
  "foldName ''text'' = ''text''" "foldName ''taint'' = ''taint''" "foldName ''source'' = ''source''"
  "foldName ''channel'' = ''channel''" "foldName ''external_id'' = ''external_id''"
  "foldName ''sequence'' = ''sequence''" "foldName ''payload'' = ''payload''"
  by code_simp+

lemma envelope_taint:
  assumes "json_Valid payload" and "envelope ch ex seq payload = Some wrapped" and "json_Valid wrapped" and "0 < seq"
  shows "taintedPayload (compact False False wrapped) = TaintExternal"
  using envelope_parsed [OF assms]
  by (auto simp: taintedPayload_def uint_field_def uint_member_def fold_names simp del: compact.simps foldName.simps)

lemma envelope_source:
  assumes "json_Valid payload" and "envelope ch ex seq payload = Some wrapped" and "json_Valid wrapped" and "0 < seq"
    and "utf8_ok ch" and "utf8_ok ex"
    and "gget (s_Conversations st) (conversationKey ch ex) = Some c"
    and "cv_ChannelID c = ch" and "cv_ExternalID c = ex" and "m_Payload m = compact False False wrapped"
  shows "message_source st (cv_ApplicationID c) m = Some (conversationKey ch ex)"
proof -
  have g: "unquote (esc ''gateway'') = ''gateway''" by (rule unquote_esc) code_simp
  obtain v where p: "json_parse (m_Payload m) = Some (JObj
    [(''text'', JStr (unquote (esc (string_field ''text'' payload)))), (''taint'', JNum (dec (unat TaintExternal))),
     (''source'', JStr ''gateway''), (''channel'', JStr ch),
     (''external_id'', JStr ex), (''sequence'', JNum (dec (nat seq))), (''payload'', v)])"
    using envelope_parsed [OF assms(1-4)] assms(10) unfolding g unquote_esc [OF assms(5)] unquote_esc [OF assms(6)] by auto
  show ?thesis
    using assms(7-9)
    by (simp add: message_source_def Let_def unmarshal_strings_ok_def string_field_def string_member_def p fold_names del: foldName.simps)
qed

section \<open>The operations as moves\<close>

lemma evo_channels:
  "evo n s t \<Longrightarrow> (\<And>c. gget (s_Channels (sv_state t)) k = Some c \<Longrightarrow> channel_le c d) \<Longrightarrow>
     evo n s (t\<lparr>sv_state := s_Channels_update (gput k d) (sv_state t)\<rparr>)"
  by (rule evo_state) (auto intro: quiet_channel)

lemma evo_outbox:
  "evo n s t \<Longrightarrow> (outbox_ok (sv_state t) \<Longrightarrow> distinct (map ob_IdempotencyKey (f (s_Outbox (sv_state t))))) \<Longrightarrow>
     evo n s (t\<lparr>sv_state := s_Outbox_update f (sv_state t)\<rparr>)"
  by (rule evo_state, assumption, rule quiet_outbox)

lemma claim_entry_key [simp]: "ob_IdempotencyKey (claim_entry key e) = ob_IdempotencyKey e"
  by (simp add: claim_entry_def)

lemma ack_key: "map ob_IdempotencyKey (update_first P (ack_entry now receipt) es) = map ob_IdempotencyKey es"
  by (induction es) (auto simp: ack_entry_def)

lemma bumpSequence_simps [simp]:
  "s_Outbox (sv_state (bumpSequence s)) = s_Outbox (sv_state s)"
  "s_NextSequence (sv_state (bumpSequence s)) = s_NextSequence (sv_state s) + 1"
  by (simp_all add: bumpSequence_def)

lemma drop_terminal_subset: "set (drop_terminal n es) \<subseteq> set es"
  by (induction n es rule: drop_terminal.induct) auto

lemma drop_terminal_distinct:
  "distinct (map ob_IdempotencyKey es) \<Longrightarrow> distinct (map ob_IdempotencyKey (drop_terminal n es))"
proof (induction n es rule: drop_terminal.induct)
  case (2 n e es)
  have "ob_IdempotencyKey e \<notin> ob_IdempotencyKey ` set (drop_terminal n es)"
    using 2(3) drop_terminal_subset [of n es] by auto
  with 2 show ?case by simp
qed simp

lemma evo_conversation:
  "evo n s t \<Longrightarrow> (\<And>c. gget (s_Conversations (sv_state t)) k = Some c \<Longrightarrow> conversation_le c d) \<Longrightarrow>
     evo n s (t\<lparr>sv_state := s_Conversations_update (gput k d) (sv_state t)\<rparr>)"
  by (rule evo_state) (auto intro: quiet_conversation)

lemma evo_CreateChannel [audited]: "evo 1 s (snd (CreateChannel now princ ch kind s))"
  by (auto simp: CreateChannel_def Let_def channel_le_def intro!: evo_return evo_auditI evo_channels evo.start)

lemma evo_RevokeChannel [audited]: "evo 1 s (snd (RevokeChannel now princ ch s))"
  by (auto simp: RevokeChannel_def channel_le_def split: option.splits intro!: evo_return evo_auditI evo_channels evo.start)

lemma evo_BindConversation [audited]: "evo 1 s (snd (BindConversation now princ ch ex i s))"
  by (auto simp: BindConversation_def Let_def split: option.splits
      intro!: evo_return evo_auditI evo_conversation evo.start)

lemma conversationLocked_Some:
  "conversationLocked ch ex s = Some (key, cv) \<Longrightarrow>
     key = conversationKey ch ex \<and> gget (s_Conversations (sv_state s)) key = Some cv
     \<and> cv_ChannelID cv = ch \<and> cv_ExternalID cv = ex"
  by (auto simp: conversationLocked_def Let_def split: option.splits if_splits)

text \<open>A delivery that is new to the conversation.\<close>

lemma DeliverInbound_cases:
  obtains (unchanged) "snd (DeliverInbound now ch ex seq payload s) = s"
  | (refused) key cv wrapped where "conversationLocked ch ex s = Some (key, cv)"
      "snd (DeliverInbound now ch ex seq payload s) =
         snd (enqueueLocked now ''gateway'' (cv_ApplicationID cv) (gateway_key ch ex seq) wrapped s)"
  | (routed) key cv wrapped m s1 where "conversationLocked ch ex s = Some (key, cv)" "0 < seq" "json_Valid payload"
      "cv_LastSequence cv < seq" "envelope ch ex seq payload = Some wrapped" "active_channel ch s"
      "enqueueLocked now ''gateway'' (cv_ApplicationID cv) (gateway_key ch ex seq) wrapped s = (Inr m, s1)"
      "DeliverInbound now ch ex seq payload s = persist_return m
         (on_state (s_Conversations_update (gput key (cv\<lparr>cv_LastSequence := seq\<rparr>))) (sourceOf (m_MessageID m) key s1))"
proof -
  note d = DeliverInbound_def [of now ch ex seq payload s]
  show thesis
  proof (cases "active_channel ch s \<and> 0 < seq \<and> length payload \<le> maxTextBytes \<and> json_Valid payload")
    case False
    have "snd (DeliverInbound now ch ex seq payload s) = s"
      using False unfolding d by (auto split: option.splits)
    then show thesis by (rule unchanged)
  next
    case True
    show thesis
    proof (cases "conversationLocked ch ex s")
      case None
      then show thesis using True d by (intro unchanged) simp
    next
      case (Some kc)
      obtain key cv where kc: "kc = (key, cv)" by (cases kc)
      show thesis
      proof (cases "seq \<le> cv_LastSequence cv")
        case le: True
        then show thesis using True Some kc d by (intro unchanged) (auto split: option.splits)
      next
        case new: False
        obtain wrapped where w: "envelope ch ex seq payload = Some wrapped"
          using True by (auto simp: envelope_def marshalRaw_def)
        obtain r s1 where e: "enqueueLocked now ''gateway'' (cv_ApplicationID cv) (gateway_key ch ex seq) wrapped s = (r, s1)"
          by fastforce
        have D: "DeliverInbound now ch ex seq payload s = (case r of Inl er \<Rightarrow> (Inl er, s1) | Inr m \<Rightarrow> persist_return m
            (on_state (s_Conversations_update (gput key (cv\<lparr>cv_LastSequence := seq\<rparr>))) (sourceOf (m_MessageID m) key s1)))"
          using True Some kc new w e d by (simp split: sum.splits)
        show thesis
        proof (cases r)
          case (Inl er)
          then show thesis using D e Some kc by (intro refused [of key cv wrapped]) simp_all
        next
          case (Inr m)
          then show thesis using D e Some kc True new w by (intro routed [of key cv wrapped m s1]) simp_all
        qed
      qed
    qed
  qed
qed

lemma evo_DeliverInbound [audited]:
  assumes "utf8_ok ch" and "utf8_ok ex"
  shows "evo 2 s (snd (DeliverInbound now ch ex seq payload s))"
proof (cases now ch ex seq payload s rule: DeliverInbound_cases)
  case unchanged
  then show ?thesis by (simp add: evo.start)
next
  case (refused key cv wrapped)
  then show ?thesis by (simp add: evo_enqueueI evo.start)
next
  case (routed key cv wrapped m s1)
  note c = conversationLocked_Some [OF routed(1)] and e = enqueueLocked_Inr [OF routed(7)]
  have "evo 2 s (snd (enqueueLocked now ''gateway'' (cv_ApplicationID cv) (gateway_key ch ex seq) wrapped s))"
    by (rule evo_enqueueI [OF evo.start]) simp
  then have s1: "evo 2 s s1" unfolding routed(7) by simp
  have "message_source (sv_state s1) (cv_ApplicationID cv) m = Some key"
    using envelope_source [OF routed(3,5) e(1) routed(2) assms, of "sv_state s1" cv m] c e(2,5) by auto
  from evo.source [OF s1 e(4) this] have "evo 2 s (sourceOf (m_MessageID m) key s1)"
    unfolding sourceOf_def .
  then show ?thesis
    unfolding routed(8)
    by (intro evo_return evo_conversation) (use c e(5) routed(4) in \<open>auto simp: sourceOf_def conversation_le_def\<close>)
qed

lemma evo_enqueueOutbox: "0 < n \<Longrightarrow> evo n s (snd (enqueueOutboxLocked now key idempotency payload s))"
  by (auto simp: enqueueOutboxLocked_def Let_def outbox_ok_def find_None_iff split: option.splits
      intro!: evo_outbox drop_terminal_distinct evo_bumpI evo.start)

lemma evo_Reply [audited]: "evo 2 s (snd (Reply now princ i mid s))"
proof -
  have "evo 2 s (snd (persist_return entry (auditLocked now princ i ''gateway.reply'' obj ''allow'' key s1)))"
    if "enqueueOutboxLocked now key idem payload s = (Inr entry, s1)" for key idem payload entry s1 obj
    using evo_enqueueOutbox [of 1 s now key idem payload] that by (auto intro!: evo_return evo_auditI)
  moreover have "evo 2 s s1" if "enqueueOutboxLocked now key idem payload s = (Inl e, s1)" for key idem payload e s1
    using evo_enqueueOutbox [of 2 s now key idem payload] that by simp
  ultimately show ?thesis
    by (auto simp: Reply_def Let_def split: option.splits prod.splits sum.splits
        intro!: evo_fail evo_auditI evo.start)
qed

lemma evo_ClaimOutbox [audited]: "evo 0 s (snd (ClaimOutbox ch ex s))"
  by (auto simp: ClaimOutbox_def Let_def comp_def outbox_ok_def split: option.splits intro!: evo.persist evo_outbox evo.start)

lemma evo_AckOutbox [audited]: "evo 1 s (snd (AckOutbox now princ entryID receipt s))"
  by (auto simp: AckOutbox_def ack_key outbox_ok_def split: option.splits intro!: evo_return evo_auditI evo_outbox evo.start)

section \<open>A reply goes to its source\<close>

lemma enqueueOutbox_added:
  assumes "enqueueOutboxLocked now key idem payload s = (Inr entry, s1)" and "e \<in> set (s_Outbox (sv_state s1))"
    and "e \<notin> set (s_Outbox (sv_state s))"
  shows "ob_ConversationID e = key \<and> ob_Payload e = payload \<and> ob_IdempotencyKey e = idem"
  using assms
  by (auto simp: enqueueOutboxLocked_def Let_def split: option.splits
      dest!: drop_terminal_subset [THEN subsetD])

lemma Reply_Inr:
  assumes "Reply now princ i mid s = (Inr entry, s')"
  obtains r s1 where "gget (s_Results (sv_state s)) mid = Some r" "tr_ApplicationID r = i" "reply_denied i mid s = None"
    "enqueueOutboxLocked now (sourceFor mid s) (''reply:'' @ mid) (reply_json r) s = (Inr entry, s1)"
    "sv_committed s' = durable (sv_state (auditLocked now princ i ''gateway.reply'' (ob_EntryID entry) ''allow'' (sourceFor mid s) s1))"
  using assms
  by (auto simp: Reply_def Let_def split: option.splits if_splits prod.splits sum.splits dest!: persist_return_Inr)

lemma reply_allowed:
  assumes "reply_denied i mid s = None" and "source_inv s"
  obtains a c m where "app s i = Some a" "a_State a = ''serving''" "a_TaintBits a AND NOT (cs_ExportMask (sv_policy s)) = 0"
    "gget (s_Conversations (sv_state s)) (sourceFor mid s) = Some c" "cv_ApplicationID c = i"
    "active_channel (cv_ChannelID c) s" "m \<in> set (mailbox (sv_state s) i)" "m_MessageID m = mid"
    "string_field ''channel'' (m_Payload m) = cv_ChannelID c" "string_field ''external_id'' (m_Payload m) = cv_ExternalID c"
proof -
  let ?key = "sourceFor mid s"
  obtain a c where a: "app s i = Some a" "a_State a = ''serving''" "a_TaintBits a AND NOT (cs_ExportMask (sv_policy s)) = 0"
      "?key \<noteq> []" "gget (s_Conversations (sv_state s)) ?key = Some c" "cv_ApplicationID c = i"
      "active_channel (cv_ChannelID c) s"
    using assms(1) by (auto simp: reply_denied_def Let_def blocked_def split: option.splits if_splits)
  have "gget (sv_sourced s) mid = Some ?key"
    using a(4) by (auto simp: sourceFor_def split: option.splits)
  with assms(2) obtain j m where m: "m \<in> set (mailbox (sv_state s) j)" "m_MessageID m = mid"
      "message_source (sv_state s) j m = Some ?key"
    unfolding source_inv_def by blast
  from m(3) a(5) have "cv_ApplicationID c = j" "string_field ''channel'' (m_Payload m) = cv_ChannelID c"
      "string_field ''external_id'' (m_Payload m) = cv_ExternalID c"
    by (auto simp: message_source_def Let_def split: if_splits option.splits)
  with a m show thesis by (intro that [of a c m]) auto
qed

lemma reply_added:
  assumes "Reply now princ i mid s = (Inr entry, s')" and "source_inv s"
    and "e \<in> set (s_Outbox (sv_committed s'))" and "e \<notin> set (s_Outbox (sv_state s))"
  shows "\<exists>a c m r. app s i = Some a \<and> a_State a = ''serving'' \<and> a_TaintBits a AND NOT (cs_ExportMask (sv_policy s)) = 0
    \<and> gget (s_Conversations (sv_state s)) (ob_ConversationID e) = Some c \<and> cv_ApplicationID c = i
    \<and> active_channel (cv_ChannelID c) s \<and> m \<in> set (mailbox (sv_state s) i) \<and> m_MessageID m = mid
    \<and> string_field ''channel'' (m_Payload m) = cv_ChannelID c
    \<and> string_field ''external_id'' (m_Payload m) = cv_ExternalID c
    \<and> gget (s_Results (sv_state s)) mid = Some r \<and> tr_ApplicationID r = i \<and> ob_Payload e = reply_json r"
proof -
  obtain r s1 where r: "gget (s_Results (sv_state s)) mid = Some r" "tr_ApplicationID r = i" "reply_denied i mid s = None"
    "enqueueOutboxLocked now (sourceFor mid s) (''reply:'' @ mid) (reply_json r) s = (Inr entry, s1)"
    "s_Outbox (sv_committed s') = s_Outbox (sv_state s1)"
    using assms(1) by (rule Reply_Inr) auto
  from enqueueOutbox_added [OF r(4), of e] assms(3,4) r(5) have e: "ob_ConversationID e = sourceFor mid s" "ob_Payload e = reply_json r"
    by auto
  show ?thesis
    using r(3) assms(2) by (rule reply_allowed) (use r e in auto)
qed

section \<open>Inbound messages are labelled\<close>

text \<open>C20. The gateway labels what it lets in: a message routed for the first time is, in the
  database, in the mailbox of the application its conversation is bound to; whatever JSON the sender
  wrote, members named \<^verbatim>\<open>taint\<close> or \<^verbatim>\<open>source\<close> included, the stored message declares exactly the
  external taint, carries the sender's text, and its origin, read back from the stored bytes alone,
  is that conversation, whose cursor has advanced to its sequence number.\<close>

theorem inbound_labelled:
  assumes "DeliverInbound now ch ex seq payload s = (Inr m, s')"
    and "conversationLocked ch ex s = Some (key, cv)" and "cv_LastSequence cv < seq"
    and "utf8_ok ch" and "utf8_ok ex" and "utf8_ok (string_field ''text'' payload)"
  shows "m \<in> set (mailbox (sv_committed s') (cv_ApplicationID cv)) \<and> m_IdempotencyKey m = gateway_key ch ex seq
    \<and> taintedPayload (m_Payload m) = TaintExternal
    \<and> string_field ''text'' (m_Payload m) = string_field ''text'' payload
    \<and> message_source (sv_committed s') (cv_ApplicationID cv) m = Some (conversationKey ch ex)
    \<and> map_option cv_LastSequence (gget (s_Conversations (sv_committed s')) key) = Some seq"
proof -
  note c = conversationLocked_Some [OF assms(2)]
  obtain wrapped m1 s1 where w: "0 < seq" "json_Valid payload" "envelope ch ex seq payload = Some wrapped"
      "enqueueLocked now ''gateway'' (cv_ApplicationID cv) (gateway_key ch ex seq) wrapped s = (Inr m1, s1)"
      "DeliverInbound now ch ex seq payload s = persist_return m1
         (on_state (s_Conversations_update (gput key (cv\<lparr>cv_LastSequence := seq\<rparr>))) (sourceOf (m_MessageID m1) key s1))"
    using assms(1-3) unfolding DeliverInbound_def by (auto split: if_splits option.splits prod.splits sum.splits)
  note e = enqueueLocked_Inr [OF w(4)]
  have p: "m1 = m" "sv_committed s' = durable (s_Conversations_update (gput key (cv\<lparr>cv_LastSequence := seq\<rparr>)) (sv_state s1))"
    using persist_return_Inr [of m1 _ m s'] assms(1) unfolding w(5) by (auto simp: sourceOf_def)
  have "message_source (sv_committed s') (cv_ApplicationID cv) m = Some (conversationKey ch ex)"
    using envelope_source [OF w(2,3) e(1) w(1) assms(4,5), of "sv_committed s'" "cv\<lparr>cv_LastSequence := seq\<rparr>" m] c e(2) p
    by simp
  moreover have "taintedPayload (m_Payload m) = TaintExternal"
    using envelope_taint [OF w(2,3) e(1) w(1)] e(2) p(1) by (simp del: compact.simps)
  moreover have "string_field ''text'' (m_Payload m) = string_field ''text'' payload"
    using envelope_parsed [OF w(2,3) e(1) w(1)] e(2) p(1) unquote_esc [OF assms(6)]
    by (auto simp: string_field_def string_member_def fold_names simp del: compact.simps foldName.simps)
  ultimately show ?thesis
    using e(3,4) p by (simp add: mailbox_def)
qed

definition sample_inbound :: string where
  "sample_inbound = ''{\"text\":\"hi\",\"taint\":0,\"source\":\"me\"}''"

definition sample_gateway :: supervisor where
  "sample_gateway = on_state
     (\<lambda>st. st\<lparr>s_Channels := [(''c'', \<lparr>ch_ChannelID = ''c'', ch_Kind = ''im'', ch_State = ''active'', ch_CreatedAt = 1\<rparr>)],
       s_Conversations := [(''c:u'', \<lparr>cv_ChannelID = ''c'', cv_ExternalID = ''u'', cv_Principal = [],
          cv_ApplicationID = ''a1'', cv_LastSequence = 0, cv_CreatedAt = 2\<rparr>)]\<rparr>) sample_supervisor"

lemma sample_gateway_simps [simp]:
  "app sample_gateway i = (if i = ''a1'' then Some sample_app else None)"
  "mailbox (sv_state sample_gateway) i = (if i = ''a1'' then [sample_message ''pending''] else [])"
  "s_Mailbox (sv_state sample_gateway) = [(''a1'', [sample_message ''pending''])]"
  "sv_dbq sample_gateway = []" "active_channel ''c'' sample_gateway"
  by (simp_all add: sample_gateway_def active_channel_def mailbox_def sample_supervisor_def sample_state_def)

lemma sample_conversation:
  "conversationLocked ''c'' ''u'' sample_gateway = Some (''c:u'', \<lparr>cv_ChannelID = ''c'', cv_ExternalID = ''u'', cv_Principal = [],
     cv_ApplicationID = ''a1'', cv_LastSequence = 0, cv_CreatedAt = 2\<rparr>)"
  by (simp add: conversationLocked_def conversationKey_def sample_gateway_def)


lemma sample_text [simp]: "string_field ''text'' sample_inbound = ''hi''"
  by code_simp

lemma sample_valid: "json_Valid sample_inbound" 
  by code_simp

definition sample_wrapped :: string where
  "sample_wrapped = ''{\"text\":\"hi\",\"taint\":1,\"source\":\"gateway\",\"channel\":\"c\",\"external_id\":\"u\",\"sequence\":1,\"payload\":{\"text\":\"hi\",\"taint\":0,\"source\":\"me\"}}''"

lemma sample_envelope: "envelope ''c'' ''u'' 1 sample_inbound = Some sample_wrapped"
  by code_simp

lemma sample_wrapped_valid: "json_Valid sample_wrapped"
  by code_simp

lemma sample_wrapped_compact: "compact False False sample_wrapped = sample_wrapped"
  by code_simp

lemma sample_accepts:
  "n \<le> 1000 \<Longrightarrow> accepts (mc_Application (mailboxCapacityLocked (sv_state sample_gateway) ''a1'')) n"
  "n \<le> 1000 \<Longrightarrow> accepts (mc_Supervisor (mailboxCapacityLocked (sv_state sample_gateway) ''a1'')) n"
  by (simp_all add: accepts_def mailboxCapacityLocked_def usage_of_def app_messages_def all_messages_def active_def
      sample_message_def maxApplicationMailboxMessages_def maxApplicationMailboxBytes_def
      maxSupervisorMailboxMessages_def maxSupervisorMailboxBytes_def)

lemma sample_key: "gateway_key ''c'' ''u'' 1 = ''gw:c:u:1''"
  by code_simp

lemma sample_enqueue:
  "\<exists>m s1. enqueueLocked 9 ''gateway'' ''a1'' ''gw:c:u:1'' sample_wrapped sample_gateway = (Inr m, s1) \<and> sv_dbq s1 = []"
proof -
  have l: "length sample_wrapped \<le> 1000" by (simp add: sample_wrapped_def)
  have k: "find_key ''gw:c:u:1'' [sample_message ''pending''] = None"
    by (simp add: find_key_def sample_message_def)
  show ?thesis
    using sample_wrapped_valid sample_accepts l k
    by (simp add: enqueueLocked_def maxTextBytes_def sample_wrapped_compact Let_def del: compact.simps)
qed

lemma sample_delivered: "\<exists>m s'. DeliverInbound 9 ''c'' ''u'' 1 sample_inbound sample_gateway = (Inr m, s')"
proof -
  have l: "length sample_inbound \<le> maxTextBytes" by (simp add: sample_inbound_def maxTextBytes_def)
  from sample_enqueue obtain m s1 where e:
    "enqueueLocked 9 ''gateway'' ''a1'' ''gw:c:u:1'' sample_wrapped sample_gateway = (Inr m, s1)" "sv_dbq s1 = []" by blast
  show ?thesis
    using sample_valid l e
    by (simp add: DeliverInbound_def sample_conversation sample_envelope sample_key sourceOf_def sample_persist)
qed


theorem inbound_labelled_witness:
  "\<exists>m s'. DeliverInbound 9 ''c'' ''u'' 1 sample_inbound sample_gateway = (Inr m, s')
     \<and> taintedPayload (m_Payload m) = TaintExternal"
proof -
  obtain m s' where d: "DeliverInbound 9 ''c'' ''u'' 1 sample_inbound sample_gateway = (Inr m, s')"
    using sample_delivered by blast
  have u: "utf8_ok ''c''" "utf8_ok ''u''" "utf8_ok (string_field ''text'' sample_inbound)" 
    unfolding sample_text by code_simp+
  have "taintedPayload (m_Payload m) = TaintExternal"
    by (rule inbound_labelled [OF d sample_conversation _ u, THEN conjunct2, THEN conjunct2, THEN conjunct1]) simp
  with d show ?thesis by blast
qed
end
