(* ===== verification/Hostfs.thy ===== *)
theory Hostfs
  imports Taint
begin

text \<open>
  The hostfs bridge and artifact transfers (\<^verbatim>\<open>runtime/hostfs.go\<close>): mount grants, the path check
  and the two directions of artifact transfer. The lemmas show that a path check lets through only
  what an enabled, unexpired mount of the application contains, component by component; that an
  unmounted grant authorises nothing; that what is imported taints its application, and that what
  is exported left an application whose taint the policy lets out.
\<close>

section \<open>Mounts\<close>

definition hostfsModes :: "string list" where
  "hostfsModes = [''ro'', ''rw'', ''append-only'', ''dropbox-in'', ''dropbox-out'']"

definition new_mount :: "int \<Rightarrow> string \<Rightarrow> string \<Rightarrow> string \<Rightarrow> int \<Rightarrow> int \<Rightarrow> u64 \<Rightarrow> hostfsmount" where
  "new_mount now i guestPath mode limits ttl seq =
     \<lparr>hm_MountID = ''mnt-'' @ dec (unat seq), hm_ApplicationID = i,
      hm_HostPath = ''supervisor://hostfs/'' @ mode, hm_GuestPath = guestPath, hm_Mode = mode,
      hm_LimitsBytes = limits, hm_Version = 1, hm_Enabled = True, hm_CreatedAt = now,
      hm_ExpiresAt = (if ttl \<noteq> 0 then now + ttl else 0)\<rparr>"

definition put_mount :: "hostfsmount \<Rightarrow> supervisor \<Rightarrow> supervisor" where
  "put_mount m s = on_state (s_HostfsMounts_update (gput (hm_MountID m) m)) s"

definition MountHostfs ::
  "int \<Rightarrow> string \<Rightarrow> string \<Rightarrow> string \<Rightarrow> string \<Rightarrow> int \<Rightarrow> int \<Rightarrow> supervisor \<Rightarrow> hostfsmount result \<times> supervisor" where
  "MountHostfs now princ i guestPath mode limits ttl s =
     (if app s i = None then (Inl ErrApplicationNotFound, s)
      else if mode \<notin> set hostfsModes \<or> guestPath = [] \<or> limits < 0
      then (Inl (ErrMsg ''invalid hostfs mount''), s)
      else if Clean guestPath \<noteq> guestPath \<or> \<not> isAbs guestPath
      then (Inl (ErrMsg ''invalid hostfs mount path''), s)
      else
        let s1 = bumpSequence s;
            m = new_mount now i guestPath mode limits ttl (s_NextSequence (sv_state s1))
        in persist_return m
             (auditLocked now princ i ''hostfs.mount'' (hm_MountID m) ''allow'' mode (put_mount m s1)))"

definition UnmountHostfs :: "int \<Rightarrow> string \<Rightarrow> string \<Rightarrow> supervisor \<Rightarrow> unit result \<times> supervisor" where
  "UnmountHostfs now princ mid s =
     (case gget (s_HostfsMounts (sv_state s)) mid of
        None \<Rightarrow> (Inl ErrMountNotFound, s)
      | Some m \<Rightarrow>
          persist_return ()
            (auditLocked now princ (hm_ApplicationID m) ''hostfs.unmount'' mid ''allow'' []
              (on_state (s_HostfsMounts_update (gput mid (m\<lparr>hm_Enabled := False, hm_Version := hm_Version m + 1\<rparr>))) s)))"

text \<open>The operations a mode lets through.\<close>

definition mode_allows :: "string \<Rightarrow> string \<Rightarrow> bool" where
  "mode_allows mode operation =
     (if operation = ''read'' then mode = ''ro'' \<or> mode = ''rw''
      else if operation = ''write'' \<or> operation = ''append''
      then mode = ''rw'' \<and> operation = ''write'' \<or> mode = ''append-only'' \<and> operation = ''append''
      else if operation = ''intake'' then mode = ''dropbox-in''
      else if operation = ''emit'' then mode = ''dropbox-out''
      else False)"

definition mount_covers :: "string \<Rightarrow> string \<Rightarrow> bool" where
  "mount_covers root path \<longleftrightarrow> path = root \<or> hasPrefix path (trimSuffix root ''/'' @ ''/'')"

definition mount_live :: "int \<Rightarrow> string \<Rightarrow> hostfsmount \<Rightarrow> bool" where
  "mount_live now i m \<longleftrightarrow>
     hm_ApplicationID m = i \<and> hm_Enabled m \<and> \<not> (hm_ExpiresAt m \<noteq> 0 \<and> now > hm_ExpiresAt m)"

definition CheckHostfs :: "int \<Rightarrow> string \<Rightarrow> string \<Rightarrow> string \<Rightarrow> supervisor \<Rightarrow> error option" where
  "CheckHostfs now i path operation s =
     (if Clean path \<noteq> path \<or> \<not> isAbs path \<or> CHR 0x00 \<in> set path then Some ErrMountDenied
      else if list_ex (\<lambda>(_, m). mount_live now i m \<and> mount_covers (hm_GuestPath m) path \<and> mode_allows (hm_Mode m) operation)
                (s_HostfsMounts (sv_state s))
      then None else Some ErrMountDenied)"

definition ListHostfs :: "string \<Rightarrow> supervisor \<Rightarrow> hostfsmount list" where
  "ListHostfs i s =
     sort_key hm_CreatedAt
       (filter (\<lambda>m. i = [] \<or> hm_ApplicationID m = i) (map snd (s_HostfsMounts (sv_state s))))"

section \<open>Artifact transfers\<close>

definition dropOldestTransfers :: "nat \<Rightarrow> artifacttransfer list \<Rightarrow> artifacttransfer list" where
  "dropOldestTransfers cap ts = (if length ts \<le> cap then ts else drop (length ts - cap) ts)"

definition find_transfer :: "string \<Rightarrow> string \<Rightarrow> supervisor \<Rightarrow> artifacttransfer option" where
  "find_transfer i key s =
     find (\<lambda>t. at_IdempotencyKey t = key \<and> at_ApplicationID t = i) (s_Transfers (sv_state s))"

definition new_transfer :: "int \<Rightarrow> string \<Rightarrow> string \<Rightarrow> string \<Rightarrow> string \<Rightarrow> u64 \<Rightarrow> artifacttransfer" where
  "new_transfer now i key direction payload seq =
     \<lparr>at_TransferID = ''xfer-'' @ dec (unat seq), at_ApplicationID = i, at_ArtifactSHA256 = [],
      at_Direction = direction, at_Status = ''committed'', at_IdempotencyKey = key,
      at_Payload = payload, at_CreatedAt = now\<rparr>"

definition stage_transfer :: "artifacttransfer \<Rightarrow> supervisor \<Rightarrow> supervisor" where
  "stage_transfer t s = on_state (s_Transfers_update (\<lambda>ts. dropOldestTransfers maxTransfers (ts @ [t]))) s"

definition transfer_invalid :: "string \<Rightarrow> string \<Rightarrow> bool" where
  "transfer_invalid key payload \<longleftrightarrow>
     key = [] \<or> length key > 256 \<or> \<not> json_Valid payload \<or> length payload > maxTextBytes"

text \<open>An export is two critical sections: the taint gate, and the staging of the transfer.\<close>

definition stageExport ::
  "int \<Rightarrow> string \<Rightarrow> string \<Rightarrow> string \<Rightarrow> string \<Rightarrow> supervisor \<Rightarrow> artifacttransfer result \<times> supervisor" where
  "stageExport now princ i key payload s =
     (if app s i = None then (Inl ErrApplicationNotFound, s)
      else if transfer_invalid key payload then (Inl (ErrMsg ''invalid artifact transfer''), s)
      else case find_transfer i key s of
        Some t \<Rightarrow> (Inr t, s)
      | None \<Rightarrow>
          let s1 = bumpSequence s;
              t = new_transfer now i key ''export'' payload (s_NextSequence (sv_state s1))
          in persist_return t
               (auditLocked now princ i ''artifact.transfer.export'' (at_TransferID t) ''allow'' key
                 (stage_transfer t s1)))"

definition ExportArtifact ::
  "int \<Rightarrow> string \<Rightarrow> string \<Rightarrow> string \<Rightarrow> string \<Rightarrow> supervisor \<Rightarrow> artifacttransfer result \<times> supervisor" where
  "ExportArtifact now princ i key payload s =
     (case exportApplication now None princ i payload False False [] s of
        (Inl e, s1) \<Rightarrow> (Inl e, s1)
      | (Inr _, s1) \<Rightarrow> stageExport now princ i key payload s1)"

definition CommitImport ::
  "int \<Rightarrow> string \<Rightarrow> string \<Rightarrow> string \<Rightarrow> string \<Rightarrow> supervisor \<Rightarrow> artifacttransfer result \<times> supervisor" where
  "CommitImport now princ i key payload s =
     (if app s i = None then (Inl ErrApplicationNotFound, s)
      else if transfer_invalid key payload then (Inl (ErrMsg ''invalid artifact transfer''), s)
      else case find_transfer i key s of
        Some t \<Rightarrow> (Inr t, s)
      | None \<Rightarrow>
          let s1 = bumpSequence s;
              t = new_transfer now i key ''import'' payload (s_NextSequence (sv_state s1))
          in persist_return t
               (auditLocked now princ i ''artifact.transfer.import'' (at_TransferID t) ''allow'' key
                 (stage_transfer t (accumulateTaint i TaintExternal s1))))"

section \<open>They are sequences of moves\<close>

text \<open>No mount has the id the next sequence number gives.\<close>

definition mount_fresh :: "supervisor \<Rightarrow> bool" where
  "mount_fresh s \<longleftrightarrow> gget (s_HostfsMounts (sv_state s)) (''mnt-'' @ dec (unat (s_NextSequence (sv_state s) + 1))) = None"

lemma mount_fresh:
  assumes "mount_inv s" and "unat (s_NextSequence (sv_state s)) + 1 < 2 ^ 64"
  shows "mount_fresh s"
proof -
  let ?n = "unat (s_NextSequence (sv_state s)) + 1"
  have "''mnt-'' @ dec ?n \<notin> fst ` set (s_HostfsMounts (sv_state s))"
    using assms(1) by (auto simp: mount_inv_def mount_ids_def)
  then show ?thesis by (simp add: mount_fresh_def unat_Suc_u64 [OF assms(2)] map_of_eq_None_iff)
qed

lemma evo_put_mount:
  assumes "evo n s t" and "cleanAbs (hm_GuestPath m)"
    and "gget (s_HostfsMounts (sv_state t)) (hm_MountID m) = None"
    and "hm_MountID m = ''mnt-'' @ dec (unat (s_NextSequence (sv_state t)))"
  shows "evo n s (put_mount m t)"
  unfolding put_mount_def by (rule evo_state [OF assms(1)], rule quiet_mount) (use assms(2-4) in auto)

lemma dropOldest_sub: "\<exists>us. ts = us @ dropOldestTransfers n ts" "length (dropOldestTransfers n ts) \<le> n"
  by (auto simp: dropOldestTransfers_def intro: exI [of _ "[]"] exI [of _ "take (length ts - n) ts"])

lemma dropOldest_distinct:
  assumes "distinct (map f ts)"
  shows "distinct (map f (dropOldestTransfers n ts))"
proof -
  from dropOldest_sub(1) obtain us where "ts = us @ dropOldestTransfers n ts" by blast
  with assms have "distinct (map f (us @ dropOldestTransfers n ts))" by simp
  then show ?thesis by simp
qed

lemma evo_stage_transfer:
  assumes "evo n s t" and "find_transfer (at_ApplicationID x) (at_IdempotencyKey x) t = None"
  shows "evo n s (stage_transfer x t)"
  unfolding stage_transfer_def
proof (rule evo_state [OF assms(1)])
  have "transfer_key x \<notin> transfer_key ` set (s_Transfers (sv_state t))"
    using assms(2) by (auto simp: find_transfer_def find_None_iff transfer_key_def)
  then show "quiet_le (sv_state t)
      (s_Transfers_update (\<lambda>ts. dropOldestTransfers maxTransfers (ts @ [x])) (sv_state t))"
    using dropOldest_sub(2) [of maxTransfers] dropOldest_distinct [of transfer_key "s_Transfers (sv_state t) @ [x]" maxTransfers]
    by (simp add: quiet_parts)
qed

lemma find_transfer_frame [simp]:
  "find_transfer i key (bumpSequence s) = find_transfer i key s"
  "find_transfer i key (accumulateTaint j taint s) = find_transfer i key s"
  by (auto simp: find_transfer_def bumpSequence_def accumulateTaint_def split: option.splits)

lemma new_transfer_simps [simp]:
  "at_ApplicationID (new_transfer now i key direction payload seq) = i"
  "at_IdempotencyKey (new_transfer now i key direction payload seq) = key"
  "at_Direction (new_transfer now i key direction payload seq) = direction"
  "at_Payload (new_transfer now i key direction payload seq) = payload"
  by (simp_all add: new_transfer_def)

lemmas evo_hostfs = evo_return evo_auditI evo_put_mount evo_stage_transfer evo_bumpI evo_accumulateTaint

lemma evo_MountHostfs [audited]:
  assumes "mount_fresh s"
  shows "evo 2 s (snd (MountHostfs now princ i guestPath mode limits ttl s))"
proof -
  have "gget (s_HostfsMounts (sv_state (bumpSequence s)))
      (hm_MountID (new_mount now i guestPath mode limits ttl (s_NextSequence (sv_state (bumpSequence s))))) = None"
    using assms by (simp add: mount_fresh_def new_mount_def bumpSequence_def)
  then show ?thesis
    by (auto simp: MountHostfs_def Let_def intro!: evo_hostfs evo.start)
      (auto simp: new_mount_def cleanAbs_def)
qed

lemma evo_UnmountHostfs [audited]:
  assumes "bounded (sv_state s)"
  shows "evo 1 s (snd (UnmountHostfs now princ mid s))"
proof (cases "gget (s_HostfsMounts (sv_state s)) mid")
  case None
  then show ?thesis by (simp add: UnmountHostfs_def evo.start)
next
  case (Some m)
  then have mem: "(mid, m) \<in> set (s_HostfsMounts (sv_state s))" by (rule map_of_SomeD)
  then have "cleanAbs (hm_GuestPath m)" using assms by (auto simp: bounded_parts)
  moreover have "mid \<in> set (map fst (s_HostfsMounts (sv_state s)))" using mem by force
  ultimately have "quiet_le (sv_state s) (s_HostfsMounts_update
      (gput mid (m\<lparr>hm_Enabled := False, hm_Version := hm_Version m + 1\<rparr>)) (sv_state s))"
    by (intro quiet_mount) (auto simp: Some mount_le_def)
  then show ?thesis
    by (auto simp: UnmountHostfs_def Some intro!: evo_return evo_auditI evo_state evo.start)
qed

lemma evo_stageExport [audited]: "evo 2 s (snd (stageExport now princ i key payload s))"
  by (auto simp: stageExport_def Let_def split: option.splits intro!: evo_hostfs evo.start)

lemma evo_ExportArtifact [audited]: "evo 3 s (snd (ExportArtifact now princ i key payload s))"
proof (cases "exportApplication now None princ i payload False False [] s")
  case (Pair r s1)
  then have one: "evo 1 s s1" using evo_exportApplication [of s now None princ i payload False False "[]"] by simp
  from evo_trans [OF evo_stageExport this, of now princ i key payload] Pair one show ?thesis
    by (cases r) (auto simp: ExportArtifact_def intro: evo_mono)
qed

lemma evo_CommitImport [audited]: "evo 2 s (snd (CommitImport now princ i key payload s))"
  by (auto simp: CommitImport_def Let_def split: option.splits intro!: evo_hostfs evo.start)

section \<open>The path check\<close>

lemma clean_no_slash_end:
  assumes "cleanAbs r" and "r \<noteq> ''/''"
  shows "\<not> hasSuffix r ''/''"
proof
  assume "hasSuffix r ''/''"
  then obtain x where r: "r = x @ ''/''" by (auto simp: hasSuffix_append)
  have "splitSlash r = [] # clean_comps r" using cleanAbs_split [OF assms(1)] assms(2) by simp
  moreover have "splitSlash r = splitSlash x @ [[]]" using splitSlash_append_slash [of x "[]"] r by simp
  ultimately have "clean_comps r = tl (splitSlash x) @ [[]]"
    using splitSlash_nonempty [of x] by (cases "splitSlash x") auto
  then have "[] \<in> set (clean_comps r)" by simp
  then show False using clean_comps_plain [of r] by (auto simp: list_all_iff plain_def)
qed

lemma mount_covers_comps:
  assumes "cleanAbs p" and "cleanAbs r"
  shows "mount_covers r p \<longleftrightarrow> (\<exists>cs. clean_comps p = clean_comps r @ cs)"
proof
  assume c: "mount_covers r p"
  show "\<exists>cs. clean_comps p = clean_comps r @ cs"
  proof (cases "p = r \<or> r = ''/''")
    case True
    then show ?thesis by (auto simp: clean_comps_def clean_elem_def)
  next
    case False
    with c have "hasPrefix p (r @ ''/'')"
      using clean_no_slash_end [OF assms(2)] by (simp add: mount_covers_def trimSuffix_def)
    then show ?thesis by (rule prefix_slash_comps [OF assms])
  qed
next
  assume "\<exists>cs. clean_comps p = clean_comps r @ cs"
  then obtain cs where cs: "clean_comps p = clean_comps r @ cs" ..
  have p: "p = SLASH # joinStr ''/'' (clean_comps p)" and r: "r = SLASH # joinStr ''/'' (clean_comps r)"
    using assms cleanAbs_comps by blast+
  consider "cs = []" | "clean_comps r = []" | "cs \<noteq> []" "clean_comps r \<noteq> []" by blast
  then show "mount_covers r p"
  proof cases
    case 1
    then have "p = r" using p r cs by (metis append_Nil2)
    then show ?thesis by (simp add: mount_covers_def)
  next
    case 2
    then have "r = ''/''" using r by simp
    moreover have "\<exists>q. p = SLASH # q" using p by blast
    ultimately show ?thesis by (auto simp: mount_covers_def trimSuffix_def hasSuffix_def hasPrefix_def)
  next
    case 3
    have "p = SLASH # joinStr ''/'' (clean_comps r) @ SLASH # joinStr ''/'' cs"
      using p cs joinStr_append [OF 3(2,1), of "''/''"] by simp
    then have pr: "p = r @ SLASH # joinStr ''/'' cs" using r by (metis append_Cons)
    have "r \<noteq> ''/''" using 3(2) by (auto simp: clean_comps_def clean_elem_def)
    then show ?thesis
      using clean_no_slash_end [OF assms(2)] pr
      by (auto simp: mount_covers_def trimSuffix_def hasPrefix_append)
  qed
qed

text \<open>C24. The path check is exact: on a state whose mounts have canonical roots (every reachable
  one), a path passes for an operation exactly when it is absolute and canonical, holds no NUL byte,
  and some enabled, unexpired mount of this application whose mode admits the operation has a root
  whose list of components is a prefix of the path's. No textual trick (doubled slashes, dot-dot,
  a sibling directory whose name extends the root's) passes.\<close>

theorem hostfs_confined:
  assumes "mounts_ok (sv_state s)"
  shows "CheckHostfs now i path operation s = None \<longleftrightarrow>
    cleanAbs path \<and> CHR 0x00 \<notin> set path \<and>
    (\<exists>mid m cs. (mid, m) \<in> set (s_HostfsMounts (sv_state s))
       \<and> hm_ApplicationID m = i \<and> hm_Enabled m \<and> (hm_ExpiresAt m = 0 \<or> now \<le> hm_ExpiresAt m)
       \<and> mode_allows (hm_Mode m) operation \<and> clean_comps path = clean_comps (hm_GuestPath m) @ cs)"
proof -
  have c: "mount_covers (hm_GuestPath m) path \<longleftrightarrow> (\<exists>cs. clean_comps path = clean_comps (hm_GuestPath m) @ cs)"
    if "cleanAbs path" "(mid, m) \<in> set (s_HostfsMounts (sv_state s))" for mid m
    using mount_covers_comps [OF that(1)] assms that(2) by (auto simp: mounts_ok_def)
  have "CheckHostfs now i path operation s = None \<longleftrightarrow>
    cleanAbs path \<and> CHR 0x00 \<notin> set path \<and> (\<exists>(mid, m) \<in> set (s_HostfsMounts (sv_state s)).
       mount_live now i m \<and> mount_covers (hm_GuestPath m) path \<and> mode_allows (hm_Mode m) operation)"
    by (auto simp: CheckHostfs_def cleanAbs_def list_ex_iff)
  also have "\<dots> \<longleftrightarrow> cleanAbs path \<and> CHR 0x00 \<notin> set path \<and> (\<exists>(mid, m) \<in> set (s_HostfsMounts (sv_state s)).
       mount_live now i m \<and> (\<exists>cs. clean_comps path = clean_comps (hm_GuestPath m) @ cs)
       \<and> mode_allows (hm_Mode m) operation)"
    using c by blast
  finally show ?thesis by (fastforce simp: mount_live_def)
qed

definition sample_hostfs :: supervisor where
  "sample_hostfs = put_mount (new_mount 3 ''a1'' ''/data/in'' ''ro'' 0 0 7) sample_supervisor"

lemma sample_hostfs_ok: "mounts_ok (sv_state sample_hostfs)"
  by (simp add: mounts_ok_def sample_hostfs_def put_mount_def sample_state_def empty_state_def new_mount_def) code_simp

theorem hostfs_confined_witness:
  "CheckHostfs 9 ''a1'' ''/data/in/x'' ''read'' sample_hostfs = None
   \<and> clean_comps ''/data/in/x'' = [''data'', ''in'', ''x'']
   \<and> CheckHostfs 9 ''a1'' ''/data/inner'' ''read'' sample_hostfs = Some ErrMountDenied"
proof -
  have c: "CheckHostfs 9 ''a1'' ''/data/in/x'' ''read'' sample_hostfs = None" by code_simp
  have d: "CheckHostfs 9 ''a1'' ''/data/inner'' ''read'' sample_hostfs = Some ErrMountDenied" by code_simp
  have "clean_comps ''/data/in/x'' = [''data'', ''in'', ''x'']" by code_simp
  with c d hostfs_confined [OF sample_hostfs_ok, of 9 "''a1''" "''/data/in/x''" "''read''"]
  show ?thesis by blast
qed

section \<open>Imports taint, exports are gated\<close>

lemma accumulate_external:
  assumes "app s i = Some a"
  shows "app (accumulateTaint i TaintExternal s) i = Some (a\<lparr>a_TaintBits := or (a_TaintBits a) TaintExternal\<rparr>)"
  using assms by (simp add: accumulateTaint_def TaintExternal_def)

lemma app_frame [simp]:
  "app (bumpSequence s) i = app s i" "app (stage_transfer t s) i = app s i"
  by (simp_all add: bumpSequence_def stage_transfer_def)

lemma import_taints:
  assumes "CommitImport now princ i key payload s = (Inr t, s')" and "find_transfer i key s = None"
  shows "\<exists>a. gget (s_Applications (sv_committed s')) i = Some a \<and> a_TaintBits a AND TaintExternal \<noteq> 0"
proof -
  let ?t = "new_transfer now i key ''import'' payload (s_NextSequence (sv_state (bumpSequence s)))"
  let ?u = "auditLocked now princ i ''artifact.transfer.import'' (at_TransferID ?t) ''allow'' key
     (stage_transfer ?t (accumulateTaint i TaintExternal (bumpSequence s)))"
  obtain a where a: "app s i = Some a" and p: "persist_return ?t ?u = (Inr t, s')"
    using assms by (auto simp: CommitImport_def Let_def split: if_splits)
  have "sv_committed s' = durable (sv_state ?u)" using persist_return_Inr [OF p] by simp
  then have "gget (s_Applications (sv_committed s')) i = Some (a\<lparr>a_TaintBits := or (a_TaintBits a) TaintExternal\<rparr>)"
    using accumulate_external [of "bumpSequence s" i a] a by simp
  moreover have "or (a_TaintBits a) TaintExternal AND TaintExternal \<noteq> 0"
    by (simp add: TaintExternal_def bit.conj_disj_distrib2 or_eq_0_iff)
  ultimately show ?thesis by auto
qed

lemma export_blocked:
  assumes "app s i = Some a" and "blocked a (cs_ExportMask (sv_policy s)) \<noteq> 0"
  shows "\<exists>e s'. exportApplication now rnd princ i txt False False [] s = (Inl e, s')"
  using assms by (auto simp: exportApplication_def persist_fail_def split: prod.splits option.splits)

lemma external_blocked:
  assumes "bits_le b (a_TaintBits a)" and "b AND TaintExternal \<noteq> 0" and "exportMask AND TaintExternal = 0"
  shows "blocked a exportMask \<noteq> 0"
proof
  assume z: "blocked a exportMask = 0"
  have "bit b 0" using assms(2) by (simp add: TaintExternal_def and_one_eq odd_iff_mod_2_eq_one bit_0)
  then have "bit (a_TaintBits a) 0" using assms(1) by (metis bits_le_def bit_or_iff)
  moreover have "\<not> bit exportMask 0" using assms(3) by (simp add: TaintExternal_def and_one_eq odd_iff_mod_2_eq_one bit_0)
  ultimately have "bit (blocked a exportMask) 0" by (simp add: blocked_def bit_and_iff bit_not_iff)
  with z show False by simp
qed

text \<open>Once data was imported, every later state denies an artifact export of the application, as
  long as the policy does not let the external label out.\<close>

lemma import_blocks_later:
  assumes "CommitImport now princ i key payload s = (Inr t, s1)" and "find_transfer i key s = None"
    and "evo n s1 s2" and "cs_ExportMask (sv_policy s2) AND TaintExternal = 0"
  shows "\<exists>e s3. ExportArtifact now' princ' i key' payload' s2 = (Inl e, s3)"
proof -
  obtain a where a: "gget (s_Applications (sv_committed s1)) i = Some a" "a_TaintBits a AND TaintExternal \<noteq> 0"
    using import_taints [OF assms(1,2)] by blast
  have "appsOrder.ahead s1"
    using assms(1,2) unfolding appsOrder.ahead_def CommitImport_def Let_def
    by (auto split: if_splits dest!: persist_return_Inr intro: appsOrder.le_quiet)
  with assms(3) have "apps_le (sv_committed s1) (sv_state s2)"
    using appsOrder.evo_le [of n s1 s2] appsOrder.le_trans unfolding appsOrder.ahead_def by blast
  then obtain b where b: "app s2 i = Some b" "app_le a b" using a(1) by (auto simp: apps_le_def gmap_le_def)
  then have "blocked b (cs_ExportMask (sv_policy s2)) \<noteq> 0"
    using external_blocked [OF _ a(2) assms(4)] by (simp add: app_le_def)
  from export_blocked [OF b(1) this, of now' None princ' payload'] show ?thesis
    by (auto simp: ExportArtifact_def)
qed

text \<open>C38. Idempotency keys of imports and exports share one space: an export whose key an import of
  the same application has used answers with that import's record, and the database holds the same
  transfers as before: nothing is staged for the outside although the caller is told so.\<close>

theorem export_key_shadowed:
  assumes "find_transfer i key s = Some t" and "app s i = Some a" and "\<not> retired a"
    and "blocked a (cs_ExportMask (sv_policy s)) = 0" and "\<not> transfer_invalid key payload" and "payload \<noteq> []"
    and "sv_dbq s = []"
  shows "fst (ExportArtifact now princ i key payload s) = Inr t
    \<and> s_Transfers (sv_state (snd (ExportArtifact now princ i key payload s))) = s_Transfers (sv_state s)"
  using assms
  by (auto simp: ExportArtifact_def exportApplication_def stageExport_def transfer_invalid_def sample_persist
      find_transfer_def)

theorem export_key_shadowed_witness:
  "\<exists>s t. at_Direction t = ''import'' \<and> fst (ExportArtifact 9 ''p'' ''a1'' ''k'' ''{}'' s) = Inr t
     \<and> s_Transfers (sv_state (snd (ExportArtifact 9 ''p'' ''a1'' ''k'' ''{}'' s))) = [t]"
proof -
  let ?t = "new_transfer 3 ''a1'' ''k'' ''import'' ''{}'' 7"
  let ?s = "(stage_transfer ?t sample_supervisor)\<lparr>sv_policy := sample_manifest\<lparr>cs_ExportMask := 3\<rparr>\<rparr>"
  have tr: "s_Transfers (sv_state ?s) = [?t]"
    by (simp add: stage_transfer_def dropOldestTransfers_def sample_state_def empty_state_def maxTransfers_def)
  then have f: "find_transfer ''a1'' ''k'' ?s = Some ?t" by (simp add: find_transfer_def)
  have v: "json_Valid ''{}''" by code_simp
  have b: "blocked sample_app 3 = 0" unfolding blocked_def sample_app_simps by code_simp
  have "fst (ExportArtifact 9 ''p'' ''a1'' ''k'' ''{}'' ?s) = Inr ?t
    \<and> s_Transfers (sv_state (snd (ExportArtifact 9 ''p'' ''a1'' ''k'' ''{}'' ?s))) = s_Transfers (sv_state ?s)"
    by (rule export_key_shadowed [OF f, where a = sample_app])
      (simp_all add: v b transfer_invalid_def maxTextBytes_def stage_transfer_def)
  with tr show ?thesis by (intro exI [of _ ?s] exI [of _ ?t]) simp
qed

end
