(* ===== verification/Authority.thy ===== *)
theory Authority
  imports Sample
begin

text \<open>
  Capability checks and the revocation registry of the supervisor (\<^verbatim>\<open>Check\<close>,
  \<^verbatim>\<open>CheckWithToken\<close>, \<^verbatim>\<open>checkToken\<close> of \<^verbatim>\<open>runtime/supervisor.go\<close>,
  \<^verbatim>\<open>RevokeCapabilityToken\<close> of \<^verbatim>\<open>runtime/revocation.go\<close>).
\<close>

definition tokenRevokedLocked :: "supervisorState \<Rightarrow> capabilitytoken \<Rightarrow> bool" where
  "tokenRevokedLocked st t = list_ex (\<lambda>r. revokedBy r t) (s_RevokedTokens st)"

definition known_object :: "string \<Rightarrow> bool" where
  "known_object object \<longleftrightarrow> object = ''net'' \<or> object = ''tool'' \<or> object = ''fs.read'' \<or> object = ''fs.write''"

definition app_available :: "supervisor \<Rightarrow> string \<Rightarrow> bool" where
  "app_available s i = (case app s i of None \<Rightarrow> False | Some a \<Rightarrow> a_State a \<noteq> ''tombstoned'')"

definition check_allowed ::
  "edverify \<Rightarrow> int \<Rightarrow> string \<Rightarrow> string \<Rightarrow> string \<Rightarrow> string \<Rightarrow> capabilitytoken option \<Rightarrow> supervisor \<Rightarrow> bool" where
  "check_allowed verify now princ aid object action token s \<longleftrightarrow>
     Authorizer_Evaluate verify now (sv_authorizer s) princ object action token = None
     \<and> (case token of None \<Rightarrow> True | Some t \<Rightarrow> \<not> tokenRevokedLocked (sv_state s) t)
     \<and> app_available s aid"

definition check_reason :: "string \<Rightarrow> string \<Rightarrow> capabilitytoken option \<Rightarrow> supervisor \<Rightarrow> string" where
  "check_reason aid object token s =
     (if \<not> app_available s aid then ''application unavailable''
      else if \<not> known_object object then ''unknown object''
      else if (case token of None \<Rightarrow> False | Some t \<Rightarrow> tokenRevokedLocked (sv_state s) t)
      then ''capability revoked'' else ''policy'')"

text \<open>\<open>now\<close> is the clock in seconds, for the token, and \<open>nanos\<close> the same reading for the
  record.\<close>

definition checkToken ::
  "edverify \<Rightarrow> int \<Rightarrow> int \<Rightarrow> string \<Rightarrow> string \<Rightarrow> string \<Rightarrow> string \<Rightarrow> capabilitytoken option \<Rightarrow> supervisor
     \<Rightarrow> bool result \<times> supervisor" where
  "checkToken verify now nanos princ aid object action token s =
     (let allowed = check_allowed verify now princ aid object action token s;
          decision = (if allowed then ''allow'' else ''deny'');
          reason = (if allowed then [] else check_reason aid object token s);
          s1 = auditLocked nanos princ aid action object decision reason s
      in if allowed then persist_return True s1 else persist_fail ErrCapabilityDenied s1)"

definition Check ::
  "edverify \<Rightarrow> int \<Rightarrow> int \<Rightarrow> string \<Rightarrow> string \<Rightarrow> string \<Rightarrow> string \<Rightarrow> supervisor \<Rightarrow> bool result \<times> supervisor" where
  "Check verify now nanos princ aid object action s = checkToken verify now nanos princ aid object action None s"

definition CheckWithToken ::
  "edverify \<Rightarrow> int \<Rightarrow> int \<Rightarrow> string \<Rightarrow> string \<Rightarrow> string \<Rightarrow> string \<Rightarrow> capabilitytoken \<Rightarrow> supervisor
     \<Rightarrow> bool result \<times> supervisor" where
  "CheckWithToken verify now nanos princ aid object action token s =
     checkToken verify now nanos princ aid object action (Some token) s"

definition revoked_entry :: "int \<Rightarrow> capabilitytoken \<Rightarrow> string \<Rightarrow> revokedtoken" where
  "revoked_entry nanos token reason =
     \<lparr>rt_Digest = tokenDigest token, rt_PublicKey = t_PublicKey token, rt_Subject = t_Subject token,
      rt_Caveats = t_Caveats token, rt_Time = nanos, rt_Reason = reason\<rparr>"

definition RevokeCapabilityToken ::
  "edverify \<Rightarrow> int \<Rightarrow> int \<Rightarrow> string \<Rightarrow> capabilitytoken \<Rightarrow> string \<Rightarrow> supervisor \<Rightarrow> unit result \<times> supervisor" where
  "RevokeCapabilityToken verify now nanos princ token reason s =
     (if Token_Verify verify token now \<noteq> None
      then (Inl (ErrMsg ''revocation requires a verifiable token''), s)
      else if length reason > 256 then (Inl (ErrMsg ''invalid revocation reason''), s)
      else if list_ex (\<lambda>r. rt_Digest r = tokenDigest token) (s_RevokedTokens (sv_state s)) then (Inr (), s)
      else if length (s_RevokedTokens (sv_state s)) \<ge> maxRevokedTokens
      then persist_fail ErrRevocationCapacity
             (auditLocked nanos princ [] ''capability.revoke'' (tokenDigest token) ''deny'' ''registry full'' s)
      else persist_return ()
        (auditLocked nanos princ [] ''capability.revoke'' (tokenDigest token) ''allow''
          (joinStr ''|'' (t_Caveats token))
          (on_state (s_RevokedTokens_update (\<lambda>rs. rs @ [revoked_entry nanos token reason])) s)))"

section \<open>The operations as moves\<close>

lemma evo_checkToken [audited]: "evo 1 s (snd (checkToken verify now nanos princ aid object action token s))"
  by (auto simp: checkToken_def Let_def intro!: evo_return evo_fail evo_auditI evo.start)

lemma quiet_revoked:
  "length (s_RevokedTokens st) < maxRevokedTokens \<Longrightarrow> quiet_le st (s_RevokedTokens_update (\<lambda>rs. rs @ [r]) st)"
  by (simp add: quiet_parts)

lemma evo_RevokeCapabilityToken [audited]:
  "evo 1 s (snd (RevokeCapabilityToken verify now nanos princ token reason s))"
  by (auto simp: RevokeCapabilityToken_def not_le
      intro!: evo_return evo_fail evo_auditI evo_state quiet_revoked evo.start)

section \<open>Decisions\<close>

lemma persist_return_fst: "fst (persist_return v s) = Inr w \<Longrightarrow> w = v"
  by (cases s rule: persistLocked_cases) (auto simp: persist_return_def)

lemma persist_fail_fst [simp]: "fst (persist_fail e s) \<noteq> Inr w"
  by (cases s rule: persistLocked_cases) (auto simp: persist_fail_def)

lemma checkToken_allows:
  "fst (checkToken verify now nanos princ aid object action token s) = Inr b \<Longrightarrow>
     b \<and> check_allowed verify now princ aid object action token s"
  by (auto simp: checkToken_def Let_def split: if_splits dest: persist_return_fst)

lemma revoked_denies:
  assumes "tokenRevokedLocked (sv_state s) t"
  shows "fst (CheckWithToken verify now nanos princ aid object action t s) \<noteq> Inr True"
  using checkToken_allows [of verify now nanos princ aid object action "Some t" s True] assms
  by (auto simp: CheckWithToken_def check_allowed_def)

lemma tokenRevoked_mono:
  "tokenRevokedLocked st t \<Longrightarrow> revoked_le st st' \<Longrightarrow> tokenRevokedLocked st' t"
  by (auto simp: tokenRevokedLocked_def revoked_le_def)

text \<open>C2. Every access decision is on the record: if a check answers at all (the write went
  through), the last record of the durable audit log names the principal, the application, the
  object and the action, and its decision is \<^verbatim>\<open>allow\<close> exactly when access was granted.\<close>

theorem check_is_recorded:
  assumes "checkToken verify now nanos princ aid object action token s = (r, s')"
    and "r = Inr True \<or> r = Inl ErrCapabilityDenied"
  shows "\<exists>rec. s_Audit (sv_committed s') = s_Audit (sv_state s) @ [rec]
     \<and> au_Principal rec = princ \<and> au_ApplicationID rec = aid \<and> au_Object rec = object
     \<and> au_Action rec = action \<and> (au_Decision rec = ''allow'' \<longleftrightarrow> r = Inr True)"
proof -
  let ?al = "check_allowed verify now princ aid object action token s"
  let ?s1 = "auditLocked nanos princ aid action object (if ?al then ''allow'' else ''deny'')
    (if ?al then [] else check_reason aid object token s) s"
  have r: "(r, s') = (if ?al then persist_return True ?s1 else persist_fail ErrCapabilityDenied ?s1)"
    using assms(1) by (simp add: checkToken_def Let_def)
  show ?thesis
    using r assms(2)
    by (cases ?s1 rule: persistLocked_cases)
      (auto simp: persist_return_def persist_fail_def next_record_def Let_def split: if_splits)
qed

theorem check_is_recorded_witness:
  "\<exists>r s'. checkToken sample_verify 7 7000 ''w'' ''a1'' ''fs.read'' ''/data/in/a'' None sample_supervisor = (r, s')
     \<and> r = Inr True
     \<and> (\<exists>rec. s_Audit (sv_committed s') = [rec] \<and> au_Principal rec = ''w'' \<and> au_Decision rec = ''allow'')"
proof -
  let ?c = "checkToken sample_verify 7 7000 ''w'' ''a1'' ''fs.read'' ''/data/in/a'' None sample_supervisor"
  have ev: "Authorizer_Evaluate sample_verify 7 (sv_authorizer sample_supervisor) ''w'' ''fs.read'' ''/data/in/a'' None = None"
    by (simp add: sample_supervisor_def) code_simp
  have r: "fst ?c = Inr True"
    using ev by (simp add: checkToken_def check_allowed_def app_available_def sample_persist)
  then obtain s' where c: "?c = (Inr True, s')" by (cases ?c) auto
  show ?thesis
    using check_is_recorded [OF c] c by auto
qed

end
