(* ===== verification/Witness.thy ===== *)
theory Witness
  imports Authority
begin

text \<open>
  Witness checkpoints (\<^verbatim>\<open>runtime/witness.go\<close>) and the tamper evidence of the audit chain. The
  chain is not keyed: what it gives is that two logs that verify and agree in the hash at one
  position agree in every record up to there, or exhibit two different records with the same
  SHA-256 digest.
\<close>

definition checkpointMessage :: "witnesscheckpoint \<Rightarrow> string" where
  "checkpointMessage cp =
     ''aok-audit-checkpoint:v1|'' @ wc_HeadHash cp @ ''|'' @ dec (unat (wc_Count cp)) @ ''|'' @ dec_int (wc_Time cp)"

definition WitnessHead :: "supervisor \<Rightarrow> (string \<times> u64) result" where
  "WitnessHead s =
     (let rs = s_Audit (sv_state s)
      in if rs = [] then Inl (ErrMsg ''audit chain is empty'') else Inr (au_Hash (last rs), of_nat (length rs)))"

text \<open>The checkpoint's head is the hash at its position.\<close>

definition at_head :: "auditrecord list \<Rightarrow> witnesscheckpoint \<Rightarrow> bool" where
  "at_head rs cp \<longleftrightarrow> \<not> wc_Count cp > of_nat (length rs) \<and> au_Hash (rs ! (unat (wc_Count cp) - 1)) = wc_HeadHash cp"

definition RecordCosignature ::
  "edverify \<Rightarrow> int \<Rightarrow> string \<Rightarrow> witnesscheckpoint \<Rightarrow> supervisor \<Rightarrow> unit result \<times> supervisor" where
  "RecordCosignature verify now princ cp s =
     (let cps = s_WitnessCheckpoints (sv_state s)
      in if length (wc_PublicKey cp) \<noteq> 32 \<or> length (wc_Signature cp) \<noteq> 64 \<or> wc_Count cp = 0
            \<or> wc_HeadHash cp = [] \<or> wc_Time cp = 0
         then (Inl (ErrMsg ''invalid witness checkpoint''), s)
         else if \<not> verify (wc_PublicKey cp) (checkpointMessage cp) (wc_Signature cp)
         then (Inl (ErrMsg ''witness signature mismatch''), s)
         else if \<not> at_head (s_Audit (sv_state s)) cp then (Inl ErrWitnessMismatch, s)
         else if cps \<noteq> [] \<and> wc_Count cp \<le> wc_Count (last cps)
         then (Inl (ErrMsg ''checkpoint does not advance the witnessed history''), s)
         else persist_return ()
           (auditLocked now princ [] ''witness.cosign''
             (take 12 (wc_HeadHash cp) @ ''@'' @ dec (unat (wc_Count cp))) ''allow'' (wc_Signer cp)
             (on_state (s_WitnessCheckpoints_update (\<lambda>cps. append_bounded maxWitnessCheckpoints cps cp)) s)))"

fun verify_checkpoints :: "edverify \<Rightarrow> auditrecord list \<Rightarrow> witnesscheckpoint list \<Rightarrow> error option" where
  "verify_checkpoints verify rs [] = None"
| "verify_checkpoints verify rs (cp # cps) =
     (if wc_Count cp = 0 \<or> \<not> at_head rs cp then Some ErrWitnessMismatch
      else if \<not> verify (wc_PublicKey cp) (checkpointMessage cp) (wc_Signature cp)
      then Some (ErrMsg ''recorded witness signature invalid'')
      else verify_checkpoints verify rs cps)"

definition VerifyWitness :: "edverify \<Rightarrow> supervisor \<Rightarrow> error option" where
  "VerifyWitness verify s =
     (case VerifyAudit (s_Audit (sv_state s)) of
        Some e \<Rightarrow> Some e
      | None \<Rightarrow> verify_checkpoints verify (s_Audit (sv_state s)) (s_WitnessCheckpoints (sv_state s)))"

definition WitnessCheckpoints :: "supervisor \<Rightarrow> witnesscheckpoint list" where
  "WitnessCheckpoints s = s_WitnessCheckpoints (sv_state s)"

section \<open>The operations as moves\<close>

lemma quiet_witness:
  "quiet_le st (s_WitnessCheckpoints_update (\<lambda>cps. append_bounded maxWitnessCheckpoints cps cp) st)"
  by (simp add: quiet_parts append_bounded_length)

lemma evo_RecordCosignature [audited]: "evo 1 s (snd (RecordCosignature verify now princ cp s))"
  by (auto simp: RecordCosignature_def Let_def intro!: evo_return evo_auditI evo_state quiet_witness evo.start)

section \<open>Tamper evidence\<close>

text \<open>What the hash of a record covers.\<close>

definition hashed :: "auditrecord \<Rightarrow> string" where
  "hashed r = audit_json (r\<lparr>au_Hash := []\<rparr>)"

lemma auditHash_hashed: "auditHash r = sha256hex (hashed r)"
  by (simp add: auditHash_def hashed_def)

lemma verify_audit_nth:
  assumes "verify_audit_from p q rs" and "i < length rs"
  shows "au_Hash (rs ! i) = sha256hex (hashed (rs ! i))"
    and "au_PreviousHash (rs ! i) = (if i = 0 then p else au_Hash (rs ! (i - 1)))"
  using assms
proof (induction rs arbitrary: p q i)
  case (Cons r rs)
  { case 1 then show ?case using Cons.IH(1) by (cases i) (auto simp: auditHash_hashed split: if_splits) }
  { case 2 then show ?case using Cons.IH(2) by (cases i) (auto split: if_splits) }
qed simp_all

text \<open>The hashed text ends with the previous hash, which is a digest or empty: it can be read off.\<close>

lemma jmembers_append:
  "xs \<noteq> [] \<Longrightarrow> ys \<noteq> [] \<Longrightarrow> jmembers (xs @ ys) = jmembers xs @ CHR '','' # jmembers ys"
  by (induction xs rule: jmembers.induct) (auto simp: neq_Nil_conv)

definition hash_tail :: string where
  "hash_tail = CHR '','' # QUOTE # ''hash'' @ [QUOTE, CHR '':'', QUOTE, QUOTE, CHR ''}'']"

lemma hashed_suffix: "\<exists>pre. hashed r = pre @ quote (au_PreviousHash r) @ hash_tail"
proof -
  let ?ps = "[(''previous_hash'', quote (au_PreviousHash r)), (''hash'', quote [])]"
  let ?xs = "[(''sequence'', dec (unat (au_Sequence r))), (''time'', dec_int (au_Time r)),
       (''principal'', quote (au_Principal r))]
      @ (if au_ApplicationID r = [] then [] else [(''application_id'', quote (au_ApplicationID r))])
      @ [(''action'', quote (au_Action r)), (''object'', quote (au_Object r)),
         (''decision'', quote (au_Decision r))]
      @ (if au_Reason r = [] then [] else [(''reason'', quote (au_Reason r))])"
  have "hashed r = jobject (?xs @ ?ps)" by (simp add: hashed_def audit_json_def)
  moreover have "?xs \<noteq> []" by simp
  ultimately obtain xs where "hashed r = jobject (xs @ ?ps)" "xs \<noteq> []" by blast
  then have "hashed r = (CHR ''{'' # jmembers xs @ CHR '','' # QUOTE # ''previous_hash'' @ [QUOTE, CHR '':''])
      @ quote (au_PreviousHash r) @ hash_tail"
    by (simp add: jobject_def jmembers_append jmember_def hash_tail_def quote_def [of "[]"])
  then show ?thesis by blast
qed

lemma esc_hex: "(\<And>c. c \<in> set s \<Longrightarrow> \<exists>n < 16. c = hexdig n) \<Longrightarrow> esc s = s"
proof (induction s)
  case (Cons c s)
  then obtain n where n: "n < 16" "c = hexdig n" by auto
  then have code: "code c = (if n < 10 then 48 + n else 87 + n)" by (simp add: hexdig_code)
  have "esc_ascii c = [c]"
    using n(1) code by (auto simp: esc_ascii_def QUOTE_def BSLASH_def html_char_def split: if_splits)
  with Cons code n(1) show ?case by (simp split: if_splits)
qed simp

lemma quote_digest: "quote (sha256hex x) = QUOTE # sha256hex x @ [QUOTE]"
  using esc_hex [OF sha256hex_digits] by (simp add: quote_def)

lemma hashed_previous:
  assumes "hashed r = hashed r'" and "au_PreviousHash r = sha256hex x" and "au_PreviousHash r' = sha256hex y"
  shows "au_PreviousHash r = au_PreviousHash r'"
proof -
  obtain pre pre' where "hashed r = pre @ quote (au_PreviousHash r) @ hash_tail"
    "hashed r' = pre' @ quote (au_PreviousHash r') @ hash_tail"
    using hashed_suffix by blast
  then have "pre @ (quote (sha256hex x) @ hash_tail) = pre' @ (quote (sha256hex y) @ hash_tail)"
    using assms by simp
  then have "quote (sha256hex x) @ hash_tail = quote (sha256hex y) @ hash_tail"
    by (rule append_eq_append_conv [THEN iffD1, THEN conjunct2, rotated]) (simp add: quote_digest)
  then show ?thesis using assms(2,3) by (simp add: quote_digest)
qed

definition sha_collision :: "string \<Rightarrow> string \<Rightarrow> bool" where
  "sha_collision x y \<longleftrightarrow> x \<noteq> y \<and> sha256hex x = sha256hex y"

lemma chain_agree:
  assumes "verify_audit_from [] 0 rs" and "verify_audit_from [] 0 rs'"
    and "n < length rs" and "n < length rs'" and "au_Hash (rs ! n) = au_Hash (rs' ! n)"
  shows "(\<forall>i \<le> n. hashed (rs ! i) = hashed (rs' ! i)) \<or> (\<exists>i \<le> n. sha_collision (hashed (rs ! i)) (hashed (rs' ! i)))"
  using assms(3-5)
proof (induction n)
  case 0
  then show ?case
    using verify_audit_nth(1) [OF assms(1), of 0] verify_audit_nth(1) [OF assms(2), of 0]
    by (auto simp: sha_collision_def)
next
  case (Suc n)
  note v = verify_audit_nth [OF assms(1)] and v' = verify_audit_nth [OF assms(2)]
  show ?case
  proof (cases "hashed (rs ! Suc n) = hashed (rs' ! Suc n)")
    case False
    then have "sha_collision (hashed (rs ! Suc n)) (hashed (rs' ! Suc n))"
      using Suc.prems v(1) [of "Suc n"] v'(1) [of "Suc n"] by (simp add: sha_collision_def)
    then show ?thesis by blast
  next
    case True
    have "au_PreviousHash (rs ! Suc n) = au_PreviousHash (rs' ! Suc n)"
      by (rule hashed_previous [OF True])
        (use Suc.prems v(2) [of "Suc n"] v'(2) [of "Suc n"] v(1) [of n] v'(1) [of n] in simp_all)
    then have "au_Hash (rs ! n) = au_Hash (rs' ! n)"
      using Suc.prems v(2) [of "Suc n"] v'(2) [of "Suc n"] by simp
    from Suc.IH [OF _ _ this] Suc.prems True show ?thesis
      by (metis Suc_lessD le_Suc_eq)
  qed
qed

lemma verify_checkpoints_mem:
  "verify_checkpoints verify rs cps = None \<Longrightarrow> cp \<in> set cps \<Longrightarrow> wc_Count cp \<noteq> 0 \<and> at_head rs cp"
  by (induction cps) (auto split: if_splits)

lemma at_head_nth:
  assumes "at_head rs cp" and "wc_Count cp \<noteq> 0" and "length rs < 2 ^ 64"
  shows "unat (wc_Count cp) - 1 < length rs" and "au_Hash (rs ! (unat (wc_Count cp) - 1)) = wc_HeadHash cp"
proof -
  have "unat (of_nat (length rs) :: u64) = length rs"
    using assms(3) by (simp add: unsigned_of_nat take_bit_nat_eq_self)
  then have "unat (wc_Count cp) \<le> length rs"
    using assms(1) by (simp add: at_head_def not_less word_le_nat_alt)
  moreover have "unat (wc_Count cp) \<noteq> 0" using assms(2) by (simp add: unat_eq_0)
  ultimately show "unat (wc_Count cp) - 1 < length rs" by simp
  show "au_Hash (rs ! (unat (wc_Count cp) - 1)) = wc_HeadHash cp"
    using assms(1) by (simp add: at_head_def)
qed

text \<open>C6. A witnessed history cannot be rewritten unnoticed: if a checkpoint was accepted against a
  log that verifies, and later any state whatsoever that still carries the checkpoint passes
  \<^verbatim>\<open>VerifyWitness\<close>, then every record up to the witnessed position is the same in what its
  hash covers, or two different records with the same SHA-256 digest are at hand.\<close>

theorem witness_detects_rewrite:
  assumes "RecordCosignature verify now princ cp s = (Inr (), s1)"
    and "VerifyAudit (s_Audit (sv_state s)) = None" and "length (s_Audit (sv_state s)) < 2 ^ 64"
    and "cp \<in> set (s_WitnessCheckpoints (sv_state t))" and "VerifyWitness verify t = None"
    and "length (s_Audit (sv_state t)) < 2 ^ 64"
  shows "(\<forall>i < unat (wc_Count cp). hashed (s_Audit (sv_state s) ! i) = hashed (s_Audit (sv_state t) ! i))
    \<or> (\<exists>i < unat (wc_Count cp). sha_collision (hashed (s_Audit (sv_state s) ! i)) (hashed (s_Audit (sv_state t) ! i)))"
proof -
  let ?n = "unat (wc_Count cp) - 1"
  have s: "at_head (s_Audit (sv_state s)) cp" "wc_Count cp \<noteq> 0"
    using assms(1) by (auto simp: RecordCosignature_def Let_def split: if_splits)
  have t: "verify_audit_from [] 0 (s_Audit (sv_state t))" "at_head (s_Audit (sv_state t)) cp"
    using assms(4,5) verify_checkpoints_mem by (auto simp: VerifyWitness_def VerifyAudit_def split: if_splits)
  note hs = at_head_nth [OF s assms(3)] and ht = at_head_nth [OF t(2) s(2) assms(6)]
  have vs: "verify_audit_from [] 0 (s_Audit (sv_state s))"
    using assms(2) by (simp add: VerifyAudit_def split: if_splits)
  have lt: "i \<le> ?n \<longleftrightarrow> i < unat (wc_Count cp)" for i
    using s(2) unat_eq_0 [of "wc_Count cp"] by auto
  have "au_Hash (s_Audit (sv_state s) ! ?n) = au_Hash (s_Audit (sv_state t) ! ?n)" using hs(2) ht(2) by simp
  from chain_agree [OF vs t(1) hs(1) ht(1) this] show ?thesis unfolding lt .
qed

definition sample_audited :: supervisor where
  "sample_audited = auditLocked 9 ''op'' ''a1'' ''read'' ''doc'' ''allow'' [] sample_supervisor"

definition sample_checkpoint :: witnesscheckpoint where
  "sample_checkpoint =
     \<lparr>wc_HeadHash = au_Hash (next_record 9 ''op'' ''a1'' ''read'' ''doc'' ''allow'' [] sample_supervisor),
      wc_Count = 1, wc_Time = 9, wc_PublicKey = replicate 32 (CHR ''k''),
      wc_Signature = replicate 64 (CHR ''k''), wc_Signer = ''w''\<rparr>"

lemma sample_audited_inv: "audit_inv sample_audited" "top_sequence sample_audited = 2"
  unfolding sample_audited_def
  by (rule audit_inv_auditLocked [OF sample_audit_inv(1)]) (simp_all add: top_sequence_def)

lemma sample_head: "at_head (s_Audit (sv_state sample_audited)) sample_checkpoint"
  by (simp add: at_head_def sample_audited_def sample_checkpoint_def)

lemma sample_record:
  "\<exists>s1. RecordCosignature sample_verify 10 ''op'' sample_checkpoint sample_audited = (Inr (), s1)
     \<and> s_WitnessCheckpoints (sv_state s1) = [sample_checkpoint]
     \<and> VerifyWitness sample_verify s1 = None \<and> length (s_Audit (sv_state s1)) = 2"
proof -
  let ?r = "RecordCosignature sample_verify 10 ''op'' sample_checkpoint sample_audited"
  let ?u = "auditLocked 10 ''op'' [] ''witness.cosign''
    (take 12 (wc_HeadHash sample_checkpoint) @ ''@'' @ dec (unat (wc_Count sample_checkpoint))) ''allow''
    (wc_Signer sample_checkpoint) (on_state (s_WitnessCheckpoints_update
      (\<lambda>cps. append_bounded maxWitnessCheckpoints cps sample_checkpoint)) sample_audited)"
  have cp: "length (wc_PublicKey sample_checkpoint) = 32" "length (wc_Signature sample_checkpoint) = 64"
    "wc_Count sample_checkpoint \<noteq> 0" "wc_Time sample_checkpoint \<noteq> 0" "wc_HeadHash sample_checkpoint \<noteq> []"
    by (simp_all add: sample_checkpoint_def auditHash_hashed)
  have vs: "sample_verify (wc_PublicKey sample_checkpoint) m (wc_Signature sample_checkpoint)" for m
    by (simp add: sample_verify_def sample_checkpoint_def)
  have w: "s_WitnessCheckpoints (sv_state sample_audited) = []"
    by (simp add: sample_audited_def sample_state_def empty_state_def)
  have "?r = persist_return () ?u"
    using cp vs w sample_head by (simp add: RecordCosignature_def)
  moreover have "sv_dbq ?u = []" by (simp add: sample_audited_def)
  ultimately have "?r = (Inr (), ?u\<lparr>sv_committed := durable (sv_state ?u)\<rparr>)"
    using sample_persist [of ?u "()"] by simp
  then obtain s1 where r: "?r = (Inr (), s1)" "sv_state s1 = sv_state ?u" by simp
  then have ws: "s_WitnessCheckpoints (sv_state s1) = [sample_checkpoint]"
    "\<exists>x. s_Audit (sv_state s1) = s_Audit (sv_state sample_audited) @ [x]"
    using w by (simp_all add: append_bounded_def maxWitnessCheckpoints_def)
  have "evo 1 sample_audited s1"
    using evo_RecordCosignature [of sample_audited sample_verify 10 "''op''" sample_checkpoint] r(1) by simp
  then have "audit_inv s1" using evo_audit_inv sample_audited_inv by fastforce
  then have "VerifyAudit (s_Audit (sv_state s1)) = None"
    by (simp add: audit_inv_def chain_ok_def VerifyAudit_def)
  moreover have "at_head (s_Audit (sv_state s1)) sample_checkpoint"
    using ws(2) sample_head by (auto simp: at_head_def sample_audited_def sample_checkpoint_def)
  ultimately have "VerifyWitness sample_verify s1 = None"
    using ws(1) vs cp(3) by (simp add: VerifyWitness_def)
  with r(1) ws show ?thesis by (auto simp: sample_audited_def)
qed

theorem witness_detects_rewrite_witness:
  "\<exists>s1. RecordCosignature sample_verify 10 ''op'' sample_checkpoint sample_audited = (Inr (), s1)
     \<and> VerifyWitness sample_verify s1 = None
     \<and> ((\<forall>i < unat (wc_Count sample_checkpoint).
            hashed (s_Audit (sv_state sample_audited) ! i) = hashed (s_Audit (sv_state s1) ! i))
        \<or> (\<exists>i < unat (wc_Count sample_checkpoint).
            sha_collision (hashed (s_Audit (sv_state sample_audited) ! i)) (hashed (s_Audit (sv_state s1) ! i))))"
proof -
  obtain s1 where s1: "RecordCosignature sample_verify 10 ''op'' sample_checkpoint sample_audited = (Inr (), s1)"
    "s_WitnessCheckpoints (sv_state s1) = [sample_checkpoint]" "VerifyWitness sample_verify s1 = None"
    "length (s_Audit (sv_state s1)) = 2"
    using sample_record by blast
  have v: "VerifyAudit (s_Audit (sv_state sample_audited)) = None"
    using sample_audited_inv(1) by (simp add: audit_inv_def chain_ok_def VerifyAudit_def)
  have l: "length (s_Audit (sv_state sample_audited)) < 2 ^ 64" by (simp add: sample_audited_def)
  have m: "sample_checkpoint \<in> set (s_WitnessCheckpoints (sv_state s1))" using s1(2) by simp
  have l': "length (s_Audit (sv_state s1)) < 2 ^ 64" using s1(4) by simp
  from witness_detects_rewrite [OF s1(1) v l m s1(3) l'] s1 show ?thesis by blast
qed

end
