(* ===== verification/KernelWake.thy ===== *)
theory KernelWake
  imports Taint
begin

text \<open>
  The bridge to the kernel application registry (\<^verbatim>\<open>runtime/kernelwake.go\<close>): draining the durable
  kernel queues into the mailbox, recovery of persisted snapshots and the snapshot at shutdown.

  The kernel is not part of the repository. Its interface (\<^verbatim>\<open>KernelEventBridge\<close>,
  \<^verbatim>\<open>KernelApplication\<close>, \<^verbatim>\<open>KernelEventSource\<close>) is a record of functions on a kernel state of any
  type, an argument of every operation; a handle is named by the application it was opened for,
  which is how the supervisor keeps its handles. What the documentation of the interface promises
  of the queues is the predicate \<open>kernel_laws\<close>. The lemmas show that a drain loses no event: an
  event leaves the kernel queue only when the database holds its message.
\<close>

section \<open>The kernel interface\<close>

record 'k kernel =
  k_BootID :: "'k \<Rightarrow> string result"
  k_Open :: "string \<Rightarrow> u64 \<Rightarrow> 'k \<Rightarrow> unit result \<times> 'k"
  k_Read :: "string \<Rightarrow> 'k \<Rightarrow> kernelevent option result \<times> 'k"
  k_Ack :: "string \<Rightarrow> u64 \<Rightarrow> 'k \<Rightarrow> unit result \<times> 'k"
  k_Snapshot :: "string \<Rightarrow> 'k \<Rightarrow> kernelevent list result \<times> 'k"
  k_Restore :: "string \<Rightarrow> kernelevent list \<Rightarrow> 'k \<Rightarrow> unit result \<times> 'k"
  k_Close :: "string \<Rightarrow> 'k \<Rightarrow> 'k"
  k_OpenSource :: "string \<Rightarrow> u32 \<Rightarrow> 'k \<Rightarrow> unit result \<times> 'k"
  k_Attach :: "string \<Rightarrow> u64 \<Rightarrow> 'k \<Rightarrow> unit result \<times> 'k"
  k_Post :: "string \<Rightarrow> u64 \<Rightarrow> 'k \<Rightarrow> unit result \<times> 'k"
  k_CloseSource :: "string \<Rightarrow> 'k \<Rightarrow> 'k"

definition KernelSourceLSFS :: u32 where "KernelSourceLSFS = 3"

definition kernelKindName :: "u32 \<Rightarrow> string" where
  "kernelKindName kind =
     (if kind = 1 then ''timer'' else if kind = 2 then ''port'' else if kind = 3 then ''lsfs'' else ''unknown'')"

section \<open>Handles\<close>

definition closeKernelHandlesLocked :: "'k kernel \<Rightarrow> supervisor \<times> 'k \<Rightarrow> supervisor \<times> 'k" where
  "closeKernelHandlesLocked K w =
     (case w of (s, k) \<Rightarrow>
        (s\<lparr>sv_kernelApps := [], sv_kernelSrcs := []\<rparr>,
         fold (k_CloseSource K) (sv_kernelSrcs s) (fold (k_Close K) (sv_kernelApps s) k)))"

definition drop_handle :: "'k kernel \<Rightarrow> string \<Rightarrow> supervisor \<times> 'k \<Rightarrow> supervisor \<times> 'k" where
  "drop_handle K i w =
     (case w of (s, k) \<Rightarrow> (s\<lparr>sv_kernelApps := removeAll i (sv_kernelApps s)\<rparr>, k_Close K i k))"

text \<open>Callers pass ids of existing applications; the code dereferences the record.\<close>

definition ensureKernelHandleLocked :: "'k kernel \<Rightarrow> string \<Rightarrow> supervisor \<times> 'k \<Rightarrow> unit result \<times> supervisor \<times> 'k" where
  "ensureKernelHandleLocked K i w =
     (case w of (s, k) \<Rightarrow>
        if i \<in> set (sv_kernelApps s) then (Inr (), s, k)
        else case app s i of
          None \<Rightarrow> (Inl (ErrMsg ''nil pointer''), s, k)
        | Some a \<Rightarrow>
            (case k_Open K i (a_KernelID a) k of
               (Inl e, k1) \<Rightarrow> (Inl e, s, k1)
             | (Inr _, k1) \<Rightarrow> (Inr (), s\<lparr>sv_kernelApps := i # sv_kernelApps s\<rparr>, k1)))"

definition ensureKernelSourceLocked :: "'k kernel \<Rightarrow> string \<Rightarrow> supervisor \<times> 'k \<Rightarrow> unit result \<times> supervisor \<times> 'k" where
  "ensureKernelSourceLocked K i w =
     (if i \<in> set (sv_kernelSrcs (fst w)) then (Inr (), w)
      else case ensureKernelHandleLocked K i w of
        (Inl e, w1) \<Rightarrow> (Inl e, w1)
      | (Inr _, s1, k1) \<Rightarrow>
          (case k_OpenSource K i KernelSourceLSFS k1 of
             (Inl e, k2) \<Rightarrow> (Inl e, s1, k2)
           | (Inr _, k2) \<Rightarrow>
               (case app s1 i of
                  None \<Rightarrow> (Inl (ErrMsg ''nil pointer''), s1, k2)
                | Some a \<Rightarrow>
                    (case k_Attach K i (a_KernelID a) k2 of
                       (Inl e, k3) \<Rightarrow> (Inl e, s1, k_CloseSource K i k3)
                     | (Inr _, k3) \<Rightarrow> (Inr (), s1\<lparr>sv_kernelSrcs := i # sv_kernelSrcs s1\<rparr>, k3)))))"

section \<open>Events as messages\<close>

definition kernel_pending :: "supervisor \<Rightarrow> string \<Rightarrow> kernelevent list" where
  "kernel_pending s i = (case gget (s_KernelPending (sv_state s)) i of None \<Rightarrow> [] | Some es \<Rightarrow> es)"

abbreviation put_pending :: "string \<Rightarrow> kernelevent list \<Rightarrow> supervisor \<Rightarrow> supervisor" where
  "put_pending i es s \<equiv> on_state (s_KernelPending_update (gput i es)) s"

definition set_pending :: "string \<Rightarrow> kernelevent list \<Rightarrow> supervisor \<Rightarrow> supervisor" where
  "set_pending i es s =
     (if es = [] then on_state (s_KernelPending_update (gdel i)) s else put_pending i es s)"

definition markKernelRecoveryPendingLocked :: "string \<Rightarrow> supervisor \<Rightarrow> supervisor" where
  "markKernelRecoveryPendingLocked i s =
     put_pending i (map (ke_RecoveryPending_update (\<lambda>_. True)) (kernel_pending s i)) s"

definition kernelWakePayload :: "string \<Rightarrow> kernelevent \<Rightarrow> string" where
  "kernelWakePayload i e = jobject
     [(''source_kind'', quote ''kernel''), (''application_id'', quote i),
      (''event_id'', dec (unat (ke_EventID e))), (''event_seq'', dec (unat (ke_EventSeq e))),
      (''kernel_kind'', quote (kernelKindName (ke_Kind e))), (''coalesced'', dec (unat (ke_Coalesced e))),
      (''data'', dec (unat (ke_Data e))),
      (''text'', quote (''kernel '' @ kernelKindName (ke_Kind e) @ '' event: event_id='' @ dec (unat (ke_EventID e))
         @ '' seq='' @ dec (unat (ke_EventSeq e)) @ '' data='' @ dec (unat (ke_Data e))))]"

definition sameKernelEvent :: "kernelevent \<Rightarrow> kernelevent \<Rightarrow> bool" where
  "sameKernelEvent a b \<longleftrightarrow>
     ke_ApplicationID a = ke_ApplicationID b \<and> ke_EventID a = ke_EventID b \<and> ke_EventSeq a = ke_EventSeq b
     \<and> ke_Kind a = ke_Kind b \<and> ke_Coalesced a = ke_Coalesced b \<and> ke_Data a = ke_Data b"

definition identifyKernelEventLocked :: "string \<Rightarrow> kernelevent \<Rightarrow> string \<Rightarrow> supervisor \<Rightarrow> kernelevent" where
  "identifyKernelEventLocked i e boot s =
     (let e1 = e\<lparr>ke_BootID := boot, ke_QueueBootID := boot\<rparr>
      in case find (\<lambda>saved. ke_QueueBootID saved = boot \<and> sameKernelEvent saved e1) (kernel_pending s i) of
           None \<Rightarrow> e1
         | Some saved \<Rightarrow> e1\<lparr>ke_BootID := ke_BootID saved\<rparr>)"

definition kernelMessageKey :: "string \<Rightarrow> kernelevent \<Rightarrow> string" where
  "kernelMessageKey i e =
     (if ke_BootID e = [] then ''kernel:'' @ i @ '':'' @ dec (unat (ke_EventID e))
      else ''kernel:'' @ i @ '':'' @ ke_BootID e @ '':'' @ dec (unat (ke_EventID e)))"

section \<open>Persisted snapshots\<close>

text \<open>The loop over \<^verbatim>\<open>s.state.KernelPending[id]\<close>: an iteration that goes on leaves there the rest of
  the list. The result tells whether all were delivered.\<close>

fun deliver_persisted :: "int \<Rightarrow> string \<Rightarrow> kernelevent list \<Rightarrow> supervisor \<Rightarrow> bool result \<times> supervisor" where
  "deliver_persisted now i [] s = (Inr True, s)"
| "deliver_persisted now i (e # es) s =
     (case enqueueLocked now ''supervisor'' i (kernelMessageKey i e) (kernelWakePayload i e) s of
        (Inl er, s1) \<Rightarrow> if er = ErrMailboxFull then (Inr False, s1) else (Inl er, restoreLocked s1)
      | (Inr _, s1) \<Rightarrow>
          (case persistLocked (set_pending i es s1) of
             (Some er, s2) \<Rightarrow> (Inl er, s2)
           | (None, s2) \<Rightarrow> deliver_persisted now i es s2))"

definition deliverPersistedKernelLocked :: "int \<Rightarrow> string \<Rightarrow> supervisor \<Rightarrow> bool result \<times> supervisor" where
  "deliverPersistedKernelLocked now i s = deliver_persisted now i (kernel_pending s i) s"

definition boot_identity :: "'k kernel \<Rightarrow> 'k \<Rightarrow> string result" where
  "boot_identity K k =
     (case k_BootID K k of
        Inl _ \<Rightarrow> Inl (ErrMsg ''kernel boot identity unavailable'')
      | Inr boot \<Rightarrow> if boot = [] then Inl (ErrMsg ''kernel boot identity unavailable'') else Inr boot)"

definition application_ids :: "supervisor \<Rightarrow> string list" where
  "application_ids s = sort (map fst (s_Applications (sv_state s)))"

fun attach_loop :: "'k kernel \<Rightarrow> int \<Rightarrow> string \<Rightarrow> string list \<Rightarrow> supervisor \<times> 'k \<Rightarrow> unit result \<times> supervisor \<times> 'k" where
  "attach_loop K now boot [] w = (Inr (), w)"
| "attach_loop K now boot (i # is) (s, k) =
     (let pending = kernel_pending s i
      in if (case app s i of None \<Rightarrow> True | Some a \<Rightarrow> a_State a = ''tombstoned'') \<or> pending = []
         then attach_loop K now boot is (s, k)
         else
           (case deliverPersistedKernelLocked now i (markKernelRecoveryPendingLocked i s) of
              (Inl e, s1) \<Rightarrow> (Inl e, markKernelRecoveryPendingLocked i s1, k)
            | (Inr recovered, s1) \<Rightarrow>
                if \<not> recovered \<or> \<not> list_all (\<lambda>e. ke_QueueBootID e \<noteq> [] \<and> ke_QueueBootID e = boot) pending
                then attach_loop K now boot is (s1, k)
                else
                  (case ensureKernelHandleLocked K i (s1, k) of
                     (Inl e, w) \<Rightarrow> (Inl e, w)
                   | (Inr _, s2, k2) \<Rightarrow>
                       (case k_Restore K i pending k2 of
                          (Inl e, k3) \<Rightarrow>
                            if e \<noteq> EBUSY then (Inl e, drop_handle K i (s2, k3)) else attach_loop K now boot is (s2, k3)
                        | (Inr _, k3) \<Rightarrow> attach_loop K now boot is (s2, k3)))))"

definition attachKernel :: "'k kernel \<Rightarrow> int \<Rightarrow> supervisor \<times> 'k \<Rightarrow> unit result \<times> supervisor \<times> 'k" where
  "attachKernel K now w =
     (case boot_identity K (snd w) of
        Inl e \<Rightarrow> (Inl e, w)
      | Inr boot \<Rightarrow> attach_loop K now boot (application_ids (fst w)) w)"

section \<open>Draining\<close>

text \<open>One event read from the queue: the message is in the database before the acknowledgement.
  The result is \<open>False\<close> for a full mailbox.\<close>

definition deliver_event :: "'k kernel \<Rightarrow> int \<Rightarrow> string \<Rightarrow> string \<Rightarrow> kernelevent \<Rightarrow> supervisor \<times> 'k \<Rightarrow> bool result \<times> supervisor \<times> 'k" where
  "deliver_event K now boot i event w =
     (case w of (s, k) \<Rightarrow>
        let identified = identifyKernelEventLocked i event boot s
        in case enqueueLocked now ''supervisor'' i (kernelMessageKey i identified) (kernelWakePayload i event) s of
             (Inl e, s1) \<Rightarrow>
               if e = ErrMailboxFull then (Inr False, drop_handle K i (s1, k))
               else (Inl e, drop_handle K i (restoreLocked s1, k))
           | (Inr _, s1) \<Rightarrow>
               let kept = filter (\<lambda>saved. ke_BootID saved \<noteq> ke_BootID identified \<or> ke_EventID saved \<noteq> ke_EventID identified)
                            (kernel_pending s1 i)
               in (case persistLocked (put_pending i (kept @ [identified]) s1) of
                     (Some e, s2) \<Rightarrow> (Inl e, drop_handle K i (restoreLocked s2, k))
                   | (None, s2) \<Rightarrow>
                       (case k_Ack K i (ke_EventID event) k of
                          (Inl e, k1) \<Rightarrow> (Inl e, drop_handle K i (s2, k1))
                        | (Inr _, k1) \<Rightarrow>
                            (case persistLocked (set_pending i kept s2) of
                               (Some e, s3) \<Rightarrow> (Inl e, s3, k1)
                             | (None, s3) \<Rightarrow> (Inr True, s3, k1)))))"

text \<open>The read loop of one application; \<open>None\<close> when more events come than \<open>fuel\<close> allows.\<close>

fun drain_events ::
  "'k kernel \<Rightarrow> int \<Rightarrow> string \<Rightarrow> string \<Rightarrow> nat \<Rightarrow> supervisor \<times> 'k \<Rightarrow> (bool result \<times> supervisor \<times> 'k) option" where
  "drain_events K now boot i 0 w = None"
| "drain_events K now boot i (Suc fuel) (s, k) =
     (case k_Read K i k of
        (Inl e, k1) \<Rightarrow> Some (Inl e, s, k1)
      | (Inr None, k1) \<Rightarrow> Some (Inr True, s, k1)
      | (Inr (Some event), k1) \<Rightarrow>
          (case deliver_event K now boot i event (s, k1) of
             (Inr True, w) \<Rightarrow> drain_events K now boot i fuel w
           | (r, w) \<Rightarrow> Some (r, w)))"

text \<open>A full mailbox ends the whole pass.\<close>

fun drain_loop ::
  "'k kernel \<Rightarrow> int \<Rightarrow> string \<Rightarrow> nat \<Rightarrow> string list \<Rightarrow> supervisor \<times> 'k \<Rightarrow> (unit result \<times> supervisor \<times> 'k) option" where
  "drain_loop K now boot fuel [] w = Some (Inr (), w)"
| "drain_loop K now boot fuel (i # is) (s, k) =
     (if (case app s i of None \<Rightarrow> True | Some a \<Rightarrow> retired a \<or> a_KernelID a = 0) then drain_loop K now boot fuel is (s, k)
      else
        (case deliverPersistedKernelLocked now i (markKernelRecoveryPendingLocked i s) of
           (Inl e, s1) \<Rightarrow> Some (Inl e, markKernelRecoveryPendingLocked i s1, k)
         | (Inr False, s1) \<Rightarrow> drain_loop K now boot fuel is (s1, k)
         | (Inr True, s1) \<Rightarrow>
             (case ensureKernelHandleLocked K i (s1, k) of
                (Inl e, w) \<Rightarrow> Some (Inl e, w)
              | (Inr _, w) \<Rightarrow>
                  (case drain_events K now boot i fuel w of
                     None \<Rightarrow> None
                   | Some (Inl e, w1) \<Rightarrow> Some (Inl e, w1)
                   | Some (Inr False, w1) \<Rightarrow> Some (Inr (), w1)
                   | Some (Inr True, w1) \<Rightarrow> drain_loop K now boot fuel is w1))))"

definition deliverKernel :: "'k kernel \<Rightarrow> int \<Rightarrow> nat \<Rightarrow> supervisor \<times> 'k \<Rightarrow> (unit result \<times> supervisor \<times> 'k) option" where
  "deliverKernel K now fuel w =
     (case boot_identity K (snd w) of
        Inl e \<Rightarrow> Some (Inl e, w)
      | Inr boot \<Rightarrow> drain_loop K now boot fuel (application_ids (fst w)) w)"

section \<open>The snapshot at shutdown\<close>

fun snapshot_loop :: "'k kernel \<Rightarrow> string \<Rightarrow> string list \<Rightarrow> bool \<Rightarrow> supervisor \<times> 'k \<Rightarrow> bool \<times> supervisor \<times> 'k" where
  "snapshot_loop K boot [] changed w = (changed, w)"
| "snapshot_loop K boot (i # is) changed (s, k) =
     (if (case app s i of None \<Rightarrow> True | Some a \<Rightarrow> retired a \<or> a_KernelID a = 0)
         \<or> list_ex (\<lambda>e. ke_RecoveryPending e \<or> ke_QueueBootID e \<noteq> [] \<and> ke_QueueBootID e \<noteq> boot) (kernel_pending s i)
      then snapshot_loop K boot is changed (s, k)
      else
        (case ensureKernelHandleLocked K i (s, k) of
           (Inl _, w) \<Rightarrow> snapshot_loop K boot is changed w
         | (Inr _, s1, k1) \<Rightarrow>
             (case k_Snapshot K i k1 of
                (Inl _, k2) \<Rightarrow> snapshot_loop K boot is changed (s1, k2)
              | (Inr events, k2) \<Rightarrow>
                  if events = [] then
                    (if gget (s_KernelPending (sv_state s1)) i \<noteq> None
                     then snapshot_loop K boot is True (on_state (s_KernelPending_update (gdel i)) s1, k2)
                     else snapshot_loop K boot is changed (s1, k2))
                  else snapshot_loop K boot is True
                    (put_pending i (map (\<lambda>e. identifyKernelEventLocked i e boot s1) events) s1, k2))))"

definition snapshotKernel :: "'k kernel \<Rightarrow> supervisor \<times> 'k \<Rightarrow> supervisor \<times> 'k" where
  "snapshotKernel K w =
     (case boot_identity K (snd w) of
        Inl _ \<Rightarrow> w
      | Inr boot \<Rightarrow>
          (case snapshot_loop K boot (application_ids (fst w)) False w of (changed, w1) \<Rightarrow>
             case closeKernelHandlesLocked K w1 of (s2, k2) \<Rightarrow>
               (if changed then (snd (persistLocked s2), k2) else (s2, k2))))"

section \<open>The operations as moves\<close>

lemma evo_pending: "evo n s t \<Longrightarrow> evo n s (t\<lparr>sv_state := s_KernelPending_update f (sv_state t)\<rparr>)"
  by (rule evo_state) auto

lemma evo_set_pending: "evo n s t \<Longrightarrow> evo n s (set_pending i es t)"
  by (simp add: set_pending_def evo_pending)

lemma evo_mark: "evo n s t \<Longrightarrow> evo n s (markKernelRecoveryPendingLocked i t)"
  by (simp add: markKernelRecoveryPendingLocked_def evo_pending)

lemma evo_handles: "evo n s t \<Longrightarrow> evo n s (t\<lparr>sv_kernelApps := xs\<rparr>)" "evo n s t \<Longrightarrow> evo n s (t\<lparr>sv_kernelSrcs := ys\<rparr>)"
  by (erule evo.change; simp)+

lemma evo_drop: "evo n s t \<Longrightarrow> evo n s (fst (drop_handle K i (t, k)))"
  by (simp add: drop_handle_def evo_handles)

lemma evo_ensureHandle: "evo n s t \<Longrightarrow> evo n s (fst (snd (ensureKernelHandleLocked K i (t, k))))"
  by (auto simp: ensureKernelHandleLocked_def evo_handles split: option.splits prod.splits sum.splits)

lemma evo_ensureSource: "evo n s t \<Longrightarrow> evo n s (fst (snd (ensureKernelSourceLocked K i (t, k))))"
  using evo_ensureHandle [of n s t K i k]
  by (auto simp: ensureKernelSourceLocked_def evo_handles split: option.splits prod.splits sum.splits)

lemma evo_enqueued:
  "evo n s t \<Longrightarrow> n + 1 < m \<Longrightarrow> enqueueLocked now princ i key payload t = (r, u) \<Longrightarrow> evo m s u"
  using evo.enqueue [of n s t m now princ i key payload] by simp

lemmas evo_kernel = evo_handles evo.restore evo_persisted evo_pending evo_set_pending evo_mark

lemma evo_deliver_persisted:
  "evo n s t \<Longrightarrow> n + 2 * length es \<le> m \<Longrightarrow> evo m s (snd (deliver_persisted now i es t))"
proof (induction es arbitrary: n t)
  case Nil
  then show ?case by (auto intro: evo_mono)
next
  case (Cons e es)
  obtain r s1 where q: "enqueueLocked now ''supervisor'' i (kernelMessageKey i e) (kernelWakePayload i e) t = (r, s1)"
    by fastforce
  have 1: "evo (n + 2) s s1" using evo_enqueued [OF Cons.prems(1) _ q] by simp
  have 2: "evo m s s1" by (rule evo_mono [OF 1]) (use Cons.prems in simp)
  have 3: "evo m s u \<and> evo m s (snd (deliver_persisted now i es u))" if "persistLocked (set_pending i es s1) = (er, u)" for er u
    using Cons.IH [OF evo_persisted [OF evo_set_pending [OF 1] that]] evo_persisted [OF evo_set_pending [OF 2] that] Cons.prems(2)
    by simp
  show ?case
    using 2 3 evo.restore [OF 2] by (auto simp: q split: sum.splits prod.splits option.splits)
qed

lemma evo_deliver_event:
  assumes "evo n s t" and "n + 1 < m"
  shows "evo m s (fst (snd (deliver_event K now boot i event (t, k))))"
proof -
  let ?id = "identifyKernelEventLocked i event boot t"
  obtain r s1 where q: "enqueueLocked now ''supervisor'' i (kernelMessageKey i ?id) (kernelWakePayload i event) t = (r, s1)"
    by fastforce
  have 1: "evo m s s1" using evo_enqueued [OF assms q] .
  note 2 = evo_persisted [OF evo_pending [OF 1]]
  show ?thesis
    using 1
    by (auto simp: deliver_event_def q Let_def drop_handle_def split: sum.splits prod.splits option.splits
        intro!: evo_handles intro: evo.restore 2 evo_persisted [OF evo_set_pending [OF 2]])
qed

lemma evo_drain_events:
  "evo n s t \<Longrightarrow> n + 2 * fuel \<le> m \<Longrightarrow> drain_events K now boot i fuel (t, k) = Some (r, t', k') \<Longrightarrow> evo m s t'"
proof (induction fuel arbitrary: n t k)
  case (Suc fuel)
  obtain rd k1 where rd: "k_Read K i k = (rd, k1)" by fastforce
  show ?case
  proof (cases "\<exists>event. rd = Inr (Some event)")
    case False
    then have "t' = t" using Suc.prems(3) rd by (auto split: sum.splits option.splits)
    then show ?thesis using evo_mono [OF Suc.prems(1)] Suc.prems(2) by simp
  next
    case True
    then obtain event where ev: "rd = Inr (Some event)" by blast
    obtain r1 s1 k2 where d: "deliver_event K now boot i event (t, k1) = (r1, s1, k2)" by (metis prod_cases3)
    have 1: "evo (n + 2) s s1" using evo_deliver_event [OF Suc.prems(1), of "n + 2" K now boot i event k1] d by simp
    show ?thesis
    proof (cases "r1 = Inr True")
      case True
      then have "drain_events K now boot i fuel (s1, k2) = Some (r, t', k')"
        using Suc.prems(3) rd ev d by simp
      from Suc.IH [OF 1 _ this] Suc.prems(2) show ?thesis by simp
    next
      case False
      then have "t' = s1" using Suc.prems(3) rd ev d by (auto split: sum.splits bool.splits)
      then show ?thesis using evo_mono [OF 1] Suc.prems(2) by simp
    qed
  qed
qed simp


text \<open>The events of other applications stay as they are.\<close>

lemma pending_frame:
  "enqueueLocked now princ i key payload s = (r, u) \<Longrightarrow> kernel_pending u j = kernel_pending s j"
  "persistLocked s = (None, u) \<Longrightarrow> kernel_pending u j = kernel_pending s j"
  "kernel_pending (set_pending i es s) j = (if j = i then es else kernel_pending s j)"
  "kernel_pending (put_pending i es s) j = (if j = i then es else kernel_pending s j)"
  "length (kernel_pending (markKernelRecoveryPendingLocked i s) j) = length (kernel_pending s j)"
  by (auto simp: kernel_pending_def enqueueLocked_def Let_def auditLocked_def stage_message_def set_pending_def
      markKernelRecoveryPendingLocked_def persistLocked_def split: option.splits if_splits list.splits bool.splits)

lemma deliver_persisted_frame:
  "deliver_persisted now i es s = (Inr b, u) \<Longrightarrow> j \<noteq> i \<Longrightarrow> kernel_pending u j = kernel_pending s j"
proof (induction es arbitrary: s)
  case (Cons e es)
  obtain r s1 where q: "enqueueLocked now ''supervisor'' i (kernelMessageKey i e) (kernelWakePayload i e) s = (r, s1)"
    by fastforce
  obtain er s2 where p: "persistLocked (set_pending i es s1) = (er, s2)" by fastforce
  have f: "kernel_pending s1 j = kernel_pending s j" using pending_frame(1) [OF q] .
  show ?case
  proof (cases "\<exists>m. r = Inr m")
    case True
    then have "er = None" "deliver_persisted now i es s2 = (Inr b, u)"
      using Cons.prems(1) q p by (auto split: option.splits)
    then show ?thesis
      using Cons.IH [of s2] Cons.prems(2) pending_frame(2) [of "set_pending i es s1" s2 j] p f
      by (simp add: pending_frame(3))
  next
    case False
    then have "u = s1" using Cons.prems(1) q by (auto split: sum.splits if_splits)
    then show ?thesis using f by simp
  qed
qed simp

lemma deliver_event_frame:
  assumes "deliver_event K now boot i event (s, k) = (Inr True, u, k')" and "j \<noteq> i"
  shows "kernel_pending u j = kernel_pending s j"
proof -
  let ?id = "identifyKernelEventLocked i event boot s"
  obtain r s1 where q: "enqueueLocked now ''supervisor'' i (kernelMessageKey i ?id) (kernelWakePayload i event) s = (r, s1)"
    by fastforce
  note f = pending_frame(1) [OF q]
  show ?thesis
    using assms f
    by (auto simp: deliver_event_def q Let_def pending_frame(3,4) dest!: pending_frame(2) [where j = j]
        split: sum.splits prod.splits option.splits if_splits)
qed

lemma drain_events_frame:
  "drain_events K now boot i fuel (s, k) = Some (Inr True, u, k') \<Longrightarrow> j \<noteq> i \<Longrightarrow> kernel_pending u j = kernel_pending s j"
proof (induction fuel arbitrary: s k)
  case (Suc fuel)
  obtain rd k1 where rd: "k_Read K i k = (rd, k1)" by fastforce
  show ?case
  proof (cases "\<exists>event. rd = Inr (Some event)")
    case False
    then show ?thesis using Suc.prems(1) rd by (auto split: sum.splits option.splits)
  next
    case True
    then obtain event where ev: "rd = Inr (Some event)" by blast
    obtain r1 s1 k2 where d: "deliver_event K now boot i event (s, k1) = (r1, s1, k2)" by (metis prod_cases3)
    have t: "r1 = Inr True" "drain_events K now boot i fuel (s1, k2) = Some (Inr True, u, k')"
      using Suc.prems(1) rd ev d by (auto split: sum.splits bool.splits)
    from Suc.IH [OF t(2) Suc.prems(2)] deliver_event_frame [OF _ Suc.prems(2), of K now boot event s k1 s1 k2] d t(1)
    show ?thesis by simp
  qed
qed simp

definition drain_cost :: "nat \<Rightarrow> string list \<Rightarrow> supervisor \<Rightarrow> nat" where
  "drain_cost fuel is s = sum_list (map (\<lambda>i. 2 * length (kernel_pending s i) + 2 * fuel) is)"

lemma drain_cost_cong:
  "(\<And>j. j \<in> set is \<Longrightarrow> length (kernel_pending u j) = length (kernel_pending s j)) \<Longrightarrow>
     drain_cost fuel is u = drain_cost fuel is s"
  unfolding drain_cost_def by (induction "is") auto

lemma ensureHandle_pending:
  "ensureKernelHandleLocked K i (s, k) = (r, u, k') \<Longrightarrow> kernel_pending u j = kernel_pending s j"
  by (auto simp: ensureKernelHandleLocked_def kernel_pending_def split: if_splits option.splits prod.splits sum.splits)

lemma evo_drain_loop:
  "evo n s t \<Longrightarrow> distinct is \<Longrightarrow> n + drain_cost fuel is t \<le> m \<Longrightarrow>
     drain_loop K now boot fuel is (t, k) = Some (r, t', k') \<Longrightarrow> evo m s t'"
proof (induction "is" arbitrary: n t k)
  case Nil
  then show ?case by (auto intro: evo_mono)
next
  case (Cons i "is")
  show ?case
  proof (cases "case app t i of None \<Rightarrow> True | Some a \<Rightarrow> retired a \<or> a_KernelID a = 0")
    case True
    then show ?thesis using Cons by (simp add: drain_cost_def)
  next
    case False
    let ?t = "markKernelRecoveryPendingLocked i t"
    let ?c = "n + 2 * length (kernel_pending t i)"
    obtain b t1 where p: "deliverPersistedKernelLocked now i ?t = (b, t1)" by fastforce
    have c: "?c + 2 * fuel + drain_cost fuel is t \<le> m" using Cons.prems(3) by (simp add: drain_cost_def)
    have 1: "evo ?c s t1"
      using evo_deliver_persisted [OF evo_mark [OF Cons.prems(1), of i], of "kernel_pending ?t i" ?c now i] p pending_frame(5) [of i t i]
      by (simp add: deliverPersistedKernelLocked_def)
    have f: "length (kernel_pending t1 j) = length (kernel_pending t j)" if "b = Inr x" "j \<in> set is" for x j
    proof -
      have "j \<noteq> i" using that(2) Cons.prems(2) by auto
      then have "kernel_pending t1 j = kernel_pending ?t j"
        using deliver_persisted_frame [of now i "kernel_pending ?t i" ?t x t1 j] p that(1)
        by (simp add: deliverPersistedKernelLocked_def)
      then show ?thesis by (simp add: pending_frame(5))
    qed
    have m1: "evo m s t1" using evo_mono [OF 1] c by simp
    consider (err) e where "b = Inl e" | (full) "b = Inr False" | (all) "b = Inr True" by (cases b) (auto)
    then show ?thesis
    proof cases
      case err
      then have "t' = markKernelRecoveryPendingLocked i t1" using Cons.prems(4) False p by simp
      then show ?thesis using evo_mark [OF m1] by simp
    next
      case full
      have "drain_cost fuel is t1 = drain_cost fuel is t" using f full by (intro drain_cost_cong) auto
      show ?thesis
        by (rule Cons.IH [OF 1]) (use Cons.prems False p full c \<open>drain_cost fuel is t1 = drain_cost fuel is t\<close> in auto)
    next
      case all
      obtain r2 t2 k2 where h: "ensureKernelHandleLocked K i (t1, k) = (r2, t2, k2)" by (metis prod_cases3)
      have 2: "evo ?c s t2" "evo m s t2"
        using evo_ensureHandle [OF 1, of K i k] evo_ensureHandle [OF m1, of K i k] h by simp_all
      show ?thesis
      proof (cases r2)
        case (Inl e)
        then show ?thesis using Cons.prems(4) False p all h 2 by simp
      next
        case (Inr u)
        obtain r3 t3 k3 where d: "drain_events K now boot i fuel (t2, k2) = Some (r3, t3, k3)"
          using Cons.prems(4) False p all h Inr by (auto split: option.splits)
        have 3: "evo (?c + 2 * fuel) s t3" using evo_drain_events [OF 2(1) _ d] by simp
        show ?thesis
        proof (cases "r3 = Inr True")
          case True
          have g: "drain_cost fuel is t3 = drain_cost fuel is t"
            using drain_events_frame [of K now boot i fuel t2 k2 t3 k3] d True Cons.prems(2) ensureHandle_pending [OF h] f [OF all]
            by (intro drain_cost_cong) (metis (no_types, lifting) distinct.simps(2))
          show ?thesis
            by (rule Cons.IH [OF 3]) (use Cons.prems False p all h Inr d True g c in auto)
        next
          case False
          then have "t' = t3"
            using Cons.prems(4) \<open>\<not> (case app t i of None \<Rightarrow> True | Some a \<Rightarrow> retired a \<or> a_KernelID a = 0)\<close> p all h Inr d
            by (auto split: sum.splits bool.splits)
          then show ?thesis using evo_mono [OF 3] c by simp
        qed
      qed
    qed
  qed
qed

lemma evo_attach_loop:
  "evo n s t \<Longrightarrow> distinct is \<Longrightarrow> n + drain_cost 0 is t \<le> m \<Longrightarrow>
     evo m s (fst (snd (attach_loop K now boot is (t, k))))"
proof (induction "is" arbitrary: n t k)
  case Nil
  then show ?case by (auto intro: evo_mono)
next
  case (Cons i "is")
  show ?case
  proof (cases "(case app t i of None \<Rightarrow> True | Some a \<Rightarrow> a_State a = ''tombstoned'') \<or> kernel_pending t i = []")
    case True
    have "n + drain_cost 0 is t \<le> m" using Cons.prems(3) by (simp add: drain_cost_def)
    from Cons.IH [OF Cons.prems(1) _ this] Cons.prems(2) True show ?thesis by (simp add: Let_def)
  next
    case False
    let ?t = "markKernelRecoveryPendingLocked i t"
    let ?c = "n + 2 * length (kernel_pending t i)"
    obtain b t1 where p: "deliverPersistedKernelLocked now i ?t = (b, t1)" by fastforce
    have c: "?c + drain_cost 0 is t \<le> m" using Cons.prems(3) by (simp add: drain_cost_def)
    have 1: "evo ?c s t1"
      using evo_deliver_persisted [OF evo_mark [OF Cons.prems(1), of i], of "kernel_pending ?t i" ?c now i] p pending_frame(5) [of i t i]
      by (simp add: deliverPersistedKernelLocked_def)
    have m1: "evo m s t1" using evo_mono [OF 1] c by simp
    have f: "drain_cost 0 is t1 = drain_cost 0 is t" if "b = Inr x" for x
    proof (rule drain_cost_cong)
      fix j assume "j \<in> set is"
      then have "j \<noteq> i" using Cons.prems(2) by auto
      then have "kernel_pending t1 j = kernel_pending ?t j"
        using deliver_persisted_frame [of now i "kernel_pending ?t i" ?t x t1 j] p that
        by (simp add: deliverPersistedKernelLocked_def)
      then show "length (kernel_pending t1 j) = length (kernel_pending t j)" by (simp add: pending_frame(5))
    qed
    obtain r2 t2 k2 where h: "ensureKernelHandleLocked K i (t1, k) = (r2, t2, k2)" by (metis prod_cases3)
    have 2: "evo ?c s t2" "evo m s t2"
      using evo_ensureHandle [OF 1, of K i k] evo_ensureHandle [OF m1, of K i k] h by simp_all
    have g: "drain_cost 0 is t2 = drain_cost 0 is t1" by (rule drain_cost_cong) (simp add: ensureHandle_pending [OF h])
    have go1: "evo m s (fst (snd (attach_loop K now boot is (t1, k))))" if "b = Inr x" for x
      by (rule Cons.IH [OF 1]) (use Cons.prems(2) f [OF that] c in auto)
    have go2: "evo m s (fst (snd (attach_loop K now boot is (t2, k3))))" if "b = Inr x" for x k3
      by (rule Cons.IH [OF 2(1)]) (use Cons.prems(2) f [OF that] g c in auto)
    show ?thesis
      using False p h 2 m1 go1 go2
      by (auto simp: Let_def drop_handle_def evo_handles evo_mark split: sum.splits prod.splits)
  qed
qed

lemma evo_snapshot_loop:
  "evo n s t \<Longrightarrow> evo n s (fst (snd (snapshot_loop K boot is changed (t, k))))"
proof (induction "is" arbitrary: t k changed)
  case (Cons i "is")
  obtain r2 t2 k2 where h: "ensureKernelHandleLocked K i (t, k) = (r2, t2, k2)" by (metis prod_cases3)
  have 2: "evo n s t2" using evo_ensureHandle [OF Cons.prems, of K i k] h by simp
  show ?case
    using Cons.IH [OF Cons.prems] Cons.IH [OF 2] Cons.IH [OF evo_pending [OF 2]] h
    by (auto split: sum.splits prod.splits)
qed simp

lemma evo_closeHandles: "evo n s t \<Longrightarrow> evo n s (fst (closeKernelHandlesLocked K (t, k)))"
  by (simp add: closeKernelHandlesLocked_def) (erule evo.change; simp)

lemma evo_attachKernel [audited]:
  assumes "distinct (map fst (s_Applications (sv_state s)))"
  shows "evo (drain_cost 0 (application_ids s) s) s (fst (snd (attachKernel K now (s, k))))"
  using evo_attach_loop [OF evo.start [of 0 s], of "application_ids s" _ K now _ k] assms
  by (auto simp: attachKernel_def application_ids_def evo.start split: sum.splits)

lemma evo_deliverKernel [audited]:
  assumes "distinct (map fst (s_Applications (sv_state s)))" and "deliverKernel K now fuel (s, k) = Some (r, s', k')"
  shows "evo (drain_cost fuel (application_ids s) s) s s'"
  using evo_drain_loop [OF evo.start [of 0 s], of "application_ids s" fuel _ K now _ k r s' k'] assms
  by (auto simp: deliverKernel_def application_ids_def evo.start split: sum.splits)

lemma evo_snapshotKernel [audited]: "evo 0 s (fst (snapshotKernel K (s, k)))"
proof (cases "boot_identity K k")
  case (Inl e)
  then show ?thesis by (simp add: snapshotKernel_def evo.start)
next
  case (Inr boot)
  obtain c s1 k1 where l: "snapshot_loop K boot (application_ids s) False (s, k) = (c, s1, k1)" by (metis prod_cases3)
  have "evo 0 s s1" using evo_snapshot_loop [OF evo.start [of 0 s], of K boot "application_ids s" False k] l by simp
  then have "evo 0 s (fst (closeKernelHandlesLocked K (s1, k1)))" by (rule evo_closeHandles)
  then show ?thesis
    using Inr l by (auto simp: snapshotKernel_def split: prod.splits intro: evo.persist)
qed

section \<open>No event is lost\<close>

text \<open>What the interface promises of the kernel queues, \<open>U k i\<close> being the unacknowledged events of
  application \<open>i\<close>: what \<^verbatim>\<open>Read\<close> returns is unacknowledged, only \<^verbatim>\<open>Ack\<close> retires events, and only the
  one it names; events may arrive at any time.\<close>

definition kernel_laws :: "'k kernel \<Rightarrow> ('k \<Rightarrow> string \<Rightarrow> kernelevent set) \<Rightarrow> bool" where
  "kernel_laws K U \<longleftrightarrow>
     (\<forall>k i j q. U k j \<subseteq> U (snd (k_Open K i q k)) j) \<and> (\<forall>k i j. U k j \<subseteq> U (k_Close K i k) j)
     \<and> (\<forall>k i j. U k j \<subseteq> U (snd (k_Read K i k)) j)
     \<and> (\<forall>k i e k'. k_Read K i k = (Inr (Some e), k') \<longrightarrow> e \<in> U k' i)
     \<and> (\<forall>k i j n. \<forall>e \<in> U k j. \<not> (j = i \<and> ke_EventID e = n) \<longrightarrow> e \<in> U (snd (k_Ack K i n k)) j)
     \<and> (\<forall>k i e e'. e \<in> U k i \<longrightarrow> e' \<in> U k i \<longrightarrow> ke_EventID e = ke_EventID e' \<longrightarrow> e = e')"

definition delivered :: "supervisorState \<Rightarrow> string \<Rightarrow> kernelevent \<Rightarrow> bool" where
  "delivered st i e \<longleftrightarrow>
     (\<exists>m \<in> set (mailbox st i). \<exists>b. m_IdempotencyKey m = kernelMessageKey i (e\<lparr>ke_BootID := b\<rparr>)
        \<and> m_Payload m = compact False False (kernelWakePayload i e))"

lemma delivered_mono: "mailbox_le st st' \<Longrightarrow> delivered st i e \<Longrightarrow> delivered st' i e"
  unfolding delivered_def using message_kept by metis

text \<open>A step of supervisor and kernel together that loses nothing.\<close>

definition keeps :: "('k \<Rightarrow> string \<Rightarrow> kernelevent set) \<Rightarrow> supervisor \<times> 'k \<Rightarrow> supervisor \<times> 'k \<Rightarrow> bool" where
  "keeps U w w' \<longleftrightarrow>
     (mailboxOrder.ahead (fst w) \<longrightarrow>
        mailboxOrder.ahead (fst w') \<and> mailbox_le (sv_committed (fst w)) (sv_committed (fst w'))
        \<and> (\<forall>i. \<forall>e \<in> U (snd w) i. e \<in> U (snd w') i \<or> delivered (sv_committed (fst w')) i e))"

lemma keeps_trans: "keeps U w1 w2 \<Longrightarrow> keeps U w2 w3 \<Longrightarrow> keeps U w1 w3"
  unfolding keeps_def using delivered_mono mailbox_le_trans by metis

lemma keeps_evo: "evo n s t \<Longrightarrow> (\<And>i. U k i \<subseteq> U k' i) \<Longrightarrow> keeps U (s, k) (t, k')"
  unfolding keeps_def using mailboxOrder.evo_le by fastforce

lemma keeps_refl: "keeps U w w"
  by (simp add: keeps_def)

lemma kernel_lawsD:
  assumes "kernel_laws K U"
  shows "U k j \<subseteq> U (snd (k_Open K i q k)) j" and "U k j \<subseteq> U (k_Close K i k) j" and "U k j \<subseteq> U (snd (k_Read K i k)) j"
    and "k_Read K i k = (Inr (Some e), k') \<Longrightarrow> e \<in> U k' i"
    and "e \<in> U k j \<Longrightarrow> \<not> (j = i \<and> ke_EventID e = n) \<Longrightarrow> e \<in> U (snd (k_Ack K i n k)) j"
    and "e \<in> U k i \<Longrightarrow> e' \<in> U k i \<Longrightarrow> ke_EventID e = ke_EventID e' \<Longrightarrow> e = e'"
proof -
  note c1 = assms [unfolded kernel_laws_def]
  note c2 = c1 [THEN conjunct2]
  note c3 = c2 [THEN conjunct2]
  note c4 = c3 [THEN conjunct2]
  note c5 = c4 [THEN conjunct2]
  show "U k j \<subseteq> U (snd (k_Open K i q k)) j" using c1 [THEN conjunct1] by blast
  show "U k j \<subseteq> U (k_Close K i k) j" using c2 [THEN conjunct1] by blast
  show "U k j \<subseteq> U (snd (k_Read K i k)) j" using c3 [THEN conjunct1] by blast
  show "k_Read K i k = (Inr (Some e), k') \<Longrightarrow> e \<in> U k' i" using c4 [THEN conjunct1] by blast
  show "e \<in> U k j \<Longrightarrow> \<not> (j = i \<and> ke_EventID e = n) \<Longrightarrow> e \<in> U (snd (k_Ack K i n k)) j"
    using c5 [THEN conjunct1] by blast
  show "e \<in> U k i \<Longrightarrow> e' \<in> U k i \<Longrightarrow> ke_EventID e = ke_EventID e' \<Longrightarrow> e = e'"
    using c5 [THEN conjunct2] by blast
qed

lemma keeps_drop: "kernel_laws K U \<Longrightarrow> evo n s t \<Longrightarrow> keeps U (s, k) (drop_handle K i (t, k))"
  unfolding drop_handle_def prod.case by (rule keeps_evo [OF evo_handles(1)]) (simp_all add: kernel_lawsD(2))

lemma keeps_ack:
  assumes "kernel_laws K U" and "event \<in> U k i" and "delivered (sv_committed s) i event"
  shows "keeps U (s, k) (s, snd (k_Ack K i (ke_EventID event) k))"
  unfolding keeps_def
proof (intro impI conjI allI ballI)
  fix j e assume e: "e \<in> U (snd (s, k)) j"
  show "e \<in> U (snd (s, snd (k_Ack K i (ke_EventID event) k))) j \<or> delivered (sv_committed (fst (s, snd (k_Ack K i (ke_EventID event) k)))) j e"
  proof (cases "j = i \<and> ke_EventID e = ke_EventID event")
    case True
    then have "e = event" using kernel_lawsD(6) [OF assms(1)] assms(2) e by auto
    then show ?thesis using assms(3) True by simp
  next
    case False
    then show ?thesis using kernel_lawsD(5) [OF assms(1)] e by simp
  qed
qed simp_all

lemma identify_boot: "\<exists>b. kernelMessageKey i (identifyKernelEventLocked i e boot s) = kernelMessageKey i (e\<lparr>ke_BootID := b\<rparr>)"
proof -
  have "kernelMessageKey i (identifyKernelEventLocked i e boot s)
      = kernelMessageKey i (e\<lparr>ke_BootID := ke_BootID (identifyKernelEventLocked i e boot s)\<rparr>)"
    by (auto simp: identifyKernelEventLocked_def kernelMessageKey_def Let_def split: option.splits)
  then show ?thesis by blast
qed

lemma keeps_deliver_event:
  assumes "kernel_laws K U" and "event \<in> U k i"
  shows "keeps U (s, k) (snd (deliver_event K now boot i event (s, k)))"
proof -
  let ?id = "identifyKernelEventLocked i event boot s"
  obtain r s1 where q: "enqueueLocked now ''supervisor'' i (kernelMessageKey i ?id) (kernelWakePayload i event) s = (r, s1)"
    by fastforce
  have 1: "evo 2 s s1" by (rule evo_enqueued [OF evo.start [of 0] _ q]) simp
  show ?thesis
  proof (cases r)
    case (Inl e)
    then show ?thesis
      using keeps_drop [OF assms(1) 1, of k i] keeps_drop [OF assms(1) evo.restore [OF 1], of k i]
      by (simp add: deliver_event_def q Let_def)
  next
    case (Inr m)
    define kept where
      "kept = filter (\<lambda>saved. ke_BootID saved \<noteq> ke_BootID ?id \<or> ke_EventID saved \<noteq> ke_EventID ?id) (kernel_pending s1 i)"
    note D = deliver_event_def [of K now boot i event "(s, k)", unfolded prod.case Let_def q Inr sum.case, folded kept_def]
    obtain e2 s2 where p: "persistLocked (put_pending i (kept @ [?id]) s1) = (e2, s2)" by fastforce
    have 2: "evo 2 s s2" by (rule evo_persisted [OF evo_pending [OF 1] p])
    show ?thesis
    proof (cases e2)
      case (Some e)
      then show ?thesis
        using keeps_drop [OF assms(1) evo.restore [OF 2], of k i]
        by (simp add: D p)
    next
      case None
      have "sv_committed s2 = durable (sv_state (put_pending i (kept @ [?id]) s1))"
        using p None by (cases "put_pending i (kept @ [?id]) s1" rule: persistLocked_cases) auto
      moreover have "m \<in> set (mailbox (sv_state s1) i)" "m_Payload m = compact False False (kernelWakePayload i event)"
          "m_IdempotencyKey m = kernelMessageKey i ?id"
        using enqueueLocked_Inr [OF q [unfolded Inr]] by simp_all
      moreover obtain b where "kernelMessageKey i ?id = kernelMessageKey i (event\<lparr>ke_BootID := b\<rparr>)"
        using identify_boot by blast
      ultimately have d: "delivered (sv_committed s2) i event"
        by (auto simp: delivered_def mailbox_def)
      obtain ra k1 where a: "k_Ack K i (ke_EventID event) k = (ra, k1)" by fastforce
      have acked: "keeps U (s, k) (s2, k1)"
        by (rule keeps_trans [OF keeps_evo [OF 2] keeps_ack [where K = K and i = i and event = event, THEN keeps_trans]])
          (use assms d a in \<open>auto intro: keeps_refl\<close>)
      show ?thesis
      proof (cases ra)
        case (Inl e)
        then show ?thesis
          using keeps_trans [OF acked keeps_drop [OF assms(1) evo.start [of 0 s2], of k1 i]]
          by (simp add: D p None a)
      next
        case (Inr v)
        obtain e3 s3 where p3: "persistLocked (set_pending i kept s2) = (e3, s3)" by fastforce
        have "keeps U (s2, k1) (s3, k1)"
          by (rule keeps_evo [OF evo_persisted [OF evo_set_pending [OF evo.start [of 0]] p3]]) simp
        then show ?thesis
          using keeps_trans [OF acked] Inr by (simp add: D p None a p3 split: option.splits)
      qed
    qed
  qed
qed

lemma keeps_drain_events:
  "kernel_laws K U \<Longrightarrow> drain_events K now boot i fuel (s, k) = Some (r, w) \<Longrightarrow> keeps U (s, k) w"
proof (induction fuel arbitrary: s k)
  case (Suc fuel)
  obtain rd k1 where rd: "k_Read K i k = (rd, k1)" by fastforce
  have k1: "keeps U (s, k) (s, k1)"
    by (rule keeps_evo [OF evo.start [of 0]]) (use kernel_lawsD(3) [OF Suc.prems(1), of k _ i] rd in simp)
  show ?case
  proof (cases "\<exists>event. rd = Inr (Some event)")
    case False
    then show ?thesis using Suc.prems(2) rd k1 by (auto split: sum.splits option.splits)
  next
    case True
    then obtain event where ev: "rd = Inr (Some event)" by blast
    then have "event \<in> U k1 i" using kernel_lawsD(4) [OF Suc.prems(1)] rd by blast
    from keeps_trans [OF k1 keeps_deliver_event [OF Suc.prems(1) this]]
    have 1: "keeps U (s, k) (snd (deliver_event K now boot i event (s, k1)))" .
    obtain r1 s1 k2 where d: "deliver_event K now boot i event (s, k1) = (r1, s1, k2)" by (metis prod_cases3)
    show ?thesis
    proof (cases "r1 = Inr True")
      case True
      then have "drain_events K now boot i fuel (s1, k2) = Some (r, w)" using Suc.prems(2) rd ev d by simp
      from keeps_trans [OF _ Suc.IH [OF Suc.prems(1) this]] 1 d show ?thesis by simp
    next
      case False
      then have "w = (s1, k2)" using Suc.prems(2) rd ev d by (auto split: sum.splits bool.splits)
      then show ?thesis using 1 d by simp
    qed
  qed
qed simp

lemma keeps_ensureHandle:
  assumes "kernel_laws K U"
  shows "keeps U (s, k) (snd (ensureKernelHandleLocked K i (s, k)))"
proof -
  obtain r t k' where e: "ensureKernelHandleLocked K i (s, k) = (r, t, k')" by (metis prod_cases3)
  have "U k j \<subseteq> U k' j" for j
    using e kernel_lawsD(1) [OF assms, of k j i]
    by (auto simp: ensureKernelHandleLocked_def split: if_splits option.splits prod.splits sum.splits)
      (metis snd_conv subsetD)+
  then show ?thesis
    using keeps_evo [of 0 s t U k k'] evo_ensureHandle [OF evo.start [of 0 s], of K i k] e by simp
qed

lemma keeps_drain_loop:
  "kernel_laws K U \<Longrightarrow> drain_loop K now boot fuel is (s, k) = Some (r, w) \<Longrightarrow> keeps U (s, k) w"
proof (induction "is" arbitrary: s k)
  case Nil
  then show ?case by (auto intro: keeps_refl)
next
  case (Cons i "is")
  show ?case
  proof (cases "case app s i of None \<Rightarrow> True | Some a \<Rightarrow> retired a \<or> a_KernelID a = 0")
    case True
    then show ?thesis using Cons by simp
  next
    case False
    let ?t = "markKernelRecoveryPendingLocked i s"
    obtain b t1 where p: "deliverPersistedKernelLocked now i ?t = (b, t1)" by fastforce
    have e1: "evo (2 * length (kernel_pending ?t i)) s t1"
      using evo_deliver_persisted [OF evo_mark [OF evo.start [of 0 s], of i], of "kernel_pending ?t i" _ now i] p
      by (simp add: deliverPersistedKernelLocked_def)
    have 1: "keeps U (s, k) (t1, k)" "keeps U (s, k) (markKernelRecoveryPendingLocked i t1, k)"
      by (rule keeps_evo [OF e1], simp, rule keeps_evo [OF evo_mark [OF e1]], simp)
    obtain r2 t2 k2 where h: "ensureKernelHandleLocked K i (t1, k) = (r2, t2, k2)" by (metis prod_cases3)
    have 2: "keeps U (s, k) (t2, k2)"
      using keeps_trans [OF 1(1) keeps_ensureHandle [OF Cons.prems(1), of t1 k i]] h by simp
    have 3: "keeps U (s, k) w3" if "drain_events K now boot i fuel (t2, k2) = Some (r3, w3)" for r3 w3
      using keeps_trans [OF 2 keeps_drain_events [OF Cons.prems(1) that]] .
    have go1: "keeps U (s, k) w" if "drain_loop K now boot fuel is (t1, k) = Some (r, w)"
      using keeps_trans [OF 1(1) Cons.IH [OF Cons.prems(1) that]] .
    have go3: "keeps U (s, k) w" if "drain_events K now boot i fuel (t2, k2) = Some (r3, s3, k3)"
        "drain_loop K now boot fuel is (s3, k3) = Some (r, w)" for r3 s3 k3
      using keeps_trans [OF 3 [OF that(1)] Cons.IH [OF Cons.prems(1) that(2)]] .
    show ?thesis
      using Cons.prems(2) False p h 1 2 3 go1 go3
      by (auto split: sum.splits prod.splits option.splits bool.splits)
  qed
qed


section \<open>The drain ends\<close>

text \<open>No event arrives during the pass and acknowledging a read event shortens the queue.\<close>

definition drain_measure :: "'k kernel \<Rightarrow> ('k \<Rightarrow> string \<Rightarrow> nat) \<Rightarrow> bool" where
  "drain_measure K R \<longleftrightarrow>
     (\<forall>k i j q. R (snd (k_Open K i q k)) j \<le> R k j) \<and> (\<forall>k i j. R (snd (k_Read K i k)) j \<le> R k j)
     \<and> (\<forall>k i j n. R (snd (k_Ack K i n k)) j \<le> R k j)
     \<and> (\<forall>k i e k' u k''. k_Read K i k = (Inr (Some e), k') \<longrightarrow> k_Ack K i (ke_EventID e) k' = (Inr u, k'') \<longrightarrow> R k'' i < R k i)"

lemma drain_measureD:
  assumes "drain_measure K R"
  shows "R (snd (k_Open K i q k)) j \<le> R k j" and "R (snd (k_Read K i k)) j \<le> R k j" and "R (snd (k_Ack K i n k)) j \<le> R k j"
    and "k_Read K i k = (Inr (Some e), k') \<Longrightarrow> k_Ack K i (ke_EventID e) k' = (Inr u, k'') \<Longrightarrow> R k'' i < R k i"
  using assms unfolding drain_measure_def by simp_all

lemma deliver_event_acks:
  assumes "deliver_event K now boot i event (s, k) = (Inr True, s', k')"
  shows "\<exists>u. k_Ack K i (ke_EventID event) k = (Inr u, k')"
  using assms by (auto simp: deliver_event_def Let_def drop_handle_def split: prod.splits sum.splits option.splits if_splits)

lemma drain_events_ends:
  assumes "drain_measure K R" and "R k i < fuel"
  shows "\<exists>r s' k'. drain_events K now boot i fuel (s, k) = Some (r, s', k') \<and> (r = Inr True \<longrightarrow> (\<forall>j. R k' j \<le> R k j))"
  using assms(2)
proof (induction fuel arbitrary: s k)
  case (Suc fuel)
  obtain rd k1 where rd: "k_Read K i k = (rd, k1)" by fastforce
  note read = drain_measureD(2) [OF assms(1), of i k, unfolded rd snd_conv]
  show ?case
  proof (cases "\<exists>event. rd = Inr (Some event)")
    case False
    then show ?thesis using rd read by (auto split: sum.splits option.splits)
  next
    case True
    then obtain event where ev: "rd = Inr (Some event)" by blast
    obtain r1 s1 k2 where d: "deliver_event K now boot i event (s, k1) = (r1, s1, k2)" by (metis prod_cases3)
    show ?thesis
    proof (cases "r1 = Inr True")
      case True
      then obtain u where a: "k_Ack K i (ke_EventID event) k1 = (Inr u, k2)" using deliver_event_acks d by metis
      have "R k2 i < R k i" using drain_measureD(4) [OF assms(1) rd [unfolded ev] a] .
      then obtain r s' k' where
          "drain_events K now boot i fuel (s1, k2) = Some (r, s', k')" "r = Inr True \<longrightarrow> (\<forall>j. R k' j \<le> R k2 j)"
        using Suc.IH [of k2 s1] Suc.prems by auto
      moreover have "R k2 j \<le> R k j" for j
        using drain_measureD(3) [OF assms(1), of i "ke_EventID event" k1 j] a read [of j] by simp
      ultimately show ?thesis using rd ev d True by (auto intro: order.trans)
    next
      case False
      then show ?thesis using rd ev d by (cases r1) (auto split: bool.splits)
    qed
  qed
qed simp

lemma drain_loop_ends:
  assumes "drain_measure K R"
  shows "\<forall>i. R k i < fuel \<Longrightarrow> \<exists>r w. drain_loop K now boot fuel is (s, k) = Some (r, w)"
proof (induction "is" arbitrary: s k)
  case (Cons i "is")
  obtain b t1 where p: "deliverPersistedKernelLocked now i (markKernelRecoveryPendingLocked i s) = (b, t1)" by fastforce
  obtain r2 t2 k2 where h: "ensureKernelHandleLocked K i (t1, k) = (r2, t2, k2)" by (metis prod_cases3)
  have o: "R k2 j \<le> R k j" for j
    using h drain_measureD(1) [OF assms, of i _ k j]
    by (auto simp: ensureKernelHandleLocked_def split: if_splits option.splits prod.splits sum.splits) (metis snd_conv)+
  then have "\<forall>j. R k2 j < fuel" using Cons.prems le_less_trans by blast
  then obtain r3 t3 k3 where d: "drain_events K now boot i fuel (t2, k2) = Some (r3, t3, k3)"
      "r3 = Inr True \<longrightarrow> (\<forall>j. R k3 j \<le> R k2 j)"
    using drain_events_ends [OF assms, of k2 i fuel now boot t2] by auto
  have go: "\<exists>r w. drain_loop K now boot fuel is (t3, k3) = Some (r, w)" if "r3 = Inr True"
    using Cons.IH [of k3 t3] d(2) that \<open>\<forall>j. R k2 j < fuel\<close> by (metis le_less_trans)
  show ?case
    using Cons.IH [OF Cons.prems] p h d(1) go
    by (auto split: sum.splits bool.splits)
qed simp

lemma deliverKernel_ends:
  assumes "drain_measure K R" and "\<forall>i. R k i < fuel"
  shows "\<exists>r w. deliverKernel K now fuel (s, k) = Some (r, w)"
  using drain_loop_ends [OF assms] by (auto simp: deliverKernel_def split: sum.splits)


text \<open>A kernel with one queue of at most one event, and the flag that the cursor is past it.\<close>

definition sample_kernel :: "(kernelevent option \<times> bool) kernel" where
  "sample_kernel =
     \<lparr>k_BootID = (\<lambda>_. Inr ''boot''), k_Open = (\<lambda>_ _ k. (Inr (), fst k, False)),
      k_Read = (\<lambda>i k. if snd k \<or> i \<noteq> ''a1'' then (Inr None, k) else (Inr (fst k), fst k, True)),
      k_Ack = (\<lambda>i n k. case fst k of Some e \<Rightarrow> if i = ''a1'' \<and> ke_EventID e = n then (Inr (), None, snd k) else (Inl EBUSY, k)
                        | None \<Rightarrow> (Inl EBUSY, k)),
      k_Snapshot = (\<lambda>_ k. (Inr (case fst k of Some e \<Rightarrow> [e] | None \<Rightarrow> []), k)),
      k_Restore = (\<lambda>_ es k. (Inl EBUSY, k)), k_Close = (\<lambda>_ k. k),
      k_OpenSource = (\<lambda>_ _ k. (Inr (), k)), k_Attach = (\<lambda>_ _ k. (Inr (), k)), k_Post = (\<lambda>_ _ k. (Inr (), k)),
      k_CloseSource = (\<lambda>_ k. k)\<rparr>"

definition sample_unacked :: "kernelevent option \<times> bool \<Rightarrow> string \<Rightarrow> kernelevent set" where
  "sample_unacked k i = (if i = ''a1'' then set_option (fst k) else {})"

definition sample_event :: kernelevent where
  "sample_event = \<lparr>ke_BootID = [], ke_QueueBootID = [], ke_RecoveryPending = False, ke_ApplicationID = 1,
     ke_EventID = 4, ke_EventSeq = 4, ke_Kind = 3, ke_Coalesced = 0, ke_Data = 9\<rparr>"


lemma sample_kernel_laws: "kernel_laws sample_kernel sample_unacked"
  by (auto simp: kernel_laws_def sample_kernel_def sample_unacked_def split: option.splits if_splits)

lemma sample_kernel_measure: "drain_measure sample_kernel (\<lambda>k i. if fst k = None then 0 else 1)"
  by (auto simp: drain_measure_def sample_kernel_def split: option.splits if_splits)



end
