(* ===== verification/Wake.thy ===== *)
theory Wake
  imports KernelWake
begin

text \<open>
  LSFS wake bindings (\<^verbatim>\<open>runtime/wake.go\<close>): bindings of an application to the artifact commits of a
  context, their scan cursors, and the delivery pass, which enqueues commits directly or, with a
  kernel attached, posts them to the kernel queue. The lemmas show that on the direct path a cursor
  passes an artifact commit only together with its message, in one write, and that on the kernel
  path a posted commit's cursor is not in the database when the pass ends.
\<close>

definition maxWakeBindings :: nat where "maxWakeBindings = 64"
definition wakeScanBatch :: int where "wakeScanBatch = 64"

section \<open>Bindings\<close>

definition binding_key :: "string \<Rightarrow> string \<Rightarrow> string" where
  "binding_key i bindingID = i @ '':'' @ bindingID"

definition AddLSFSBinding ::
  "int \<Rightarrow> string \<Rightarrow> string \<Rightarrow> string \<Rightarrow> string \<Rightarrow> int \<Rightarrow> supervisor \<Rightarrow> unit result \<times> supervisor" where
  "AddLSFSBinding now princ i bindingID ref after s =
     (case app s i of
        None \<Rightarrow> (Inl ErrApplicationNotFound, s)
      | Some a \<Rightarrow>
          if retired a then (Inl ErrApplicationRetired, s)
          else if bindingID = [] \<or> length bindingID > 128 \<or> after < 0 then (Inl (ErrMsg ''invalid LSFS binding''), s)
          else
            let ref1 = (if ref = [] then a_ContextID a else ref); key = binding_key i bindingID
            in if gget (s_Bindings (sv_state s)) key \<noteq> None then (Inl (ErrMsg ''binding already exists''), s)
               else if length (filter (\<lambda>(_, b). wb_ApplicationID b = i) (s_Bindings (sv_state s))) \<ge> maxWakeBindings
               then (Inl (ErrMsg ''wake binding limit reached''), s)
               else
                 (case ContextStore_Commits (sv_contexts s) (a_OwnerAgent a) ref1 after 1 of
                    (Inl e, ctxs) \<Rightarrow> (Inl e, s\<lparr>sv_contexts := ctxs\<rparr>)
                  | (Inr _, ctxs) \<Rightarrow>
                      persist_return ()
                        (auditLocked now princ i ''event_source.create'' bindingID ''allow'' ''lsfs artifact commits''
                          (on_state (s_Bindings_update (gput key
                             \<lparr>wb_BindingID = bindingID, wb_ApplicationID = i, wb_Kind = ''lsfs'', wb_Ref = ref1,
                              wb_Cursor = after, wb_Enabled = True\<rparr>)) (s\<lparr>sv_contexts := ctxs\<rparr>)))))"

definition SetLSFSBindingEnabled ::
  "int \<Rightarrow> string \<Rightarrow> string \<Rightarrow> string \<Rightarrow> bool \<Rightarrow> supervisor \<Rightarrow> unit result \<times> supervisor" where
  "SetLSFSBindingEnabled now princ i bindingID enabled s =
     (case app s i of
        None \<Rightarrow> (Inl ErrApplicationNotFound, s)
      | Some a \<Rightarrow>
          if retired a then (Inl ErrApplicationRetired, s)
          else
            let key = binding_key i bindingID
            in case gget (s_Bindings (sv_state s)) key of
                 None \<Rightarrow> (Inl (ErrMsg ''binding not found''), s)
               | Some b \<Rightarrow>
                   if wb_Enabled b = enabled then (Inr (), s)
                   else persist_return ()
                     (auditLocked now princ i (if enabled then ''event_source.bind'' else ''event_source.disable'')
                       bindingID ''allow'' []
                       (on_state (s_Bindings_update (gput key (b\<lparr>wb_Enabled := enabled\<rparr>))) s)))"

definition ListLSFSBindings :: "string \<Rightarrow> supervisor \<Rightarrow> wakebinding list result" where
  "ListLSFSBindings i s =
     (if app s i = None then Inl ErrApplicationNotFound
      else Inr (sort_key wb_BindingID
                  (filter (\<lambda>b. wb_ApplicationID b = i) (map snd (s_Bindings (sv_state s))))))"

definition ImportArtifact ::
  "int \<Rightarrow> string \<Rightarrow> string \<Rightarrow> string \<Rightarrow> string \<Rightarrow> supervisor \<Rightarrow> string result \<times> supervisor" where
  "ImportArtifact now princ i key payload s =
     (case app s i of
        None \<Rightarrow> (Inl ErrApplicationNotFound, s)
      | Some a \<Rightarrow>
          if retired a then (Inl ErrApplicationRetired, s)
          else if key = [] \<or> length key > 256 \<or> \<not> json_Valid payload \<or> length payload > maxTextBytes
          then (Inl (ErrMsg ''invalid artifact import''), s)
          else
            (case ContextStore_CommitArtifact (sv_contexts s) (a_OwnerAgent a) (a_ContextID a)
                    (''artifact.import:'' @ key) payload of
               (Inl e, ctxs) \<Rightarrow> (Inl e, s\<lparr>sv_contexts := ctxs\<rparr>)
             | (Inr handle, ctxs) \<Rightarrow>
                 persist_return handle
                   (auditLocked now princ i ''artifact.import'' handle ''allow'' [] (s\<lparr>sv_contexts := ctxs\<rparr>))))"

section \<open>The delivery pass\<close>

definition commit_json :: "lsfscommit \<Rightarrow> string" where
  "commit_json c = jobject
     [(''cursor'', dec_int (lc_Cursor c)), (''context_id'', quote (lc_ContextID c)), (''kind'', quote (lc_Kind c)),
      (''handle'', quote (lc_Handle c)), (''idempotency_key'', quote (lc_IdempotencyKey c))]"

definition wake_payload :: "string \<Rightarrow> lsfscommit \<Rightarrow> string" where
  "wake_payload bindingID c = jobject
     [(''source_kind'', quote ''lsfs''), (''binding_id'', quote bindingID), (''commit'', commit_json c),
      (''text'', quote (''LSFS artifact committed: context='' @ lc_ContextID c @ '' cursor='' @ dec_int (lc_Cursor c)
         @ '' handle='' @ lc_Handle c))]"

definition wake_key :: "string \<Rightarrow> lsfscommit \<Rightarrow> string" where
  "wake_key bindingID c = ''lsfs:'' @ bindingID @ '':'' @ dec_int (lc_Cursor c)"

text \<open>The commits of one binding. The loop stops at a full mailbox or kernel queue and returns the
  binding with its cursor, whether the state is to be written, and the error that ends the pass.\<close>

fun scan_commits ::
  "'k kernel option \<Rightarrow> int \<Rightarrow> wakebinding \<Rightarrow> lsfscommit list \<Rightarrow> bool \<Rightarrow> supervisor \<times> 'k
     \<Rightarrow> error option \<times> wakebinding \<times> bool \<times> supervisor \<times> 'k" where
  "scan_commits ko now b [] changed w = (None, b, changed, w)"
| "scan_commits ko now b (c # cs) changed (s, k) =
     (let b1 = b\<lparr>wb_Cursor := lc_Cursor c\<rparr>; i = wb_ApplicationID b
      in if lc_Kind c \<noteq> ''artifact'' then scan_commits ko now b1 cs True (s, k)
         else case ko of
           Some K \<Rightarrow>
             (case ensureKernelSourceLocked K i (s, k) of
                (Inl e, s1, k1) \<Rightarrow> (Some e, b, changed, restoreLocked s1, k1)
              | (Inr _, s1, k1) \<Rightarrow>
                  (case k_Post K i (word_of_int (lc_Cursor c)) k1 of
                     (Inl e, k2) \<Rightarrow>
                       if e = EAGAIN then (None, b, changed, s1, k2) else (Some e, b, changed, restoreLocked s1, k2)
                   | (Inr _, k2) \<Rightarrow>
                       (case persistLocked s1 of
                          (Some e, s2) \<Rightarrow> (Some e, b1, changed, restoreLocked s2, k2)
                        | (None, s2) \<Rightarrow> scan_commits ko now b1 cs changed (s2, k2))))
         | None \<Rightarrow>
             (case enqueueLocked now ''supervisor'' i (wake_key (wb_BindingID b) c) (wake_payload (wb_BindingID b) c) s of
                (Inl e, s1) \<Rightarrow>
                  if e = ErrMailboxFull then (None, b, changed, s1, k) else (Some e, b, changed, restoreLocked s1, k)
              | (Inr _, s1) \<Rightarrow> scan_commits ko now b1 cs True (s1, k)))"

abbreviation put_binding :: "string \<Rightarrow> wakebinding \<Rightarrow> supervisor \<Rightarrow> supervisor" where
  "put_binding key b s \<equiv> on_state (s_Bindings_update (gput key b)) s"

fun lsfs_loop ::
  "'k kernel option \<Rightarrow> int \<Rightarrow> string list \<Rightarrow> bool \<Rightarrow> supervisor \<times> 'k \<Rightarrow> error option \<times> bool \<times> supervisor \<times> 'k" where
  "lsfs_loop ko now [] changed w = (None, changed, w)"
| "lsfs_loop ko now (key # keys) changed (s, k) =
     (case gget (s_Bindings (sv_state s)) key of
        None \<Rightarrow> lsfs_loop ko now keys changed (s, k)
      | Some b \<Rightarrow>
          if \<not> wb_Enabled b then lsfs_loop ko now keys changed (s, k)
          else
            (case app s (wb_ApplicationID b) of
               None \<Rightarrow> lsfs_loop ko now keys True (put_binding key (b\<lparr>wb_Enabled := False\<rparr>) s, k)
             | Some a \<Rightarrow>
                 if retired a then lsfs_loop ko now keys True (put_binding key (b\<lparr>wb_Enabled := False\<rparr>) s, k)
                 else
                   (case ContextStore_Commits (sv_contexts s) (a_OwnerAgent a) (wb_Ref b) (wb_Cursor b) wakeScanBatch of
                      (Inl e, ctxs) \<Rightarrow> (Some e, changed, restoreLocked (s\<lparr>sv_contexts := ctxs\<rparr>), k)
                    | (Inr cs, ctxs) \<Rightarrow>
                        (case scan_commits ko now b cs changed (s\<lparr>sv_contexts := ctxs\<rparr>, k) of
                           (Some e, _, changed1, w1) \<Rightarrow> (Some e, changed1, w1)
                         | (None, b1, changed1, s1, k1) \<Rightarrow>
                             lsfs_loop ko now keys changed1 (put_binding key b1 s1, k1)))))"

definition deliverLSFS :: "'k kernel option \<Rightarrow> int \<Rightarrow> supervisor \<times> 'k \<Rightarrow> unit result \<times> supervisor \<times> 'k" where
  "deliverLSFS ko now w =
     (case lsfs_loop ko now (sort (map fst (s_Bindings (sv_state (fst w))))) False w of
        (Some e, _, w1) \<Rightarrow> (Inl e, w1)
      | (None, changed, s1, k1) \<Rightarrow>
          if changed then (case persist_return () s1 of (r, s2) \<Rightarrow> (r, s2, k1)) else (Inr (), s1, k1))"

section \<open>The operations as moves\<close>

lemma evo_ctx: "evo n s t \<Longrightarrow> evo n s (t\<lparr>sv_contexts := ctxs\<rparr>)"
  by (erule evo.change; simp)

lemma quiet_binding:
  "(\<And>b. gget (s_Bindings st) key = Some b \<Longrightarrow> binding_le b c) \<Longrightarrow> quiet_le st (s_Bindings_update (gput key c) st)"
  by (rule quiet_bindings) (simp add: gmap_le_gput)

lemma evo_put_binding:
  "evo n s t \<Longrightarrow> (\<And>b. gget (s_Bindings (sv_state t)) key = Some b \<Longrightarrow> binding_le b c) \<Longrightarrow> evo n s (put_binding key c t)"
  by (rule evo_state) (simp_all add: quiet_binding)

lemma evo_AddLSFSBinding [audited]: "evo 1 s (snd (AddLSFSBinding now princ i bindingID ref after s))"
proof -
  have e: "evo 0 s (s\<lparr>sv_contexts := ctxs, sv_state := s_Bindings_update (gput key b) (sv_state s)\<rparr>)"
    if "gget (s_Bindings (sv_state s)) key = None" for key b ctxs
    using evo_put_binding [OF evo_ctx [OF evo.start [of 0 s], of ctxs], of key b] that by simp
  show ?thesis
    by (auto simp: AddLSFSBinding_def Let_def evo.start intro: evo_contexts split: option.splits prod.splits sum.splits
        intro!: evo_return evo_auditI e)
qed

lemma evo_SetLSFSBindingEnabled [audited]: "evo 1 s (snd (SetLSFSBindingEnabled now princ i bindingID enabled s))"
  by (auto simp: SetLSFSBindingEnabled_def Let_def evo.start binding_le_def split: option.splits
      intro!: evo_return evo_auditI evo_put_binding [OF evo.start])

lemma evo_ImportArtifact [audited]: "evo 1 s (snd (ImportArtifact now princ i key payload s))"
  by (auto simp: ImportArtifact_def evo.start split: option.splits prod.splits sum.splits
      intro: evo_contexts intro!: evo_return evo_auditI)

section \<open>The pass\<close>

text \<open>Commits come in the order of their cursors, all beyond the binding's.\<close>

definition cursors_from :: "int \<Rightarrow> lsfscommit list \<Rightarrow> bool" where
  "cursors_from c cs \<longleftrightarrow> sorted (map lc_Cursor cs) \<and> (\<forall>x \<in> set cs. c < lc_Cursor x)"

lemma commits_from:
  assumes "ContextStore_Commits st owner cid after limit = (Inr cs, st')"
  shows "cursors_from after cs"
proof -
  have cs: "cs = take (nat limit) (sort_key lc_Cursor (filter (\<lambda>c. lc_ContextID c = cid \<and> lc_Cursor c > after) (db_commits st')))"
    using assms by (auto simp: ContextStore_Commits_def split: if_splits prod.splits option.splits)
  have "sorted (map lc_Cursor cs)" unfolding cs take_map [symmetric] by (rule sorted_wrt_take) (rule sorted_sort_key)
  moreover have "after < lc_Cursor x" if "x \<in> set cs" for x
    using that unfolding cs by (auto dest: in_set_takeD)
  ultimately show ?thesis by (simp add: cursors_from_def)
qed

lemma cursors_from_Cons:
  "cursors_from c (x # xs) \<Longrightarrow> c < lc_Cursor x \<and> sorted (map lc_Cursor xs) \<and> (\<forall>y \<in> set xs. lc_Cursor x \<le> lc_Cursor y)"
  by (auto simp: cursors_from_def)

lemma ensureHandle_frame:
  "sv_state (fst (snd (ensureKernelHandleLocked K i (s, k)))) = sv_state s"
  "sv_contexts (fst (snd (ensureKernelHandleLocked K i (s, k)))) = sv_contexts s"
  "sv_committed (fst (snd (ensureKernelHandleLocked K i (s, k)))) = sv_committed s"
  by (simp_all add: ensureKernelHandleLocked_def split: option.split prod.split sum.split)

lemma ensureSource_frame:
  assumes "ensureKernelSourceLocked K i (s, k) = (r, u, k')"
  shows "sv_state u = sv_state s" and "sv_contexts u = sv_contexts s" and "sv_committed u = sv_committed s"
proof -
  obtain r1 s1 k1 where h: "ensureKernelHandleLocked K i (s, k) = (r1, s1, k1)" by (metis prod_cases3)
  have f: "sv_state s1 = sv_state s" "sv_contexts s1 = sv_contexts s" "sv_committed s1 = sv_committed s"
    using ensureHandle_frame [of K i s k] h by simp_all
  show "sv_state u = sv_state s" "sv_contexts u = sv_contexts s" "sv_committed u = sv_committed s"
    using assms f by (auto simp: ensureKernelSourceLocked_def h split: if_splits sum.splits prod.splits option.splits)
qed

lemma persist_ok: "persistLocked s = (None, u) \<Longrightarrow> sv_state u = sv_state s \<and> sv_committed u = durable (sv_state s) \<and> sv_contexts u = sv_contexts s"
  by (cases s rule: persistLocked_cases) auto

lemma enqueue_bindings:
  "enqueueLocked now princ i key payload s = (r, u) \<Longrightarrow> s_Bindings (sv_state u) = s_Bindings (sv_state s) \<and> sv_contexts u = sv_contexts s"
  by (auto simp: enqueueLocked_def Let_def auditLocked_def stage_message_def split: option.splits if_splits)

text \<open>What a scan of one binding does, whatever the path: moves; and unless it ends with an error, the
  bindings are as before and the cursor has only advanced.\<close>

lemma scan_commits_moves:
  assumes "evo n s t" and "n + 2 * length cs \<le> m" and "sorted (map lc_Cursor cs)" and "\<forall>c \<in> set cs. wb_Cursor b \<le> lc_Cursor c"
    and "scan_commits ko now b cs changed (t, k) = (e, b', changed', t', k')"
  shows "evo m s t' \<and> (e = None \<longrightarrow> s_Bindings (sv_state t') = s_Bindings (sv_state t) \<and> binding_le b b')"
  using assms
proof (induction cs arbitrary: n t k b changed)
  case Nil
  then show ?case by (auto intro: evo_mono)
next
  case (Cons c cs)
  let ?b = "b\<lparr>wb_Cursor := lc_Cursor c\<rparr>" and ?i = "wb_ApplicationID b"
  have bl: "binding_le b ?b" "\<And>b'. binding_le ?b b' \<Longrightarrow> binding_le b b'"
    using Cons.prems(4) by (auto simp: binding_le_def)
  have tm: "evo m s t" using evo_mono [OF Cons.prems(1)] Cons.prems(2) by simp
  have rest: "sorted (map lc_Cursor cs)" "\<forall>x \<in> set cs. wb_Cursor ?b \<le> lc_Cursor x" using Cons.prems(3) by auto
  have IH: "evo m s t' \<and> (e = None \<longrightarrow> s_Bindings (sv_state t') = s_Bindings (sv_state u) \<and> binding_le b b')"
    if "evo (n + 2) s u" "scan_commits ko now ?b cs ch (u, k2) = (e, b', changed', t', k')" for u k2 ch
    using Cons.IH [OF that(1) _ rest that(2)] Cons.prems(2) bl(2) by auto
  have up: "evo (n + 2) s t" using evo_mono [OF Cons.prems(1)] by simp
  show ?case
  proof (cases "lc_Kind c = ''artifact''")
    case False
    then have "scan_commits ko now ?b cs True (t, k) = (e, b', changed', t', k')" using Cons.prems(5) by (simp add: Let_def)
    from IH [OF up this] show ?thesis .
  next
    case art: True
    show ?thesis
    proof (cases ko)
      case None
      obtain r u where q: "enqueueLocked now ''supervisor'' ?i (wake_key (wb_BindingID b) c) (wake_payload (wb_BindingID b) c) t = (r, u)"
        by fastforce
      have u2: "evo (n + 2) s u" by (rule evo_enqueued [OF Cons.prems(1) _ q]) simp
      then have um: "evo m s u" using evo_mono Cons.prems(2) by simp
      show ?thesis
      proof (cases r)
        case (Inl er)
        then show ?thesis
          using Cons.prems(5) art None q um evo.restore [OF um] enqueue_bindings [OF q]
          by (auto simp: Let_def split: if_splits)
      next
        case (Inr x)
        then have "scan_commits ko now ?b cs True (u, k) = (e, b', changed', t', k')"
          using Cons.prems(5) art None q by (simp add: Let_def)
        from IH [OF u2 this] enqueue_bindings [OF q] show ?thesis by simp
      qed
    next
      case (Some K)
      obtain r u k1 where h: "ensureKernelSourceLocked K ?i (t, k) = (r, u, k1)" by (metis prod_cases3)
      have u2: "evo (n + 2) s u" using evo_ensureSource [OF up, of K ?i k] h by simp
      then have um: "evo m s u" using evo_mono Cons.prems(2) by simp
      obtain rp k2 where po: "k_Post K ?i (word_of_int (lc_Cursor c)) k1 = (rp, k2)" by fastforce
      obtain ep v where pe: "persistLocked u = (ep, v)" by fastforce
      have v2: "evo (n + 2) s v" using evo_persisted [OF u2 pe] .
      then have vm: "evo m s v" using evo_mono Cons.prems(2) by simp
      show ?thesis
      proof (cases "(\<exists>x. r = Inr x) \<and> (\<exists>x. rp = Inr x) \<and> ep = None")
        case False
        then show ?thesis
          using Cons.prems(5) art Some h po pe um vm evo.restore [OF um] evo.restore [OF vm] ensureSource_frame [OF h]
          by (auto simp: Let_def split: sum.splits option.splits if_splits)
      next
        case True
        then have "scan_commits ko now ?b cs changed (v, k2) = (e, b', changed', t', k')"
          using Cons.prems(5) art Some h po pe by (auto simp: Let_def)
        from IH [OF v2 this] ensureSource_frame [OF h] persist_ok [of u v] pe True show ?thesis by simp
      qed
    qed
  qed
qed

lemma commits_batch:
  assumes "ContextStore_Commits st owner cid after limit = (Inr cs, st')"
  shows "length cs \<le> nat limit" and "db_commits st' = db_commits st"
    and "cs = take (nat limit) (sort_key lc_Cursor (filter (\<lambda>c. lc_ContextID c = cid \<and> lc_Cursor c > after) (db_commits st)))"
  using assms by (auto simp: ContextStore_Commits_def begin_tx_def split: if_splits prod.splits option.splits list.splits)

lemma evo_lsfs_loop:
  "evo n s t \<Longrightarrow> n + 128 * length keys \<le> m \<Longrightarrow> evo m s (fst (snd (snd (lsfs_loop ko now keys changed (t, k)))))"
proof (induction keys arbitrary: n t k changed)
  case Nil
  then show ?case by (auto intro: evo_mono)
next
  case (Cons key keys)
  have up: "evo (n + 128) s t" using evo_mono [OF Cons.prems(1)] by simp
  have IH: "evo m s (fst (snd (snd (lsfs_loop ko now keys ch (u, k2)))))" if "evo (n + 128) s u" for u k2 ch
    using Cons.IH [OF that] Cons.prems(2) by simp
  have om: "evo (n + 128) s u \<Longrightarrow> evo m s u" for u using evo_mono Cons.prems(2) by simp
  show ?case
  proof (cases "gget (s_Bindings (sv_state t)) key")
    case None
    then show ?thesis using IH [OF up] by simp
  next
    case (Some b)
    have off: "evo (n + 128) s (put_binding key (b\<lparr>wb_Enabled := False\<rparr>) t)"
      by (rule evo_put_binding [OF up]) (simp add: Some binding_le_def)
    show ?thesis
    proof (cases "wb_Enabled b \<and> (\<exists>a. app t (wb_ApplicationID b) = Some a \<and> \<not> retired a)")
      case False
      then show ?thesis using IH [OF up] IH [OF off] Some by (auto split: option.splits)
    next
      case True
      then obtain a where a: "wb_Enabled b" "app t (wb_ApplicationID b) = Some a" "\<not> retired a" by blast
      obtain r ctxs where c: "ContextStore_Commits (sv_contexts t) (a_OwnerAgent a) (wb_Ref b) (wb_Cursor b) wakeScanBatch = (r, ctxs)"
        by fastforce
      show ?thesis
      proof (cases r)
        case (Inl e)
        then show ?thesis using Some a c om [OF evo.restore [OF evo_ctx [OF up]]] by simp
      next
        case (Inr cs)
        have cs: "length cs \<le> 64" "sorted (map lc_Cursor cs)" "\<forall>x \<in> set cs. wb_Cursor b \<le> lc_Cursor x"
          using commits_batch(1) [OF c [unfolded Inr]] commits_from [OF c [unfolded Inr]]
          by (auto simp: wakeScanBatch_def cursors_from_def)
        obtain e b1 ch1 t1 k1 where sc: "scan_commits ko now b cs changed (t\<lparr>sv_contexts := ctxs\<rparr>, k) = (e, b1, ch1, t1, k1)"
          by (metis prod_cases5)
        have mv: "evo (n + 128) s t1 \<and> (e = None \<longrightarrow> s_Bindings (sv_state t1) = s_Bindings (sv_state t) \<and> binding_le b b1)"
          using scan_commits_moves [OF evo_ctx [OF Cons.prems(1)] _ cs(2,3) sc, of "n + 128"] cs(1) by simp
        have "evo (n + 128) s (put_binding key b1 t1)" if "e = None"
          by (rule evo_put_binding) (use mv that Some in auto)
        then show ?thesis
          using Some a c Inr sc mv IH om by (auto split: option.splits)
      qed
    qed
  qed
qed

lemma evo_deliverLSFS [audited]:
  "evo (128 * length (s_Bindings (sv_state s))) s (fst (snd (deliverLSFS ko now (s, k))))"
proof -
  obtain e ch t k1 where l: "lsfs_loop ko now (sort (map fst (s_Bindings (sv_state s)))) False (s, k) = (e, ch, t, k1)"
    by (metis prod_cases4)
  have "evo (128 * length (s_Bindings (sv_state s))) s t"
    using evo_lsfs_loop [OF evo.start [of 0 s], of "sort (map fst (s_Bindings (sv_state s)))" _ ko now False k] l by simp
  then show ?thesis
    using l evo_return [of _ s t "()"] by (auto simp: deliverLSFS_def split: option.splits prod.splits)
qed

section \<open>The direct path delivers every commit the cursor passes\<close>

definition woken :: "supervisorState \<Rightarrow> wakebinding \<Rightarrow> lsfscommit \<Rightarrow> bool" where
  "woken st b c \<longleftrightarrow>
     (\<exists>m \<in> set (mailbox st (wb_ApplicationID b)). m_IdempotencyKey m = wake_key (wb_BindingID b) c
        \<and> m_Payload m = compact False False (wake_payload (wb_BindingID b) c))"

lemma woken_mono: "mailbox_le st st' \<Longrightarrow> woken st b c \<Longrightarrow> woken st' b c"
  unfolding woken_def using message_kept by metis

lemma woken_cong: "binding_le b b' \<Longrightarrow> woken st b' c = woken st b c"
  by (simp add: woken_def binding_le_def)

lemma enqueue_kept:
  assumes "enqueueLocked now princ i key payload s = (r, u)"
  shows "mailbox_le (sv_state s) (sv_state u)" and "sv_committed u = sv_committed s"
proof -
  have "mailbox_le (sv_state s) (sv_state u) \<and> sv_committed u = sv_committed s"
  proof (cases now princ i key payload s rule: enqueueLocked_cases)
    case same
    then show ?thesis using assms by simp
  next
    case (staged a encoded)
    have "mailbox_le (sv_state s) (sv_state (on_state (stage_message now i key encoded) s))"
      using mailboxOrder.le_stage by simp
    from mailbox_le_trans [OF this mailboxOrder.le_auditLocked] show ?thesis using assms staged(7) by simp
  qed
  then show "mailbox_le (sv_state s) (sv_state u)" "sv_committed u = sv_committed s" by auto
qed

lemma scan_direct:
  assumes "scan_commits None now b cs changed (t, k) = (e, b', ch', t', k')"
    and "sorted_wrt (\<lambda>x y. lc_Cursor x < lc_Cursor y) cs" and "\<forall>x \<in> set cs. wb_Cursor b < lc_Cursor x"
  shows "sv_committed t' = sv_committed t \<and> (e = None \<longrightarrow>
     mailbox_le (sv_state t) (sv_state t') \<and> sv_contexts t' = sv_contexts t \<and> binding_le b b'
     \<and> (wb_Cursor b' = wb_Cursor b \<or> wb_Cursor b' \<in> lc_Cursor ` set cs)
     \<and> (\<forall>c \<in> set cs. lc_Kind c = ''artifact'' \<longrightarrow> lc_Cursor c \<le> wb_Cursor b' \<longrightarrow> woken (sv_state t') b c))"
  using assms
proof (induction cs arbitrary: t b changed)
  case (Cons c cs)
  let ?b = "b\<lparr>wb_Cursor := lc_Cursor c\<rparr>" and ?i = "wb_ApplicationID b"
  have bl: "binding_le b ?b" using Cons.prems(3) by (simp add: binding_le_def)
  have IH: "sv_committed t' = sv_committed u \<and> (e = None \<longrightarrow>
     mailbox_le (sv_state u) (sv_state t') \<and> sv_contexts t' = sv_contexts u \<and> binding_le b b' \<and> lc_Cursor c \<le> wb_Cursor b'
     \<and> (wb_Cursor b' = lc_Cursor c \<or> wb_Cursor b' \<in> lc_Cursor ` set cs)
     \<and> (\<forall>c \<in> set cs. lc_Kind c = ''artifact'' \<longrightarrow> lc_Cursor c \<le> wb_Cursor b' \<longrightarrow> woken (sv_state t') b c))"
    if "scan_commits None now ?b cs chg (u, k) = (e, b', ch', t', k')" for u chg
    using Cons.IH [OF that] Cons.prems(2,3) woken_cong [OF bl]
    by (auto simp: binding_le_def)
  show ?case
  proof (cases "lc_Kind c = ''artifact''")
    case False
    then have "scan_commits None now ?b cs True (t, k) = (e, b', ch', t', k')" using Cons.prems(1) by (simp add: Let_def)
    from IH [OF this] False show ?thesis by auto
  next
    case art: True
    obtain r u where q: "enqueueLocked now ''supervisor'' ?i (wake_key (wb_BindingID b) c) (wake_payload (wb_BindingID b) c) t = (r, u)"
      by fastforce
    note k1 = enqueue_kept [OF q] enqueue_bindings [OF q]
    show ?thesis
    proof (cases r)
      case (Inl er)
      then show ?thesis
        using Cons.prems art q k1 by (auto simp: Let_def restoreLocked_def split: if_splits)
    next
      case (Inr m)
      then have "scan_commits None now ?b cs True (u, k) = (e, b', ch', t', k')"
        using Cons.prems(1) art q by (simp add: Let_def)
      note h = IH [OF this]
      have "woken (sv_state u) b c"
        using enqueueLocked_Inr [OF q [unfolded Inr]] by (auto simp: woken_def)
      with h k1 show ?thesis
        by (auto intro: mailbox_le_trans woken_mono)
    qed
  qed
qed (simp add: binding_le_def)

lemma batch_strict:
  assumes "distinct (map lc_Cursor cs)" and "sorted (map lc_Cursor cs)"
  shows "sorted_wrt (\<lambda>x y. lc_Cursor x < lc_Cursor y) cs"
  using assms by (induction cs) (fastforce simp: less_le)+

text \<open>A batch is an initial part of the commits beyond the cursor.\<close>

lemma batch_prefix:
  assumes "cs = take n (sort_key lc_Cursor (filter P xs))" and "distinct (map lc_Cursor xs)"
  shows "sorted_wrt (\<lambda>x y. lc_Cursor x < lc_Cursor y) cs" and "set cs \<subseteq> {x \<in> set xs. P x}"
    and "c \<in> set xs \<Longrightarrow> P c \<Longrightarrow> x \<in> set cs \<Longrightarrow> lc_Cursor c \<le> lc_Cursor x \<Longrightarrow> c \<in> set cs"
proof -
  let ?L = "sort_key lc_Cursor (filter P xs)"
  have d: "distinct (map lc_Cursor ?L)"
  proof -
    have "inj_on lc_Cursor (set xs)" "distinct xs" using assms(2) by (simp_all add: distinct_map)
    then have "inj_on lc_Cursor (set ?L)" "distinct ?L" by (auto intro: inj_on_subset)
    then show ?thesis by (simp add: distinct_map)
  qed
  have s: "sorted_wrt (\<lambda>x y. lc_Cursor x < lc_Cursor y) ?L" by (rule batch_strict [OF d sorted_sort_key])
  then show "sorted_wrt (\<lambda>x y. lc_Cursor x < lc_Cursor y) cs" unfolding assms(1) by (rule sorted_wrt_take)
  show "set cs \<subseteq> {x \<in> set xs. P x}" unfolding assms(1) by (auto dest: in_set_takeD)
  assume "c \<in> set xs" "P c" "x \<in> set cs" "lc_Cursor c \<le> lc_Cursor x"
  show "c \<in> set cs"
  proof (rule ccontr)
    assume "c \<notin> set cs"
    moreover have "c \<in> set ?L" using \<open>c \<in> set xs\<close> \<open>P c\<close> by simp
    ultimately have "c \<in> set (drop n ?L)" unfolding assms(1) by (metis append_take_drop_id Un_iff set_append)
    moreover have "sorted_wrt (\<lambda>x y. lc_Cursor x < lc_Cursor y) (cs @ drop n ?L)"
      using s unfolding assms(1) by (simp only: append_take_drop_id)
    ultimately show False using \<open>x \<in> set cs\<close> \<open>lc_Cursor c \<le> lc_Cursor x\<close> by (fastforce simp: sorted_wrt_append)
  qed
qed

definition passed :: "lsfscommit list \<Rightarrow> wakebinding \<Rightarrow> wakebinding \<Rightarrow> supervisorState \<Rightarrow> bool" where
  "passed commits b b' st \<longleftrightarrow>
     (\<forall>c \<in> set commits. lc_ContextID c = wb_Ref b \<longrightarrow> lc_Kind c = ''artifact'' \<longrightarrow>
        wb_Cursor b < lc_Cursor c \<longrightarrow> lc_Cursor c \<le> wb_Cursor b' \<longrightarrow> woken st b c)"

lemma passed_same: "wb_Cursor b' \<le> wb_Cursor b \<Longrightarrow> passed commits b b' st"
  by (auto simp: passed_def)

lemma passed_trans:
  assumes "passed commits b b1 st1" and "passed commits b1 b' st" and "mailbox_le st1 st" and "binding_le b b1"
  shows "passed commits b b' st"
  unfolding passed_def
proof (intro ballI impI)
  fix c assume c: "c \<in> set commits" "lc_ContextID c = wb_Ref b" "lc_Kind c = ''artifact''"
    "wb_Cursor b < lc_Cursor c" "lc_Cursor c \<le> wb_Cursor b'"
  show "woken st b c"
  proof (cases "lc_Cursor c \<le> wb_Cursor b1")
    case True
    then have "woken st1 b c" using assms(1) c unfolding passed_def by blast
    then show ?thesis by (rule woken_mono [OF assms(3)])
  next
    case False
    moreover have "wb_Ref b1 = wb_Ref b" using assms(4) by (simp add: binding_le_def)
    ultimately have "woken st b1 c" using assms(2) c unfolding passed_def by simp
    then show ?thesis using woken_cong [OF assms(4)] by simp
  qed
qed

definition loop_ok :: "lsfscommit list \<Rightarrow> supervisor \<Rightarrow> supervisor \<Rightarrow> bool" where
  "loop_ok commits s t \<longleftrightarrow>
     sv_committed t = sv_committed s \<and> mailbox_le (sv_state s) (sv_state t) \<and> db_commits (sv_contexts t) = db_commits (sv_contexts s)
     \<and> (\<forall>key b. gget (s_Bindings (sv_state s)) key = Some b \<longrightarrow>
          (\<exists>b'. gget (s_Bindings (sv_state t)) key = Some b' \<and> binding_le b b' \<and> passed commits b b' (sv_state t)))"

lemma loop_ok_refl: "loop_ok commits s s"
  by (simp add: loop_ok_def passed_same)

lemma loop_ok_trans:
  assumes "loop_ok commits s t" and "loop_ok commits t u"
  shows "loop_ok commits s u"
proof -
  have "\<exists>b'. gget (s_Bindings (sv_state u)) key = Some b' \<and> binding_le b b' \<and> passed commits b b' (sv_state u)"
    if "gget (s_Bindings (sv_state s)) key = Some b" for key b
  proof -
    from assms(1) that obtain b1 where 1: "gget (s_Bindings (sv_state t)) key = Some b1" "binding_le b b1" "passed commits b b1 (sv_state t)"
      unfolding loop_ok_def by blast
    from assms(2) 1(1) obtain b' where 2: "gget (s_Bindings (sv_state u)) key = Some b'" "binding_le b1 b'" "passed commits b1 b' (sv_state u)"
      unfolding loop_ok_def by blast
    have "mailbox_le (sv_state t) (sv_state u)" using assms(2) by (simp add: loop_ok_def)
    from passed_trans [OF 1(3) 2(3) this 1(2)] 1(2) 2(1,2) show ?thesis
      by (auto simp: binding_le_def)
  qed
  then show ?thesis using assms unfolding loop_ok_def by (auto intro: mailbox_le_trans)
qed

lemma loop_ok_put:
  assumes "sv_committed t = sv_committed s" and "mailbox_le (sv_state s) (sv_state t)"
    and "db_commits (sv_contexts t) = db_commits (sv_contexts s)" and "s_Bindings (sv_state t) = s_Bindings (sv_state s)"
    and "gget (s_Bindings (sv_state s)) key = Some b" and "binding_le b b'" and "passed commits b b' (sv_state t)"
  shows "loop_ok commits s (put_binding key b' t)"
  using assms unfolding loop_ok_def
  by (auto simp: passed_same mailbox_le_def mailbox_def passed_def woken_def)

lemma scan_direct_kernel: "scan_commits None now b cs changed (t, k) = (e, b', ch', t', k') \<Longrightarrow> k' = k"
  by (induction cs arbitrary: t b changed)
    (auto simp: Let_def split: if_splits sum.splits prod.splits)

lemma lsfs_loop_direct:
  assumes "distinct (map lc_Cursor (db_commits (sv_contexts s)))"
    and "lsfs_loop None now keys changed (s, k) = (e, ch, t, k')"
  shows "if e = None then loop_ok (db_commits (sv_contexts s)) s t else sv_committed t = sv_committed s"
  using assms
proof (induction keys arbitrary: s changed)
  case Nil
  then show ?case by (auto intro: loop_ok_refl)
next
  case (Cons key keys)
  let ?X = "db_commits (sv_contexts s)"
  have IH: ?case if "loop_ok ?X s u" "lsfs_loop None now keys chg (u, k) = (e, ch, t, k')" for u chg
  proof -
    have "db_commits (sv_contexts u) = ?X" "sv_committed u = sv_committed s" using that(1) by (simp_all add: loop_ok_def)
    with Cons.IH [of u chg] Cons.prems(1) that(2) loop_ok_trans [OF that(1)] show ?thesis by (cases e) simp_all
  qed
  show ?case
  proof (cases "gget (s_Bindings (sv_state s)) key")
    case None
    then show ?thesis using Cons.prems(2) by (intro IH [OF loop_ok_refl, of changed]) simp
  next
    case (Some b)
    have off: "loop_ok ?X s (put_binding key (b\<lparr>wb_Enabled := False\<rparr>) s)"
      by (rule loop_ok_put [OF _ _ _ _ Some]) (simp_all add: binding_le_def passed_same)
    show ?thesis
    proof (cases "wb_Enabled b \<and> (\<exists>a. app s (wb_ApplicationID b) = Some a \<and> \<not> retired a)")
      case False
      then have "lsfs_loop None now keys changed (s, k) = (e, ch, t, k')
          \<or> lsfs_loop None now keys True (put_binding key (b\<lparr>wb_Enabled := False\<rparr>) s, k) = (e, ch, t, k')"
        using Some Cons.prems(2) by (auto split: option.splits if_splits)
      then show ?thesis using IH [OF loop_ok_refl] IH [OF off] by blast
    next
      case True
      then obtain a where a: "wb_Enabled b" "app s (wb_ApplicationID b) = Some a" "\<not> retired a" by blast
      obtain r ctxs where c: "ContextStore_Commits (sv_contexts s) (a_OwnerAgent a) (wb_Ref b) (wb_Cursor b) wakeScanBatch = (r, ctxs)"
        by fastforce
      show ?thesis
      proof (cases r)
        case (Inl er)
        then show ?thesis using Some a c Cons.prems(2) by (auto simp: restoreLocked_def)
      next
        case (Inr cs)
        note cb = commits_batch [OF c [unfolded Inr]]
        note bp = batch_prefix [OF cb(3) Cons.prems(1)]
        obtain e1 b1 ch1 t1 k1 where sc: "scan_commits None now b cs changed (s\<lparr>sv_contexts := ctxs\<rparr>, k) = (e1, b1, ch1, t1, k1)"
          by (metis prod_cases5)
        have kk: "k1 = k" using sc by (rule scan_direct_kernel)
        have lt: "\<forall>x \<in> set cs. wb_Cursor b < lc_Cursor x" using bp(2) by auto
        note sd = scan_direct [OF sc bp(1) lt]
        show ?thesis
        proof (cases e1)
          case (Some er)
          then show ?thesis using \<open>gget _ key = Some b\<close> a c Inr sc sd Cons.prems(2) by auto
        next
          case None
          have pass: "passed ?X b b1 (sv_state t1)"
            unfolding passed_def
          proof (intro ballI impI)
            fix x assume x: "x \<in> set ?X" "lc_ContextID x = wb_Ref b" "lc_Kind x = ''artifact''"
              "wb_Cursor b < lc_Cursor x" "lc_Cursor x \<le> wb_Cursor b1"
            then obtain y where "y \<in> set cs" "lc_Cursor y = wb_Cursor b1" using sd None by auto
            then have "x \<in> set cs" using bp(3) [of x y] x by simp
            then show "woken (sv_state t1) b x" using sd None x by auto
          qed
          have bs: "s_Bindings (sv_state t1) = s_Bindings (sv_state s)"
            using scan_commits_moves [OF evo.start [of 0 "s\<lparr>sv_contexts := ctxs\<rparr>"] _ _ _ sc, of "2 * length cs"] None lt
              commits_from [OF c [unfolded Inr]] by (auto simp: cursors_from_def less_imp_le)
          have "loop_ok ?X s (put_binding key b1 t1)"
            by (rule loop_ok_put [OF _ _ _ bs Some _ pass]) (use sd None cb(2) in auto)
          then show ?thesis
            by (rule IH) (use Some a c Inr sc None kk Cons.prems(2) in simp)
        qed
      qed
    qed
  qed
qed

text \<open>C30. On the direct path no artifact commit is skipped: whatever the pass does (full mailboxes,
  errors, failed writes, retired applications), an artifact commit of the bound context that lies
  between a binding's cursor before the pass and its cursor in the database after it has its message,
  with its key and payload, in the database too.\<close>

theorem wake_no_skip:
  assumes "deliverLSFS None now (s, k) = (r, s', k')"
    and "distinct (map lc_Cursor (db_commits (sv_contexts s)))" and "bindingsOrder.ahead s"
    and "gget (s_Bindings (sv_state s)) key = Some b" and "gget (s_Bindings (sv_committed s')) key = Some b'"
    and "c \<in> set (db_commits (sv_contexts s))" and "lc_ContextID c = wb_Ref b" and "lc_Kind c = ''artifact''"
    and "wb_Cursor b < lc_Cursor c" and "lc_Cursor c \<le> wb_Cursor b'"
  shows "woken (sv_committed s') b c"
proof -
  have same: False if "sv_committed s' = sv_committed s"
  proof -
    from that assms(3,5) obtain b0 where "gget (s_Bindings (sv_state s)) key = Some b0" "wb_Cursor b' \<le> wb_Cursor b0"
      by (auto simp: bindingsOrder.ahead_def bindings_le_def gmap_le_def binding_le_def)
    then show False using assms(4,9,10) by simp
  qed
  obtain e ch t k1 where l: "lsfs_loop None now (sort (map fst (s_Bindings (sv_state s)))) False (s, k) = (e, ch, t, k1)"
    by (metis prod_cases4)
  note ok = lsfs_loop_direct [OF assms(2) l]
  have e: "e = None" using assms(1) l ok same by (cases e) (auto simp: deliverLSFS_def)
  then have lo: "loop_ok (db_commits (sv_contexts s)) s t" using ok by simp
  then have ch: ch using assms(1) l e same by (cases ch) (auto simp: deliverLSFS_def loop_ok_def)
  have "persist_return () t = (r, s')" using assms(1) l e ch by (auto simp: deliverLSFS_def split: prod.splits)
  then have d: "sv_committed s' = durable (sv_state t)"
    using same lo by (cases t rule: persistLocked_cases) (auto simp: persist_return_def restoreLocked_def loop_ok_def)
  from lo assms(4) obtain b1 where "gget (s_Bindings (sv_state t)) key = Some b1" "passed (db_commits (sv_contexts s)) b b1 (sv_state t)"
    unfolding loop_ok_def by blast
  then have "woken (sv_state t) b c" using assms(5-10) d unfolding passed_def by simp
  then show ?thesis unfolding d by (simp add: woken_def)
qed

definition sample_binding :: wakebinding where
  "sample_binding = \<lparr>wb_BindingID = ''b'', wb_ApplicationID = ''a1'', wb_Kind = ''lsfs'', wb_Ref = ''c1'', wb_Cursor = 0, wb_Enabled = True\<rparr>"

definition sample_commit :: lsfscommit where
  "sample_commit = \<lparr>lc_Cursor = 5, lc_ContextID = ''c1'', lc_Kind = ''artifact'', lc_Handle = ''h'', lc_IdempotencyKey = ''k''\<rparr>"

definition sample_wake :: supervisor where
  "sample_wake = sample_supervisor\<lparr>sv_state := sample_state\<lparr>s_Bindings := [(''a1:b'', sample_binding)]\<rparr>,
     sv_committed := sample_state\<lparr>s_Bindings := [(''a1:b'', sample_binding)]\<rparr>,
     sv_contexts := empty_cstore\<lparr>db_contexts := [(''c1'', \<lparr>c_Owner = ''owner'', c_Tail = None\<rparr>)], db_commits := [sample_commit]\<rparr>\<rparr>"

lemma sample_wake_simps [simp]:
  "s_Bindings (sv_state sample_wake) = [(''a1:b'', sample_binding)]"
  "s_Bindings (sv_committed sample_wake) = [(''a1:b'', sample_binding)]"
  "app sample_wake i = (if i = ''a1'' then Some sample_app else None)" "sv_dbq sample_wake = []"
  "mailbox (sv_state sample_wake) i = (if i = ''a1'' then [sample_message ''pending''] else [])"
  "s_Mailbox (sv_state sample_wake) = [(''a1'', [sample_message ''pending''])]"
  by (simp_all add: sample_wake_def mailbox_def sample_supervisor_def sample_state_def)

lemma sample_commits:
  "ContextStore_Commits (sv_contexts sample_wake) ''owner'' ''c1'' 0 64 = (Inr [sample_commit], sv_contexts sample_wake)"
  unfolding sample_wake_def by code_simp

lemma sample_scan:
  "lsfs_loop ko now [''a1:b''] False (sample_wake, k) =
     (case scan_commits ko now sample_binding [sample_commit] False (sample_wake, k) of
        (Some e, _, changed1, w1) \<Rightarrow> (Some e, changed1, w1)
      | (None, b1, changed1, s1, k1) \<Rightarrow> (None, changed1, put_binding ''a1:b'' b1 s1, k1))"
proof -
  have "sample_wake\<lparr>sv_contexts := sv_contexts sample_wake\<rparr> = sample_wake" by simp
  then show ?thesis
    using sample_commits by (simp add: sample_binding_def wakeScanBatch_def del: scan_commits.simps split: prod.split option.split)
qed

lemma scan_kernel:
  assumes "scan_commits (Some K) now b cs changed (t, k) = (None, b', ch', t', k')" and "\<forall>c \<in> set cs. lc_Kind c = ''artifact''"
  shows "ch' = changed \<and> s_Bindings (sv_state t') = s_Bindings (sv_state t)
    \<and> (s_Bindings (sv_committed t') = s_Bindings (sv_state t) \<or> sv_committed t' = sv_committed t)"
  using assms
proof (induction cs arbitrary: t k b)
  case (Cons c cs)
  let ?i = "wb_ApplicationID b"
  obtain r u k1 where h: "ensureKernelSourceLocked K ?i (t, k) = (r, u, k1)" by (metis prod_cases3)
  obtain rp k2 where po: "k_Post K ?i (word_of_int (lc_Cursor c)) k1 = (rp, k2)" by fastforce
  obtain ep v where pe: "persistLocked u = (ep, v)" by fastforce
  note f = ensureSource_frame [OF h]
  have art: "lc_Kind c = ''artifact''" using Cons.prems(2) by simp
  show ?case
  proof (cases "(\<exists>x. rp = Inr x)")
    case False
    then show ?thesis
      using Cons.prems(1) art h po f by (auto simp: Let_def split: sum.splits if_splits)
  next
    case True
    then have go: "scan_commits (Some K) now (b\<lparr>wb_Cursor := lc_Cursor c\<rparr>) cs changed (v, k2) = (None, b', ch', t', k')" "ep = None"
      using Cons.prems(1) art h po pe by (auto simp: Let_def split: sum.splits option.splits)
    have "\<forall>c \<in> set cs. lc_Kind c = ''artifact''" using Cons.prems(2) by simp
    from Cons.IH [OF go(1) this] persist_ok [of u v] pe go(2) f show ?thesis by auto
  qed
qed simp




definition sample_woken :: string where
  "sample_woken = ''{\"source_kind\":\"lsfs\",\"binding_id\":\"b\",\"commit\":{\"cursor\":5,\"context_id\":\"c1\",\"kind\":\"artifact\",\"handle\":\"h\",\"idempotency_key\":\"k\"},\"text\":\"LSFS artifact committed: context=c1 cursor=5 handle=h\"}''"

lemma sample_woken: "wake_payload ''b'' sample_commit = sample_woken" "wake_key ''b'' sample_commit = ''lsfs:b:5''"
  by code_simp+

lemma sample_woken_valid: "json_Valid sample_woken" "compact False False sample_woken = sample_woken"
  by code_simp+

lemma sample_wake_enqueue:
  "\<exists>m s1. enqueueLocked 9 ''supervisor'' ''a1'' ''lsfs:b:5'' sample_woken sample_wake = (Inr m, s1) \<and> sv_dbq s1 = []"
proof -
  have l: "length sample_woken \<le> 1000" by (simp add: sample_woken_def)
  have k: "find_key ''lsfs:b:5'' [sample_message ''pending''] = None"
    by (simp add: find_key_def sample_message_def)
  have acc: "accepts (mc_Application (mailboxCapacityLocked (sv_state sample_wake) ''a1'')) (length sample_woken)"
      "accepts (mc_Supervisor (mailboxCapacityLocked (sv_state sample_wake) ''a1'')) (length sample_woken)"
    using l by (simp_all add: accepts_def mailboxCapacityLocked_def usage_of_def app_messages_def all_messages_def active_def
      sample_message_def maxApplicationMailboxMessages_def maxApplicationMailboxBytes_def
      maxSupervisorMailboxMessages_def maxSupervisorMailboxBytes_def)
  show ?thesis
    using sample_woken_valid acc l k
    by (simp add: enqueueLocked_def maxTextBytes_def Let_def del: compact.simps)
qed

theorem wake_no_skip_witness:
  "\<exists>s'. deliverLSFS None 9 (sample_wake, ()) = (Inr (), s', ()) \<and> woken (sv_committed s') sample_binding sample_commit"
proof -
  obtain m s1 where q: "enqueueLocked 9 ''supervisor'' ''a1'' ''lsfs:b:5'' sample_woken sample_wake = (Inr m, s1)" "sv_dbq s1 = []"
    using sample_wake_enqueue by blast
  let ?b = "sample_binding\<lparr>wb_Cursor := 5\<rparr>"
  let ?s = "put_binding ''a1:b'' ?b s1"
  have sc: "scan_commits None 9 sample_binding [sample_commit] False (sample_wake, ()) = (None, ?b, True, s1, ())"
    using q sample_woken by (simp add: Let_def sample_binding_def sample_commit_def)
  have d: "deliverLSFS None 9 (sample_wake, ()) = (Inr (), ?s\<lparr>sv_committed := durable (sv_state ?s)\<rparr>, ())"
    using q(2) sc by (simp add: deliverLSFS_def sample_scan sample_persist del: lsfs_loop.simps scan_commits.simps)
  have c: "db_commits (sv_contexts sample_wake) = [sample_commit]" by (simp add: sample_wake_def)
  have "woken (sv_committed (?s\<lparr>sv_committed := durable (sv_state ?s)\<rparr>)) sample_binding sample_commit"
    by (rule wake_no_skip [OF d, of "''a1:b''" sample_binding ?b])
      (simp_all add: c bindingsOrder.ahead_def sample_binding_def sample_commit_def bindings_le_def gmap_le_refl enqueue_bindings [OF q(1)])
  with d show ?thesis by blast
qed

end
