(* ===== verification/Runner.thy ===== *)
theory Runner
  imports Taint
begin

text \<open>
  The turn runner (\<^verbatim>\<open>runtime/runner.go\<close>): timers, choice of the next turn, execution against a
  provider, and the durable commit of its result.

  A turn is claimed, executed outside the lock and finished; \<open>claimTurn\<close>, \<open>foldTaint\<close>,
  \<open>finishTurn\<close> and \<open>requeueClaim\<close> are the critical sections, between which any other
  operation may run. A provider is a parameter: its name, what it implements, and the answer it
  gives to a prompt under a list of allowed backends.
\<close>

section \<open>Timers\<close>

definition AddTimer ::
  "int \<Rightarrow> string \<Rightarrow> string \<Rightarrow> string \<Rightarrow> int \<Rightarrow> int \<Rightarrow> string \<Rightarrow> supervisor \<Rightarrow> unit result \<times> supervisor" where
  "AddTimer now princ i timerID delay interval payload s =
     (case app s i of
        None \<Rightarrow> (Inl ErrApplicationNotFound, s)
      | Some a \<Rightarrow>
          if a_State a = ''tombstoned'' then (Inl ErrApplicationRetired, s)
          else if timerID = [] \<or> length timerID > 128 \<or> delay \<le> 0 \<or> interval < 0
                  \<or> \<not> json_Valid payload \<or> length payload > maxTextBytes
          then (Inl (ErrMsg ''invalid timer''), s)
          else
            let key = i @ '':'' @ timerID
            in if gget (s_Timers (sv_state s)) key \<noteq> None then (Inl (ErrMsg ''timer already exists''), s)
               else persist_return ()
                 (auditLocked now princ i ''timer.create'' timerID ''allow'' []
                   (on_state (s_Timers_update (gput key
                     \<lparr>tm_ApplicationID = i, tm_TimerID = timerID, tm_Due = now + delay,
                      tm_Interval = interval, tm_Payload = payload\<rparr>)) s)))"

definition timer_key :: "applicationtimer \<Rightarrow> string" where
  "timer_key t = ''timer:'' @ tm_TimerID t @ '':'' @ dec_int (tm_Due t)"

text \<open>The loop body for one timer: an error stops the delivery, a full mailbox leaves the timer.\<close>

definition deliver_timer :: "int \<Rightarrow> string \<Rightarrow> applicationtimer \<Rightarrow> supervisor \<Rightarrow> error option \<times> bool \<times> supervisor" where
  "deliver_timer now key t s =
     (if (case app s (tm_ApplicationID t) of None \<Rightarrow> True | Some a \<Rightarrow> a_State a = ''tombstoned'')
      then (None, True, on_state (s_Timers_update (gdel key)) s)
      else if tm_Due t > now then (None, False, s)
      else case enqueueLocked now ''supervisor'' (tm_ApplicationID t) (timer_key t) (tm_Payload t) s of
        (Inl e, s1) \<Rightarrow> if e = ErrMailboxFull then (None, False, s1) else (Some e, False, restoreLocked s1)
      | (Inr _, s1) \<Rightarrow>
          let s2 = (if tm_Interval t = 0 then on_state (s_Timers_update (gdel key)) s1
                    else on_state (s_Timers_update (gput key (t\<lparr>tm_Due := now + tm_Interval t\<rparr>))) s1)
          in (None, True, auditLocked now ''supervisor'' (tm_ApplicationID t) ''timer.deliver'' (timer_key t) ''allow'' [] s2))"

fun deliver_timers_loop ::
  "int \<Rightarrow> (string \<times> applicationtimer) list \<Rightarrow> bool \<Rightarrow> supervisor \<Rightarrow> error option \<times> bool \<times> supervisor" where
  "deliver_timers_loop now [] changed s = (None, changed, s)"
| "deliver_timers_loop now ((key, t) # kts) changed s =
     (case deliver_timer now key t s of
        (Some e, _, s1) \<Rightarrow> (Some e, changed, s1)
      | (None, c, s1) \<Rightarrow> deliver_timers_loop now kts (changed \<or> c) s1)"

definition deliverTimers :: "int \<Rightarrow> supervisor \<Rightarrow> unit result \<times> supervisor" where
  "deliverTimers now s =
     (case deliver_timers_loop now (sort_key (tm_Due \<circ> snd) (sort_key fst (s_Timers (sv_state s)))) False s of
        (Some e, _, s1) \<Rightarrow> (Inl e, s1)
      | (None, changed, s1) \<Rightarrow> if changed then persist_return () s1 else (Inr (), s1))"

section \<open>Choosing a turn\<close>

definition throttleClaimInterval :: int where "throttleClaimInterval = 10 ^ 9"

definition promptPrefix :: "string \<Rightarrow> string" where
  "promptPrefix payload = take 64 (string_field ''text'' payload)"

definition maxThrottleBand :: "u64 \<Rightarrow> u64" where
  "maxThrottleBand minTokens = (let band = minTokens div 4 in if band < 64 then 64 else band)"

definition throttled :: "int \<Rightarrow> int option \<Rightarrow> application \<Rightarrow> bool" where
  "throttled now lastAt a \<longleftrightarrow>
     a_TokenLimit a > 0 \<and> a_TokensUsed a < a_TokenLimit a
     \<and> a_TokensUsed a \<ge> a_TokenLimit a - a_TokenLimit a div 5
     \<and> (case lastAt of None \<Rightarrow> False | Some t \<Rightarrow> now - t < throttleClaimInterval)"

definition eligible :: "int \<Rightarrow> supervisor \<Rightarrow> string \<Rightarrow> bool" where
  "eligible now s i =
     (case app s i of
        None \<Rightarrow> False
      | Some a \<Rightarrow> a_State a = ''serving'' \<and> a_WakePolicy a \<noteq> ''manual'' \<and> i \<notin> set (sv_inflight s)
                  \<and> \<not> throttled now (gget (sv_lastClaim s) i) a)"

definition first_pending :: "supervisor \<Rightarrow> string \<Rightarrow> mailboxmessage option" where
  "first_pending s i = find (\<lambda>m. m_Status m = ''pending'') (mailbox (sv_state s) i)"

definition tokens_of :: "supervisor \<Rightarrow> string \<Rightarrow> u64" where
  "tokens_of s i = (case app s i of None \<Rightarrow> 0 | Some a \<Rightarrow> a_TokensUsed a)"

definition created_of :: "supervisor \<Rightarrow> string \<Rightarrow> int" where
  "created_of s i = (case app s i of None \<Rightarrow> 0 | Some a \<Rightarrow> a_CreatedAt a)"

text \<open>Least charged first, then oldest; the eligible applications with a pending message.\<close>

definition claim_order :: "supervisor \<Rightarrow> string list" where
  "claim_order s =
     sort_key (tokens_of s) (sort_key (created_of s) (map fst (s_Applications (sv_state s))))"

definition candidates :: "int \<Rightarrow> supervisor \<Rightarrow> (string \<times> mailboxmessage) list" where
  "candidates now s =
     concat (map (\<lambda>i. case first_pending s i of None \<Rightarrow> [] | Some m \<Rightarrow> [(i, m)])
       (filter (eligible now s) (claim_order s)))"

definition min_tokens :: "int \<Rightarrow> supervisor \<Rightarrow> u64" where
  "min_tokens now s = foldr min (map (tokens_of s) (filter (eligible now s) (claim_order s))) (- 1)"

text \<open>The loop over the candidates: the first that shares the last prefix within the fairness
  band, else the first.\<close>

definition affine :: "int \<Rightarrow> supervisor \<Rightarrow> string \<times> mailboxmessage \<Rightarrow> bool" where
  "affine now s c \<longleftrightarrow>
     sv_lastPrefix s \<noteq> [] \<and> promptPrefix (m_Payload (snd c)) = sv_lastPrefix s
     \<and> tokens_of s (fst c) \<le> saturatingAdd (min_tokens now s) (maxThrottleBand (min_tokens now s))"

definition choose_turn :: "int \<Rightarrow> supervisor \<Rightarrow> (string \<times> mailboxmessage) option" where
  "choose_turn now s =
     (case find (affine now s) (candidates now s) of
        Some c \<Rightarrow> Some c
      | None \<Rightarrow> (case candidates now s of [] \<Rightarrow> None | c # _ \<Rightarrow> Some c))"

definition claim_first :: "mailboxmessage \<Rightarrow> mailboxmessage" where
  "claim_first m = m\<lparr>m_Status := ''claimed'', m_Attempts := m_Attempts m + 1\<rparr>"

definition claimTurn :: "int \<Rightarrow> supervisor \<Rightarrow> (string \<times> mailboxmessage) option result \<times> supervisor" where
  "claimTurn now s =
     (case choose_turn now s of
        None \<Rightarrow> (Inr None, s)
      | Some (i, m) \<Rightarrow>
          let s1 = accumulateTaint i (taintedPayload (m_Payload m)) s;
              s2 = put_mailbox i (update_first (\<lambda>m. m_Status m = ''pending'') claim_first
                     (mailbox (sv_state s1) i)) s1;
              s3 = auditLocked now ''supervisor'' i ''turn.claim'' (m_MessageID m) ''allow'' [] s2
          in case persistLocked s3 of
               (Some e, s4) \<Rightarrow> (Inl e, s4)
             | (None, s4) \<Rightarrow>
                 (Inr (Some (i, claim_first m)),
                  s4\<lparr>sv_lastClaim := gput i now (sv_lastClaim s4), sv_inflight := i # sv_inflight s4\<rparr>))"

definition clearInflight :: "string \<Rightarrow> supervisor \<Rightarrow> supervisor" where
  "clearInflight i s = s\<lparr>sv_inflight := removeAll i (sv_inflight s)\<rparr>"

section \<open>Finishing a turn\<close>

record routeinfo =
  ri_Provider :: string
  ri_Fallbacks :: u32
  ri_CompatKey :: string

definition cacheHitKind :: "usage \<Rightarrow> string \<Rightarrow> string \<Rightarrow> string" where
  "cacheHitKind usage lastCompat currentCompat =
     (if u_CachedTokens usage > 0 then ''kv_exact''
      else if lastCompat \<noteq> [] \<and> lastCompat = currentCompat then ''prefix_replay'' else ''text_replay'')"

text \<open>The result as prepared before any context write.\<close>

definition prepare_result ::
  "string \<Rightarrow> string \<Rightarrow> string \<Rightarrow> usage \<Rightarrow> routeinfo \<Rightarrow> string \<Rightarrow> error option \<Rightarrow> turnresult" where
  "prepare_result i mid txt usage route cacheHit providerErr =
     (let overflowed = (providerErr = None \<and> length txt > maxTextBytes);
          failed = (providerErr \<noteq> None \<or> overflowed);
          reason = (if providerErr \<noteq> None
                    then (if providerErr = Some ErrRouteDenied then ''route_denied'' else ''provider_failed'')
                    else if overflowed then ''text_overflow'' else [])
      in \<lparr>tr_ApplicationID = i, tr_MessageID = mid, tr_Text = (if failed then [] else txt), tr_Usage = usage,
          tr_Status = (if failed then ''failed'' else ''completed''), tr_Checkpoint = [],
          tr_Provider = ri_Provider route, tr_Fallbacks = ri_Fallbacks route, tr_CacheHitKind = cacheHit,
          tr_FailureReason = reason\<rparr>)"

text \<open>The application after the charge, and the status and text of the result.\<close>

definition charge_application :: "turnresult \<Rightarrow> application \<Rightarrow> application" where
  "charge_application p a =
     (let u = tr_Usage p;
          a1 = a\<lparr>a_TokensUsed := saturatingAdd (a_TokensUsed a) (saturatingAdd (u_InputTokens u) (u_OutputTokens u)),
                 a_TokensCached := saturatingAdd (a_TokensCached a) (u_CachedTokens u),
                 a_Failures := (if tr_Status p = ''failed'' then a_Failures a + 1 else 0)\<rparr>
      in if a_TokenLimit a1 > 0 \<and> a_TokensUsed a1 \<ge> a_TokenLimit a1 then a1\<lparr>a_State := ''frozen''\<rparr> else a1)"

definition turn_status :: "turnresult \<Rightarrow> application \<Rightarrow> string \<times> string \<times> bool" where
  "turn_status p a =
     (let (st1, t1) = (if tr_Status p = ''failed'' then (''failed'', []) else (''completed'', tr_Text p));
          st2 = (if a_TokenLimit a > 0 \<and> a_TokensUsed a \<ge> a_TokenLimit a then ''budget_exhausted'' else st1);
          (st3, t3) = (if a_State a = ''tombstoned'' then (''retired'', []) else (st2, t1))
      in if length t3 > maxTextBytes then (''failed'', [], True) else (st3, t3, False))"

definition ack_message :: "string \<Rightarrow> mailboxmessage \<Rightarrow> mailboxmessage" where
  "ack_message mid m = (if m_MessageID m = mid then m\<lparr>m_Status := ''acked''\<rparr> else m)"

definition result_bytes :: "string \<Rightarrow> string \<Rightarrow> string option" where
  "result_bytes payload txt =
     map_option (\<lambda>p. jobject [(''request'', p), (''text'', quote txt)]) (marshalRaw payload)"

text \<open>What remains once the context writes are done: everything is written in one transaction.\<close>

definition commit_result ::
  "int \<Rightarrow> string \<Rightarrow> mailboxmessage \<Rightarrow> turnresult \<Rightarrow> string \<Rightarrow> bool \<Rightarrow> bool \<Rightarrow> routeinfo \<Rightarrow> string \<Rightarrow> application
     \<Rightarrow> supervisor \<Rightarrow> unit result \<times> supervisor" where
  "commit_result now i m p cacheHit routeDenied overflowed0 route checkpoint a s =
     (let mid = m_MessageID m; u = tr_Usage p;
          a1 = charge_application p a;
          (status, txt, overflowed1) = turn_status p a1;
          overflowed = (overflowed0 \<or> tr_FailureReason p = ''text_overflow'' \<or> overflowed1);
          reason0 = (if tr_Status p = ''failed'' \<and> tr_FailureReason p = [] then ''provider_failed'' else tr_FailureReason p);
          reason1 = (if routeDenied then ''route_denied'' else reason0);
          reason = (if overflowed then ''text_overflow'' else reason1);
          result = \<lparr>tr_ApplicationID = i, tr_MessageID = mid, tr_Text = txt, tr_Usage = u, tr_Status = status,
                    tr_Checkpoint = checkpoint, tr_Provider = ri_Provider route, tr_Fallbacks = ri_Fallbacks route,
                    tr_CacheHitKind = cacheHit, tr_FailureReason = []\<rparr>;
          a2 = a1\<lparr>a_Checkpoint := checkpoint\<rparr>;
          a3 = (if status \<noteq> ''failed''
                then a2\<lparr>a_LastProvider := ri_Provider route, a_LastCompat := ri_CompatKey route\<rparr> else a2);
          s1 = on_state (s_Results_update (gput mid result)) s;
          s2 = on_state (s_Prepared_update (gdel mid)) s1;
          s3 = put_mailbox i (map (ack_message mid) (mailbox (sv_state s2) i)) s2;
          s4 = put_app i a3 s3;
          s5 = recordRouteLocked now
                 \<lparr>rr_Sequence = 0, rr_Time = 0, rr_ApplicationID = i, rr_MessageID = mid,
                  rr_PolicyVersion = rp_Version (a_RoutePolicy a), rr_Provider = ri_Provider route,
                  rr_CompatKey = ri_CompatKey route, rr_Fallbacks = ri_Fallbacks route, rr_CacheHitKind = cacheHit,
                  rr_PromptTokens = u_InputTokens u, rr_CachedTokens = u_CachedTokens u,
                  rr_OutputTokens = u_OutputTokens u, rr_Status = status, rr_Reason = reason\<rparr> s4;
          s6 = (if status \<noteq> ''failed'' then s5\<lparr>sv_lastPrefix := promptPrefix (m_Payload m)\<rparr> else s5)
      in persist_return () (auditLocked now ''supervisor'' i (''turn.'' @ status) mid ''allow'' [] s6))"

definition write_context :: "string \<Rightarrow> mailboxmessage \<Rightarrow> turnresult \<Rightarrow> application \<Rightarrow> cstore \<Rightarrow> string result \<times> cstore" where
  "write_context i m p a ctxs =
     (case result_bytes (m_Payload m) (tr_Text p) of
        None \<Rightarrow> (Inl (ErrMsg ''json''), ctxs)
      | Some bytes \<Rightarrow>
          (case ContextStore_Append ctxs (a_OwnerAgent a) (a_ContextID a) (m_MessageID m @ '':result'') bytes of
             (Inl e, ctxs1) \<Rightarrow> (Inl e, ctxs1)
           | (Inr _, ctxs1) \<Rightarrow>
               ContextStore_Checkpoint ctxs1 (a_OwnerAgent a) (a_ContextID a) (m_MessageID m @ '':checkpoint'')))"

definition complete_turn ::
  "int \<Rightarrow> string \<Rightarrow> mailboxmessage \<Rightarrow> turnresult \<Rightarrow> string \<Rightarrow> bool \<Rightarrow> bool \<Rightarrow> routeinfo \<Rightarrow> application
     \<Rightarrow> supervisor \<Rightarrow> unit result \<times> supervisor" where
  "complete_turn now i m p cacheHit routeDenied overflowed route a s =
     (let route1 = (if tr_Provider p \<noteq> [] then route\<lparr>ri_Provider := tr_Provider p, ri_Fallbacks := tr_Fallbacks p\<rparr> else route)
      in case write_context i m p a (sv_contexts s) of
           (Inl e, ctxs) \<Rightarrow> (Inl e, s\<lparr>sv_contexts := ctxs\<rparr>)
         | (Inr checkpoint, ctxs) \<Rightarrow>
             commit_result now i m p cacheHit routeDenied overflowed route1 checkpoint a (s\<lparr>sv_contexts := ctxs\<rparr>))"

definition finishTurn ::
  "int \<Rightarrow> string \<Rightarrow> mailboxmessage \<Rightarrow> string \<Rightarrow> usage \<Rightarrow> routeinfo \<Rightarrow> error option \<Rightarrow> supervisor
     \<Rightarrow> unit result \<times> supervisor" where
  "finishTurn now i m txt usage route providerErr s0 =
     (let s = clearInflight i s0; mid = m_MessageID m
      in case app s i of
           None \<Rightarrow> (Inl ErrApplicationNotFound, s)
         | Some a \<Rightarrow>
             if gget (s_Results (sv_state s)) mid \<noteq> None then (Inr (), s)
             else
               let cacheHit = cacheHitKind usage (a_LastCompat a) (ri_CompatKey route);
                   routeDenied = (providerErr = Some ErrRouteDenied);
                   overflowed = (providerErr = None \<and> length txt > maxTextBytes)
               in case gget (s_Prepared (sv_state s)) mid of
                    Some p \<Rightarrow> complete_turn now i m p cacheHit routeDenied overflowed route a s
                  | None \<Rightarrow>
                      let p = prepare_result i mid txt usage route cacheHit providerErr
                      in case persistLocked (on_state (s_Prepared_update (gput mid p)) s) of
                           (Some e, s1) \<Rightarrow> (Inl e, s1)
                         | (None, s1) \<Rightarrow> complete_turn now i m p cacheHit routeDenied overflowed route a s1)"

section \<open>Executing a turn\<close>

record turnoutcome =
  to_Text :: string
  to_Usage :: usage
  to_Route :: routeinfo
  to_Taint :: u64
  to_Err :: "error option"

record provider =
  pv_Name :: string
  pv_CompatKey :: "string option"
  pv_LastRoute :: bool
  pv_Tracked :: bool
  pv_Complete :: "string list \<Rightarrow> string \<Rightarrow> turnoutcome"

definition compatKeyOf :: "provider \<Rightarrow> string" where
  "compatKeyOf pv = (case pv_CompatKey pv of Some k \<Rightarrow> k | None \<Rightarrow> pv_Name pv)"

definition zero_usage :: usage where
  "zero_usage = \<lparr>u_InputTokens = 0, u_OutputTokens = 0, u_CachedTokens = 0\<rparr>"

text \<open>Policy check and provider call for a message that has no prepared result. A provider that
  is not tracked reports only text, usage, error and the taint of a successful call.\<close>

definition run_provider :: "provider \<Rightarrow> string list \<Rightarrow> mailboxmessage \<Rightarrow> turnoutcome" where
  "run_provider pv backends m =
     (let route = \<lparr>ri_Provider = pv_Name pv, ri_Fallbacks = 0, ri_CompatKey = compatKeyOf pv\<rparr>;
          none = \<lparr>to_Text = [], to_Usage = zero_usage, to_Route = route, to_Taint = 0, to_Err = None\<rparr>
      in if backends \<noteq> [] \<and> \<not> pv_LastRoute pv \<and> pv_Name pv \<notin> set backends
         then none\<lparr>to_Err := Some ErrRouteDenied\<rparr>
         else if \<not> unmarshal_strings_ok [''text''] (m_Payload m) then none\<lparr>to_Err := Some (ErrMsg ''json'')\<rparr>
         else let r = pv_Complete pv backends (string_field ''text'' (m_Payload m))
              in if pv_Tracked pv then r else r\<lparr>to_Route := route\<rparr>)"

definition turn_outcome :: "provider \<Rightarrow> string \<Rightarrow> mailboxmessage \<Rightarrow> supervisor \<Rightarrow> turnoutcome" where
  "turn_outcome pv i m s =
     (if gget (s_Prepared (sv_state s)) (m_MessageID m) \<noteq> None
      then \<lparr>to_Text = [], to_Usage = zero_usage,
            to_Route = \<lparr>ri_Provider = pv_Name pv, ri_Fallbacks = 0, ri_CompatKey = compatKeyOf pv\<rparr>,
            to_Taint = 0, to_Err = None\<rparr>
      else run_provider pv (case app s i of None \<Rightarrow> [] | Some a \<Rightarrow> rp_Backends (a_RoutePolicy a)) m)"

text \<open>The part of \<^verbatim>\<open>executeTurn\<close> after the provider answered: \<open>stopped\<close> says that the
  runner's context is done.\<close>

definition settleTurn ::
  "int \<Rightarrow> bool \<Rightarrow> string \<Rightarrow> mailboxmessage \<Rightarrow> turnoutcome \<Rightarrow> supervisor \<Rightarrow> unit result \<times> supervisor" where
  "settleTurn now stopped i m r s =
     (let s1 = (if to_Err r = None \<and> to_Taint r \<noteq> 0 then foldTaint i (to_Taint r) s else s)
      in if to_Err r = Some ErrTurnBusy \<or> stopped
         then (case requeueClaim now i (m_MessageID m) s1 of (res, s2) \<Rightarrow> (res, clearInflight i s2))
         else case finishTurn now i m (to_Text r) (to_Usage r) (to_Route r) (to_Err r) s1 of
           (Inr _, s2) \<Rightarrow> (Inr (), clearInflight i s2)
         | (Inl e, s2) \<Rightarrow>
             (case requeueClaim now i (m_MessageID m) s2 of (_, s3) \<Rightarrow> (Inl e, clearInflight i s3)))"

definition executeTurn ::
  "int \<Rightarrow> bool \<Rightarrow> provider \<Rightarrow> string \<Rightarrow> mailboxmessage \<Rightarrow> supervisor \<Rightarrow> unit result \<times> supervisor" where
  "executeTurn now stopped pv i m s = settleTurn now stopped i m (turn_outcome pv i m s) s"

definition Result :: "supervisor \<Rightarrow> string \<Rightarrow> string \<Rightarrow> turnresult result" where
  "Result s i mid =
     (case gget (s_Results (sv_state s)) mid of
        None \<Rightarrow> Inl (ErrMsg ''result not found'')
      | Some r \<Rightarrow> if tr_ApplicationID r \<noteq> i then Inl (ErrMsg ''result not found'') else Inr r)"

section \<open>The operations as moves\<close>

lemma evo_if: "evo n s t \<Longrightarrow> evo n s u \<Longrightarrow> evo n s (if b then t else u)"
  by simp

lemma evo_timers: "evo n s t \<Longrightarrow> evo n s (t\<lparr>sv_state := s_Timers_update f (sv_state t)\<rparr>)"
  by (rule evo_state) auto

lemma evo_AddTimer [audited]: "evo 1 s (snd (AddTimer now princ i timerID delay interval payload s))"
  by (auto simp: AddTimer_def Let_def split: option.splits intro!: evo_return evo_auditI evo_timers evo.start)

lemma evo_deliver_timer: "evo 3 s (snd (snd (deliver_timer now key t s)))"
proof -
  have e: "evo 2 s (snd (enqueueLocked now ''supervisor'' (tm_ApplicationID t) (timer_key t) (tm_Payload t) s))"
    by (rule evo_enqueueI [OF evo.start]) simp
  then have e3: "evo 3 s (snd (enqueueLocked now ''supervisor'' (tm_ApplicationID t) (timer_key t) (tm_Payload t) s))"
    by (rule evo_mono) simp
  show ?thesis
    using e e3
    by (auto simp: deliver_timer_def Let_def split: prod.splits sum.splits
        intro!: evo_auditI evo_timers evo.restore evo.start)
qed

lemma evo_deliver_timers_loop:
  "evo (3 * length kts) s (snd (snd (deliver_timers_loop now kts changed s)))"
proof (induction now kts changed s rule: deliver_timers_loop.induct)
  case (1 now changed s)
  then show ?case by (simp add: evo.start)
next
  case (2 now key t kts changed s)
  obtain e c s1 where d: "deliver_timer now key t s = (e, c, s1)" by (cases "deliver_timer now key t s")
  have s1: "evo 3 s s1" using evo_deliver_timer [of s now key t] d by simp
  show ?case
  proof (cases e)
    case None
    with 2 d have "evo (3 * length kts) s1 (snd (snd (deliver_timers_loop now kts (changed \<or> c) s1)))" by simp
    from evo_trans [OF this s1] None d show ?thesis by (simp add: algebra_simps)
  next
    case (Some x)
    then show ?thesis using d s1 by (auto intro: evo_mono)
  qed
qed

lemma evo_deliverTimers [audited]: "evo (3 * length (s_Timers (sv_state s))) s (snd (deliverTimers now s))"
proof -
  have "evo (3 * length (s_Timers (sv_state s))) s
      (snd (snd (deliver_timers_loop now (sort_key (tm_Due \<circ> snd) (sort_key fst (s_Timers (sv_state s)))) False s)))"
    using evo_deliver_timers_loop [of "sort_key (tm_Due \<circ> snd) (sort_key fst (s_Timers (sv_state s)))" s now False]
    by simp
  then show ?thesis
    by (auto simp: deliverTimers_def intro: evo_return split: prod.splits option.splits)
qed

lemma evo_claimTurn [audited]: "evo 1 s (snd (claimTurn now s))"
proof (cases "choose_turn now s")
  case None
  then show ?thesis by (simp add: claimTurn_def evo.start)
next
  case (Some c)
  obtain i m where c: "c = (i, m)" by (cases c)
  let ?s1 = "accumulateTaint i (taintedPayload (m_Payload m)) s"
  let ?s2 = "put_mailbox i (update_first (\<lambda>m. m_Status m = ''pending'') claim_first (mailbox (sv_state ?s1) i)) ?s1"
  let ?s3 = "auditLocked now ''supervisor'' i ''turn.claim'' (m_MessageID m) ''allow'' [] ?s2"
  have "evo 0 s ?s2"
    by (intro evo_put_mailbox evo_accumulateTaint evo.start all2_update_first)
      (auto simp: find_Some_iff claim_first_def message_le_def settled_def active_def)
  then have s3: "evo 1 s ?s3" by (intro evo_auditI) simp_all
  obtain e s4 where p: "persistLocked ?s3 = (e, s4)" by fastforce
  have s4: "evo 1 s s4" using evo_persisted [OF s3 p] .
  have "evo 1 s (s4\<lparr>sv_lastClaim := lc, sv_inflight := fl\<rparr>)" for lc fl
    by (rule evo.change [OF s4]) auto
  with s4 p show ?thesis
    unfolding claimTurn_def Some c option.case prod.case Let_def by (cases e) simp_all
qed

lemma evo_clearInflight: "evo n s t \<Longrightarrow> evo n s (clearInflight i t)"
  by (rule evo.change) (auto simp: clearInflight_def)

lemma charge_application_le: "app_le a (charge_application p a)"
  by (auto simp: charge_application_def Let_def app_le_def dead_def spent_def saturatingAdd_ge word_neq_0_conv
      intro: order.trans)

lemma evo_results:
  "evo n s t \<Longrightarrow> gget (s_Results (sv_state t)) k = None \<Longrightarrow>
     evo n s (t\<lparr>sv_state := s_Results_update (gput k r) (sv_state t)\<rparr>)"
  by (rule evo_state) (auto intro: quiet_result)

lemma evo_prepared: "evo n s t \<Longrightarrow> evo n s (t\<lparr>sv_state := s_Prepared_update f (sv_state t)\<rparr>)"
  by (rule evo_state) auto

lemma evo_recordRoute:
  assumes "evo (n - 1) s t" and "0 < n"
  shows "evo n s (recordRouteLocked now r t)"
proof -
  have "evo n s (bumpSequence t)" using assms by (rule evo_bumpI)
  then show ?thesis
    unfolding recordRouteLocked_def Let_def
    by (rule evo_state) (simp add: quiet_parts append_bounded_length)
qed

lemma evo_lastPrefix: "evo n s t \<Longrightarrow> evo n s (t\<lparr>sv_lastPrefix := x\<rparr>)"
  by (rule evo.change) auto

lemma ack_message_le [simp]: "message_le m (ack_message mid m)"
  by (simp add: message_le_def ack_message_def settled_def active_def)

lemma app_le_cosmetic: "app_le b a \<Longrightarrow> app_le b (a\<lparr>a_Checkpoint := c\<rparr>)"
  "app_le b a \<Longrightarrow> app_le b (a\<lparr>a_LastProvider := x, a_LastCompat := y\<rparr>)"
  by (auto simp: app_le_def dead_def spent_def)

lemma evo_commit_result:
  assumes "evo n s0 s" and "app s i = Some a" and "gget (s_Results (sv_state s)) (m_MessageID m) = None"
  shows "evo (n + 2) s0 (snd (commit_result now i m p cacheHit routeDenied overflowed route checkpoint a s))"
proof -
  obtain status body ov where ts: "turn_status p (charge_application p a) = (status, body, ov)"
    by (cases "turn_status p (charge_application p a)")
  have a3: "app_le a (if b then (charge_application p a)\<lparr>a_Checkpoint := checkpoint, a_LastProvider := x, a_LastCompat := y\<rparr>
      else (charge_application p a)\<lparr>a_Checkpoint := checkpoint\<rparr>)" for b x y
    using app_le_cosmetic charge_application_le by auto
  show ?thesis
    unfolding commit_result_def Let_def ts prod.case
    apply (intro evo_return evo_auditI evo_if evo_lastPrefix evo_recordRoute evo_put_app evo_put_mailbox
        evo_prepared evo_results)
                  apply (use assms a3 in \<open>simp_all add: all2_map_message\<close>)
    done
qed

lemma evo_complete_turn:
  assumes "evo n s0 s" and "app s i = Some a" and "gget (s_Results (sv_state s)) (m_MessageID m) = None"
  shows "evo (n + 2) s0 (snd (complete_turn now i m p cacheHit routeDenied overflowed route a s))"
proof -
  have c: "evo n s0 (s\<lparr>sv_contexts := ctxs\<rparr>)" for ctxs
    by (rule evo.change [OF assms(1)]) auto
  then have c2: "evo (n + 2) s0 (s\<lparr>sv_contexts := ctxs\<rparr>)" for ctxs
    by (rule evo_mono) simp
  show ?thesis
    using c2 evo_commit_result [OF c, where i = i and a = a and m = m] assms(2,3)
    by (auto simp: complete_turn_def Let_def split: prod.splits sum.splits)
qed

lemma persistLocked_ok: "persistLocked s = (None, s') \<Longrightarrow> sv_state s' = sv_state s \<and> sv_committed s' = durable (sv_state s)
    \<and> sv_contexts s' = sv_contexts s \<and> sv_policy s' = sv_policy s"
  by (cases s rule: persistLocked_cases) auto

lemma evo_finishTurn [audited]: "evo 2 s (snd (finishTurn now i m body usage route providerErr s))"
proof -
  let ?s = "clearInflight i s"
  have s: "evo n s ?s" for n by (rule evo_clearInflight [OF evo.start])
  show ?thesis
  proof (cases "app ?s i")
    case None
    then show ?thesis using s by (simp add: finishTurn_def Let_def)
  next
    case (Some a)
    show ?thesis
    proof (cases "gget (s_Results (sv_state ?s)) (m_MessageID m) = None")
      case False
      then show ?thesis using s Some by (simp add: finishTurn_def Let_def)
    next
      case True
      show ?thesis
      proof (cases "gget (s_Prepared (sv_state ?s)) (m_MessageID m)")
        case (Some p)
        then show ?thesis
          using \<open>app ?s i = Some a\<close> True evo_complete_turn [OF s [of 0] \<open>app ?s i = Some a\<close> True]
          by (simp add: finishTurn_def Let_def numeral_2_eq_2)
      next
        case None
        let ?p = "prepare_result i (m_MessageID m) body usage route
          (cacheHitKind usage (a_LastCompat a) (ri_CompatKey route)) providerErr"
        let ?s1 = "on_state (s_Prepared_update (gput (m_MessageID m) ?p)) ?s"
        obtain e s2 where p: "persistLocked ?s1 = (e, s2)" by fastforce
        have s2: "evo n s s2" for n using evo_persisted [OF evo_prepared [OF s] p] .
        have ok: "app s2 i = Some a \<and> gget (s_Results (sv_state s2)) (m_MessageID m) = None" if "e = None"
          using persistLocked_ok [of ?s1 s2] p that \<open>app ?s i = Some a\<close> True by simp
        show ?thesis
          using None p s2 ok \<open>app ?s i = Some a\<close> True evo_complete_turn [OF s2 [of 0], of i a m]
          by (cases e) (simp_all add: finishTurn_def Let_def numeral_2_eq_2)
      qed
    qed
  qed
qed

lemma evo_settleTurn [audited]: "evo 3 s (snd (settleTurn now stopped i m r s))"
proof -
  define t where "t = (if to_Err r = None \<and> to_Taint r \<noteq> 0 then foldTaint i (to_Taint r) s else s)"
  obtain f s2 where f: "finishTurn now i m (to_Text r) (to_Usage r) (to_Route r) (to_Err r) t = (f, s2)"
    by fastforce
  obtain q t1 where q: "requeueClaim now i (m_MessageID m) t = (q, t1)" by fastforce
  obtain q3 s3 where q3: "requeueClaim now i (m_MessageID m) s2 = (q3, s3)" by fastforce
  have t: "evo 0 s t" using evo_foldTaint evo.start by (auto simp: t_def)
  have s2: "evo 2 s s2" using evo_trans [OF evo_finishTurn t] f by (metis add_0 snd_conv)
  have t1: "evo 1 s t1" using evo_trans [OF evo_requeueClaim t] q by (metis add_0 snd_conv)
  have s3: "evo (2 + 1) s s3" using evo_trans [OF evo_requeueClaim s2] q3 by (metis snd_conv)
  have "evo 3 s (clearInflight i s2)" "evo 3 s (clearInflight i t1)" "evo 3 s (clearInflight i s3)"
    using evo_mono [OF s2] evo_mono [OF t1] s3 by (auto intro!: evo_clearInflight)
  then show ?thesis
    unfolding settleTurn_def Let_def t_def [symmetric] f q prod.case q3 by (cases f) (auto simp: q3)
qed

lemma evo_executeTurn [audited]: "evo 3 s (snd (executeTurn now stopped pv i m s))"
  by (simp add: executeTurn_def evo_settleTurn)

section \<open>A turn is charged once\<close>

lemma finishTurn_done:
  assumes "gget (s_Results (sv_state s)) (m_MessageID m) \<noteq> None" and "app s i \<noteq> None"
  shows "finishTurn now i m body usage route providerErr s = (Inr (), clearInflight i s)"
  using assms by (auto simp: finishTurn_def Let_def clearInflight_def)

lemma recordRouteLocked_simps [simp]:
  "s_Applications (sv_state (recordRouteLocked now r s)) = s_Applications (sv_state s)"
  "s_Results (sv_state (recordRouteLocked now r s)) = s_Results (sv_state s)"
  "s_Mailbox (sv_state (recordRouteLocked now r s)) = s_Mailbox (sv_state s)"
  by (simp_all add: recordRouteLocked_def bumpSequence_def Let_def)

lemma auditLocked_results [simp]:
  "s_Results (sv_state (auditLocked now princ aid action object decision reason s)) = s_Results (sv_state s)"
  by (simp add: auditLocked_def Let_def)

text \<open>The state a committed turn leaves behind.\<close>

lemma commit_result_Inr:
  assumes "commit_result now i m p cacheHit routeDenied overflowed route checkpoint a s = (Inr (), s')"
  shows "sv_committed s' = durable (sv_state s')"
    and "\<exists>b. app s' i = Some b \<and> a_TokensUsed b = a_TokensUsed (charge_application p a)
           \<and> a_State b = a_State (charge_application p a)"
    and "\<exists>r. gget (s_Results (sv_state s')) (m_MessageID m) = Some r \<and> tr_Usage r = tr_Usage p
           \<and> tr_Status r = fst (turn_status p (charge_application p a))
           \<and> tr_Text r = fst (snd (turn_status p (charge_application p a)))"
proof -
  obtain status body ov where ts: "turn_status p (charge_application p a) = (status, body, ov)"
    by (cases "turn_status p (charge_application p a)")
  note r = persist_return_Inr [OF assms [unfolded commit_result_def Let_def ts prod.case]]
  show "sv_committed s' = durable (sv_state s')" using r by simp
  show "\<exists>b. app s' i = Some b \<and> a_TokensUsed b = a_TokensUsed (charge_application p a)
           \<and> a_State b = a_State (charge_application p a)"
    using r by simp
  show "\<exists>r. gget (s_Results (sv_state s')) (m_MessageID m) = Some r \<and> tr_Usage r = tr_Usage p
           \<and> tr_Status r = fst (turn_status p (charge_application p a))
           \<and> tr_Text r = fst (snd (turn_status p (charge_application p a)))"
    using r by (simp add: ts)
qed

section \<open>Scheduling\<close>

lemma chosen_candidate: "choose_turn now s = Some c \<Longrightarrow> c \<in> set (candidates now s)"
proof (cases "find (affine now s) (candidates now s)")
  case None
  then show "choose_turn now s = Some c \<Longrightarrow> c \<in> set (candidates now s)"
    unfolding choose_turn_def by (cases "candidates now s") auto
next
  case (Some d)
  then have "d \<in> set (candidates now s)" by (metis find_Some_iff nth_mem)
  with Some show "choose_turn now s = Some c \<Longrightarrow> c \<in> set (candidates now s)" by (simp add: choose_turn_def)
qed

lemma candidate_eligible: "(i, m) \<in> set (candidates now s) \<Longrightarrow> eligible now s i \<and> first_pending s i = Some m"
  by (auto simp: candidates_def split: option.splits)

lemma candidateI: "eligible now s i \<Longrightarrow> first_pending s i = Some m \<Longrightarrow> (i, m) \<in> set (candidates now s)"
proof -
  assume e: "eligible now s i" and f: "first_pending s i = Some m"
  have "i \<in> set (claim_order s)"
    using e by (auto simp: eligible_def claim_order_def image_iff dest!: map_of_SomeD split: option.splits intro!: bexI)
  then show ?thesis using e f by (auto simp: candidates_def intro!: bexI [of _ i])
qed

text \<open>The candidates come in the order of their charge, and no eligible application is charged less
  than the minimum.\<close>

lemma candidates_sorted: "sorted (map (tokens_of s \<circ> fst) (candidates now s))"
proof -
  have "map (tokens_of s \<circ> fst) (concat (map (\<lambda>i. case f i of None \<Rightarrow> [] | Some m \<Rightarrow> [(i, m)]) is))
      = map (tokens_of s) (filter (\<lambda>i. f i \<noteq> None) is)" for f :: "string \<Rightarrow> mailboxmessage option" and "is"
    by (induction "is") (auto split: option.split)
  moreover have "sorted (map (tokens_of s) (filter P (claim_order s)))" for P
    unfolding claim_order_def by (simp add: sorted_filter)
  ultimately show ?thesis by (simp add: candidates_def filter_filter)
qed

lemma min_tokens_le: "eligible now s i \<Longrightarrow> i \<in> set (claim_order s) \<Longrightarrow> min_tokens now s \<le> tokens_of s i"
proof -
  have "x \<in> set xs \<Longrightarrow> foldr min xs y \<le> x" for x y :: u64 and xs
    by (induction xs) (auto simp: min.coboundedI2)
  then show "eligible now s i \<Longrightarrow> i \<in> set (claim_order s) \<Longrightarrow> min_tokens now s \<le> tokens_of s i"
    by (auto simp: min_tokens_def)
qed

lemma candidate_order: "(i, m) \<in> set (candidates now s) \<Longrightarrow> i \<in> set (claim_order s)"
  by (auto simp: candidates_def)

lemma band_unat: "unat (maxThrottleBand n) = max 64 (unat n div 4)"
proof -
  have d: "unat (n div 4) = unat n div 4" by (simp add: unat_div)
  have "n div 4 < 64 \<longleftrightarrow> unat n div 4 < 64" unfolding word_less_nat_alt d by simp
  then show ?thesis using d by (simp add: maxThrottleBand_def Let_def)
qed

lemma saturating_le: "unat (saturatingAdd a b) \<le> unat a + unat b"
  by (simp add: saturatingAdd_unat)

text \<open>C13. The scheduler does not stall: while writes go through, if some application may run and has a
  message waiting, the next claim hands out a turn, and the database holds its message as claimed.\<close>

theorem claim_progress:
  assumes "eligible now s i" and "first_pending s i = Some m" and "sv_dbq s = []"
  shows "\<exists>j msg s'. claimTurn now s = (Inr (Some (j, msg)), s') \<and> eligible now s j \<and> j \<in> set (sv_inflight s')
    \<and> msg \<in> set (mailbox (sv_committed s') j) \<and> m_Status msg = ''claimed''"
proof -
  have "candidates now s \<noteq> []" using candidateI [OF assms(1,2)] by auto
  then obtain j n where c: "choose_turn now s = Some (j, n)"
    unfolding choose_turn_def by (cases "find (affine now s) (candidates now s)"; cases "candidates now s") auto
  have e: "eligible now s j" "first_pending s j = Some n" using candidate_eligible [OF chosen_candidate [OF c]] by simp_all
  have "claim_first n \<in> set (update_first P claim_first ms)" if "find P ms = Some n" for P ms
    using that by (induction ms) (auto split: if_splits)
  then have mem: "claim_first n \<in> set (update_first (\<lambda>m. m_Status m = ''pending'') claim_first (mailbox (sv_state s) j))"
    using e(2) by (simp add: first_pending_def)
  have a: "mailbox (sv_state (accumulateTaint j x s)) k = mailbox (sv_state s) k" "sv_dbq (accumulateTaint j x s) = sv_dbq s" for x k
    by (simp_all add: accumulateTaint_def mailbox_def split: option.split)
  show ?thesis
    using c e mem assms(3) a by (simp add: claimTurn_def Let_def persistLocked_def claim_first_def)
qed

text \<open>C14. Prefix affinity stays within the fairness band: the chosen application is charged at most a
  quarter, or 64 tokens, more than any other application that could have run.\<close>

theorem claim_fair:
  assumes "choose_turn now s = Some (j, msg)" and "eligible now s i" and "first_pending s i = Some m"
  shows "unat (tokens_of s j) \<le> unat (tokens_of s i) + max 64 (unat (tokens_of s i) div 4)"
proof (cases "find (affine now s) (candidates now s)")
  case None
  then obtain cs where cs: "candidates now s = (j, msg) # cs"
    using assms(1) by (cases "candidates now s") (auto simp: choose_turn_def)
  then have "tokens_of s j \<le> tokens_of s i"
    using candidates_sorted [of s now] candidateI [OF assms(2,3)] by auto
  then show ?thesis by (simp add: word_le_nat_alt)
next
  case (Some c)
  then have c: "c = (j, msg)" using assms(1) by (simp add: choose_turn_def)
  have "affine now s c" using Some by (metis find_Some_iff)
  let ?min = "min_tokens now s"
  have le: "unat ?min \<le> unat (tokens_of s i)"
    using min_tokens_le [OF assms(2) candidate_order [OF candidateI [OF assms(2,3)]]] by (simp add: word_le_nat_alt)
  have "unat (tokens_of s j) \<le> unat (saturatingAdd ?min (maxThrottleBand ?min))"
    using \<open>affine now s c\<close> c by (simp add: affine_def word_le_nat_alt)
  also have "\<dots> \<le> unat ?min + max 64 (unat ?min div 4)" using saturating_le band_unat by metis
  also have "\<dots> \<le> unat (tokens_of s i) + max 64 (unat (tokens_of s i) div 4)"
    using le by (intro add_mono max.mono div_le_mono) simp_all
  finally show ?thesis .
qed

lemma sample_eligible: "eligible 9 sample_supervisor ''a1''" "first_pending sample_supervisor ''a1'' = Some (sample_message ''pending'')"
  by (simp_all add: eligible_def throttled_def sample_supervisor_def first_pending_def sample_message_def)

theorem claim_progress_witness:
  "\<exists>j msg s'. claimTurn 9 sample_supervisor = (Inr (Some (j, msg)), s') \<and> eligible 9 sample_supervisor j
    \<and> j \<in> set (sv_inflight s') \<and> msg \<in> set (mailbox (sv_committed s') j) \<and> m_Status msg = ''claimed''"
  by (rule claim_progress [OF sample_eligible]) simp

theorem claim_fair_witness:
  "choose_turn 9 sample_supervisor = Some (''a1'', sample_message ''pending'')
    \<and> unat (tokens_of sample_supervisor ''a1'') \<le> unat (tokens_of sample_supervisor ''a1'') + max 64 (unat (tokens_of sample_supervisor ''a1'') div 4)"
proof -
  have "candidates 9 sample_supervisor = [(''a1'', sample_message ''pending'')]"
    using sample_eligible by (simp add: candidates_def claim_order_def sample_state_def)
  then have c: "choose_turn 9 sample_supervisor = Some (''a1'', sample_message ''pending'')" by (simp add: choose_turn_def)
  show ?thesis using claim_fair [OF c sample_eligible] c by simp
qed

end
