(* ===== verification/Router.thy ===== *)
theory Router
  imports Runner
begin

text \<open>
  The routing provider (\<^verbatim>\<open>runtime/router.go\<close>) and the offline echo provider of
  \<^verbatim>\<open>runtime/provider.go\<close>. Cancellation of the turn's context is an argument: the results of the
  coming \<^verbatim>\<open>ctx.Err()\<close> calls, past the end of the list the context lives. The lemmas show that the
  router serves a turn with the first candidate of the policy's order that does not fail, and that
  no other provider is ever asked.
\<close>

record router =
  rt_providers :: "provider list"
  rt_last :: routeinfo

definition no_route :: routeinfo where
  "no_route = \<lparr>ri_Provider = [], ri_Fallbacks = 0, ri_CompatKey = []\<rparr>"

definition LastRoute :: "router \<Rightarrow> routeinfo" where
  "LastRoute r = rt_last r"

text \<open>A nil provider is \<open>None\<close>.\<close>

fun accept_providers :: "provider option list \<Rightarrow> string list \<Rightarrow> provider list result" where
  "accept_providers [] seen = Inr []"
| "accept_providers (p # ps) seen =
     (case p of
        None \<Rightarrow> Inl (ErrMsg ''router provider is invalid'')
      | Some pv \<Rightarrow>
          if pv_Name pv = [] then Inl (ErrMsg ''router provider is invalid'')
          else if pv_Name pv \<in> set seen
          then Inl (ErrMsg (''router provider '' @ quote (pv_Name pv) @ '' is duplicated''))
          else case accept_providers ps (pv_Name pv # seen) of Inl e \<Rightarrow> Inl e | Inr qs \<Rightarrow> Inr (pv # qs))"

definition NewRouterProvider :: "provider option list \<Rightarrow> router result" where
  "NewRouterProvider ps =
     (if ps = [] then Inl (ErrMsg ''router requires at least one provider'')
      else case accept_providers ps [] of
        Inl e \<Rightarrow> Inl e
      | Inr qs \<Rightarrow> Inr \<lparr>rt_providers = qs, rt_last = no_route\<rparr>)"

text \<open>The candidates in the order the policy allows them; each name is taken once.\<close>

fun allowed_candidates :: "provider list \<Rightarrow> string list \<Rightarrow> string list \<Rightarrow> provider list" where
  "allowed_candidates ps seen [] = []"
| "allowed_candidates ps seen (name # names) =
     (case find (\<lambda>pv. pv_Name pv = name) ps of
        None \<Rightarrow> allowed_candidates ps seen names
      | Some pv \<Rightarrow>
          if name \<in> set seen then allowed_candidates ps seen names
          else pv # allowed_candidates ps (name # seen) names)"

definition route_candidates :: "router \<Rightarrow> string list \<Rightarrow> provider list" where
  "route_candidates r allowed = (if allowed = [] then rt_providers r else allowed_candidates (rt_providers r) [] allowed)"

definition failed_outcome :: "error \<Rightarrow> turnoutcome" where
  "failed_outcome e = \<lparr>to_Text = [], to_Usage = zero_usage, to_Route = no_route, to_Taint = 0, to_Err = Some e\<rparr>"

text \<open>Trying the candidates in turn: the outcome and the last route, which a cancelled call leaves
  alone (\<open>None\<close>). \<open>errText\<close> is the \<^verbatim>\<open>Error\<close> method of the providers' errors.\<close>

fun try_candidates ::
  "(error \<Rightarrow> string) \<Rightarrow> error option list \<Rightarrow> string list \<Rightarrow> string \<Rightarrow> string list \<Rightarrow> provider list \<Rightarrow> turnoutcome \<times> routeinfo option" where
  "try_candidates errText ctx allowed prompt failures [] =
     (failed_outcome
        (if failures = [] then ErrMsg ''route policy excludes every backend''
         else ErrMsg (''all routed providers failed: '' @ joinStr ''; '' failures)),
      Some no_route)"
| "try_candidates errText ctx allowed prompt failures (pv # pvs) =
     (case ctx of
        Some e # _ \<Rightarrow> (failed_outcome e, None)
      | _ \<Rightarrow>
          let r = pv_Complete pv allowed prompt
          in case to_Err r of
               None \<Rightarrow>
                 let route = \<lparr>ri_Provider = pv_Name pv, ri_Fallbacks = word_of_nat (length failures),
                              ri_CompatKey = compatKeyOf pv\<rparr>
                 in (\<lparr>to_Text = to_Text r, to_Usage = to_Usage r, to_Route = route, to_Taint = 0, to_Err = None\<rparr>, Some route)
             | Some e \<Rightarrow>
                 (case tl ctx of
                    Some e' # _ \<Rightarrow> (failed_outcome e', None)
                  | _ \<Rightarrow> try_candidates errText (tl (tl ctx)) allowed prompt
                           (failures @ [pv_Name pv @ '': '' @ errText e]) pvs))"

definition completeRouted :: "(error \<Rightarrow> string) \<Rightarrow> error option list \<Rightarrow> string list \<Rightarrow> string \<Rightarrow> router \<Rightarrow> turnoutcome \<times> router" where
  "completeRouted errText ctx allowed prompt r =
     (case try_candidates errText ctx allowed prompt [] (route_candidates r allowed) of
        (out, None) \<Rightarrow> (out, r)
      | (out, Some route) \<Rightarrow> (out, r\<lparr>rt_last := route\<rparr>))"

definition CompleteTracked :: "(error \<Rightarrow> string) \<Rightarrow> error option list \<Rightarrow> string list \<Rightarrow> string \<Rightarrow> router \<Rightarrow> turnoutcome \<times> router" where
  "CompleteTracked errText ctx allowed prompt r = completeRouted errText ctx allowed prompt r"

definition Router_Complete :: "(error \<Rightarrow> string) \<Rightarrow> error option list \<Rightarrow> string list \<Rightarrow> string \<Rightarrow> router \<Rightarrow> (string \<times> usage \<times> error option) \<times> router" where
  "Router_Complete errText ctx allowed prompt r =
     (case completeRouted errText ctx allowed prompt r of (out, r') \<Rightarrow> ((to_Text out, to_Usage out, to_Err out), r'))"

text \<open>The router as the provider of a turn: it declares no compatibility key of its own.\<close>

definition router_provider :: "(error \<Rightarrow> string) \<Rightarrow> error option list \<Rightarrow> router \<Rightarrow> provider" where
  "router_provider errText ctx r =
     \<lparr>pv_Name = ''router'', pv_CompatKey = None, pv_LastRoute = True, pv_Tracked = True,
      pv_Complete = (\<lambda>allowed prompt. fst (completeRouted errText ctx allowed prompt r))\<rparr>"

definition EchoProvider :: "error option \<Rightarrow> provider" where
  "EchoProvider ctx =
     \<lparr>pv_Name = ''echo'', pv_CompatKey = Some ''echo|std|plain|f32|1|cpu'', pv_LastRoute = False, pv_Tracked = False,
      pv_Complete = (\<lambda>_ prompt.
        case ctx of
          Some e \<Rightarrow> failed_outcome e
        | None \<Rightarrow> \<lparr>to_Text = prompt,
                   to_Usage = \<lparr>u_InputTokens = word_of_nat (length prompt), u_OutputTokens = word_of_nat (length prompt),
                               u_CachedTokens = 0\<rparr>,
                   to_Route = no_route, to_Taint = 0, to_Err = None\<rparr>)\<rparr>"

section \<open>Who serves a turn\<close>

lemma allowed_candidates_set: "pv \<in> set (allowed_candidates ps seen names) \<Longrightarrow> pv \<in> set ps \<and> pv_Name pv \<in> set names"
  by (induction names arbitrary: seen) (auto split: option.splits if_splits simp: find_Some_iff)

definition served_by :: "provider \<Rightarrow> nat \<Rightarrow> string list \<Rightarrow> string \<Rightarrow> turnoutcome" where
  "served_by pv n allowed prompt =
     \<lparr>to_Text = to_Text (pv_Complete pv allowed prompt), to_Usage = to_Usage (pv_Complete pv allowed prompt),
      to_Route = \<lparr>ri_Provider = pv_Name pv, ri_Fallbacks = word_of_nat n, ri_CompatKey = compatKeyOf pv\<rparr>,
      to_Taint = 0, to_Err = None\<rparr>"

abbreviation fails :: "string list \<Rightarrow> string \<Rightarrow> provider \<Rightarrow> bool" where
  "fails allowed prompt pv \<equiv> to_Err (pv_Complete pv allowed prompt) \<noteq> None"

lemma failed_outcome_err [simp]: "to_Err (failed_outcome e) = Some e"
  by (simp add: failed_outcome_def)

lemma try_candidates_serves:
  assumes "try_candidates errText ctx allowed prompt failures pvs = (out, l)" and "to_Err out = None"
  shows "\<exists>pre pv post. pvs = pre @ pv # post \<and> \<not> fails allowed prompt pv \<and> (\<forall>p \<in> set pre. fails allowed prompt p)
    \<and> out = served_by pv (length failures + length pre) allowed prompt \<and> l = Some (to_Route out)"
  using assms
proof (induction pvs arbitrary: ctx failures)
  case Nil
  then show ?case by auto
next
  case (Cons pv pvs)
  show ?case
  proof (cases "to_Err (pv_Complete pv allowed prompt)")
    case None
    then have "out = served_by pv (length failures) allowed prompt \<and> l = Some (to_Route out)"
      using Cons.prems by (auto simp: Let_def served_by_def split: list.splits option.splits)
    then show ?thesis using None by (intro exI [of _ "[]"]) auto
  next
    case (Some e)
    define fs where "fs = failures @ [pv_Name pv @ '': '' @ errText e]"
    have "try_candidates errText (tl (tl ctx)) allowed prompt fs pvs = (out, l)"
      using Cons.prems Some by (auto simp: Let_def fs_def split: list.splits option.splits)
    from Cons.IH [OF this Cons.prems(2)] obtain pre p post where "pvs = pre @ p # post" "\<not> fails allowed prompt p"
      "\<forall>p \<in> set pre. fails allowed prompt p" "out = served_by p (length fs + length pre) allowed prompt" "l = Some (to_Route out)"
      by blast
    then show ?thesis using Some by (intro exI [of _ "pv # pre"] exI [of _ p] exI [of _ post]) (simp add: fs_def)
  qed
qed

lemma accept_providers_names: "accept_providers ps seen = Inr qs \<Longrightarrow>
    distinct (map pv_Name qs) \<and> set (map pv_Name qs) \<inter> set seen = {} \<and> [] \<notin> set (map pv_Name qs)"
proof (induction ps arbitrary: seen qs)
  case (Cons p ps)
  then obtain pv qs' where "p = Some pv" "pv_Name pv \<noteq> []" "pv_Name pv \<notin> set seen"
    "accept_providers ps (pv_Name pv # seen) = Inr qs'" "qs = pv # qs'"
    by (auto split: option.splits if_splits sum.splits)
  then show ?case using Cons.IH [of "pv_Name pv # seen" qs'] by auto
qed simp

lemma accepted_set: "accept_providers ps seen = Inr qs \<Longrightarrow> Some p \<in> set ps \<longleftrightarrow> p \<in> set qs"
  by (induction ps arbitrary: seen qs) (auto split: option.splits if_splits sum.splits)

text \<open>The candidates of an order that is split in two, and who is among them.\<close>

lemma allowed_candidates_append: "\<exists>seen'. allowed_candidates ps seen (xs @ ys) = allowed_candidates ps seen xs @ allowed_candidates ps seen' ys"
proof (induction xs arbitrary: seen)
  case (Cons x xs)
  show ?case
    using Cons.IH [of seen] Cons.IH [of "x # seen"] by (auto split: option.split)
qed auto

lemma find_name: "distinct (map pv_Name ps) \<Longrightarrow> p \<in> set ps \<Longrightarrow> find (\<lambda>pv. pv_Name pv = pv_Name p) ps = Some p"
  by (induction ps) auto

lemma allowed_candidates_mem:
  "distinct (map pv_Name ps) \<Longrightarrow> p \<in> set ps \<Longrightarrow> pv_Name p \<in> set names \<Longrightarrow> pv_Name p \<notin> set seen \<Longrightarrow>
    p \<in> set (allowed_candidates ps seen names)"
proof (induction names arbitrary: seen)
  case (Cons n names)
  show ?case
  proof (cases "n = pv_Name p")
    case True
    then show ?thesis using Cons.prems find_name [of ps p] by simp
  next
    case False
    then have "pv_Name p \<in> set names" using Cons.prems by auto
    then show ?thesis using Cons False by (auto split: option.split)
  qed
qed simp

lemma append_before:
  "xs @ ys = pre @ pv # post \<Longrightarrow> pv \<notin> set xs \<Longrightarrow> set xs \<subseteq> set pre"
  by (auto simp: append_eq_append_conv2 append_eq_Cons_conv)

lemma earlier_candidate:
  assumes "allowed_candidates ps [] (before @ after) = pre @ pv # post" and "distinct (map pv_Name ps)"
    and "pv_Name pv \<notin> set before" and "p \<in> set ps" and "pv_Name p \<in> set before"
  shows "p \<in> set pre"
proof -
  obtain seen' where "allowed_candidates ps [] (before @ after) = allowed_candidates ps [] before @ allowed_candidates ps seen' after"
    using allowed_candidates_append by blast
  then have "set (allowed_candidates ps [] before) \<subseteq> set pre"
    using append_before assms(1,3) allowed_candidates_set [of pv ps "[]" before] by metis
  then show ?thesis using allowed_candidates_mem [of ps p before "[]"] assms by auto
qed

lemma completeRouted_fst: "fst (completeRouted errText ctx allowed prompt r) = fst (try_candidates errText ctx allowed prompt [] (route_candidates r allowed))"
  by (simp add: completeRouted_def split: prod.split option.split)

lemma router_served:
  assumes "to_Err (fst (completeRouted errText ctx allowed prompt r)) = None"
  obtains pre pv post where "route_candidates r allowed = pre @ pv # post" "\<not> fails allowed prompt pv"
    "\<forall>p \<in> set pre. fails allowed prompt p" "fst (completeRouted errText ctx allowed prompt r) = served_by pv (length pre) allowed prompt"
proof -
  obtain out l where t: "try_candidates errText ctx allowed prompt [] (route_candidates r allowed) = (out, l)" by fastforce
  then have out: "fst (completeRouted errText ctx allowed prompt r) = out"
    by (simp add: completeRouted_fst)
  then show ?thesis using try_candidates_serves [OF t] assms that by fastforce
qed

section \<open>A router with a failing backend\<close>

definition sample_busy :: provider where
  "sample_busy = (EchoProvider (Some ErrTurnBusy))\<lparr>pv_Name := ''busy''\<rparr>"

definition sample_providers :: "provider option list" where
  "sample_providers = [Some (EchoProvider None), Some sample_busy]"

definition sample_router :: router where
  "sample_router = \<lparr>rt_providers = [EchoProvider None, sample_busy], rt_last = no_route\<rparr>"

definition sample_routed :: application where
  "sample_routed = sample_app\<lparr>a_RoutePolicy := (a_RoutePolicy sample_app)\<lparr>rp_Backends := [''busy'', ''echo'']\<rparr>\<rparr>"

definition sample_prompt :: mailboxmessage where
  "sample_prompt = (sample_message ''claimed'')\<lparr>m_Payload := ''{\"text\":\"hi\"}''\<rparr>"

lemma sample_router_new: "NewRouterProvider sample_providers = Inr sample_router"
  by (simp add: NewRouterProvider_def sample_providers_def sample_router_def EchoProvider_def sample_busy_def)

lemma sample_prompt_text: "unmarshal_strings_ok [''text''] (m_Payload sample_prompt)"
  unfolding sample_prompt_def by code_simp

lemma sample_routed_outcome:
  "to_Err (fst (completeRouted errText [] [''busy'', ''echo''] prompt sample_router)) = None"
  by (simp add: completeRouted_fst route_candidates_def sample_router_def sample_busy_def EchoProvider_def Let_def)

section \<open>Properties\<close>

text \<open>C32. A live router is the reference "first candidate that works": with a context that is not
  cancelled a turn succeeds exactly when some candidate of the policy does not fail, and the answer
  is then that of the first such candidate, with the number of failed ones before it as the number
  of fallbacks.\<close>

theorem router_first_success:
  "fst (completeRouted errText [] allowed prompt r) =
     (case find (\<lambda>(_, pv). \<not> fails allowed prompt pv) (enumerate 0 (route_candidates r allowed)) of
        Some (n, pv) \<Rightarrow> served_by pv n allowed prompt
      | None \<Rightarrow> failed_outcome
          (if route_candidates r allowed = [] then ErrMsg ''route policy excludes every backend''
           else ErrMsg (''all routed providers failed: ''
             @ joinStr ''; '' (map (\<lambda>pv. pv_Name pv @ '': '' @ errText (the (to_Err (pv_Complete pv allowed prompt)))) (route_candidates r allowed)))))"
proof -
  have "fst (try_candidates errText [] allowed prompt fs pvs) =
     (case find (\<lambda>(_, pv). \<not> fails allowed prompt pv) (enumerate (length fs) pvs) of
        Some (n, pv) \<Rightarrow> served_by pv n allowed prompt
      | None \<Rightarrow> failed_outcome
          (if fs = [] \<and> pvs = [] then ErrMsg ''route policy excludes every backend''
           else ErrMsg (''all routed providers failed: ''
             @ joinStr ''; '' (fs @ map (\<lambda>pv. pv_Name pv @ '': '' @ errText (the (to_Err (pv_Complete pv allowed prompt)))) pvs))))" for fs pvs
    by (induction pvs arbitrary: fs) (auto simp: Let_def served_by_def split: option.split)
  from this [of "[]" "route_candidates r allowed"] show ?thesis by (simp only: completeRouted_fst list.size append_Nil simp_thms)
qed

text \<open>C16. A route policy confines a routed turn: when an application's policy names backends, a turn
  that a router serves is served by a provider of the router that the policy names, and every
  provider the policy names before it was asked and failed.\<close>

theorem route_policy_confines:
  assumes "NewRouterProvider ps = Inr r" and "app s i = Some a" and "rp_Backends (a_RoutePolicy a) \<noteq> []"
    and "gget (s_Prepared (sv_state s)) (m_MessageID m) = None"
    and "to_Err (turn_outcome (router_provider errText ctx r) i m s) = None"
  shows "\<exists>pv n before after. Some pv \<in> set ps
    \<and> turn_outcome (router_provider errText ctx r) i m s = served_by pv n (rp_Backends (a_RoutePolicy a)) (string_field ''text'' (m_Payload m))
    \<and> rp_Backends (a_RoutePolicy a) = before @ pv_Name pv # after
    \<and> (\<forall>p. Some p \<in> set ps \<and> pv_Name p \<in> set before \<longrightarrow>
         fails (rp_Backends (a_RoutePolicy a)) (string_field ''text'' (m_Payload m)) p)"
proof -
  define bs where "bs = rp_Backends (a_RoutePolicy a)"
  define prompt where "prompt = string_field ''text'' (m_Payload m)"
  have r: "accept_providers ps [] = Inr (rt_providers r)"
    using assms(1) by (auto simp: NewRouterProvider_def split: if_splits sum.splits)
  have out: "turn_outcome (router_provider errText ctx r) i m s = fst (completeRouted errText ctx bs prompt r)"
    using assms(2,4,5) by (auto simp: turn_outcome_def run_provider_def router_provider_def Let_def bs_def prompt_def split: if_splits)
  then obtain pre pv post where c: "route_candidates r bs = pre @ pv # post" "\<forall>p \<in> set pre. fails bs prompt p"
    and sv: "fst (completeRouted errText ctx bs prompt r) = served_by pv (length pre) bs prompt"
    using assms(5) router_served by metis
  have ac: "allowed_candidates (rt_providers r) [] bs = pre @ pv # post"
    using c(1) assms(3) by (simp add: route_candidates_def bs_def)
  then have pv: "pv \<in> set (rt_providers r)" "pv_Name pv \<in> set bs"
    using allowed_candidates_set [of pv "rt_providers r" "[]" bs] by auto
  obtain before after where bs: "bs = before @ pv_Name pv # after" "pv_Name pv \<notin> set before"
    using split_list_first [OF pv(2)] by blast
  have given: "Some p \<in> set ps \<longleftrightarrow> p \<in> set (rt_providers r)" for p
    using accepted_set [OF r] by blast
  have "\<forall>p. Some p \<in> set ps \<and> pv_Name p \<in> set before \<longrightarrow> fails bs prompt p"
    using earlier_candidate [of "rt_providers r" before "pv_Name pv # after" pre pv post] ac bs c(2)
      accept_providers_names [OF r] given by auto
  then show ?thesis using given pv out sv bs(1) unfolding bs_def prompt_def by metis
qed

theorem route_policy_confines_witness:
  "\<exists>pv n before after. Some pv \<in> set sample_providers
    \<and> turn_outcome (router_provider (\<lambda>_. ''e'') [] sample_router) ''a1'' sample_prompt (put_app ''a1'' sample_routed sample_supervisor)
        = served_by pv n [''busy'', ''echo''] (string_field ''text'' (m_Payload sample_prompt))
    \<and> [''busy'', ''echo''] = before @ pv_Name pv # after
    \<and> (\<forall>p. Some p \<in> set sample_providers \<and> pv_Name p \<in> set before \<longrightarrow>
         fails [''busy'', ''echo''] (string_field ''text'' (m_Payload sample_prompt)) p)"
proof -
  define s where "s = put_app ''a1'' sample_routed sample_supervisor"
  have b: "rp_Backends (a_RoutePolicy sample_routed) = [''busy'', ''echo'']" by (simp add: sample_routed_def)
  have s: "app s ''a1'' = Some sample_routed" "gget (s_Prepared (sv_state s)) (m_MessageID sample_prompt) = None"
    by (simp_all add: s_def sample_state_def empty_state_def)
  have "to_Err (turn_outcome (router_provider (\<lambda>_. ''e'') [] sample_router) ''a1'' sample_prompt s) = None"
    using s b sample_prompt_text
    by (simp add: turn_outcome_def run_provider_def router_provider_def Let_def sample_routed_outcome)
  from route_policy_confines [OF sample_router_new s(1) _ s(2) this] show ?thesis by (simp add: b s_def)
qed

end
