(* ===== verification/System.thy ===== *)
theory System
  imports Gateway Hostfs Witness Wake Router Authority
begin

text \<open>
  The supervisor as a whole: a state machine whose steps are the operations of all components,
  called with any arguments and in any order, the moves of the kernel between them, and a crash
  followed by a restart. \<open>step K n w w'\<close> is one step that draws at most \<open>n\<close> sequence numbers,
  \<open>run K n w w'\<close> a sequence of steps. A fresh application id is the guard of the two steps that
  draw one, valid UTF-8 of the identifiers the guard of an inbound delivery (they come from decoded
  JSON). The invariant \<open>sup_ok\<close> holds in every state that a run reaches from an opened
  supervisor, and every durable order relates the database before a run to the database after it.
\<close>

section \<open>Restart as a sequence of moves\<close>

lemma quiet_kernel_id:
  assumes "gget (s_Applications st) i = Some a"
  shows "quiet_le st (st\<lparr>s_NextKernelID := n, s_Applications := gput i (a\<lparr>a_KernelID := n\<rparr>) (s_Applications st)\<rparr>)"
proof -
  have "app_le a (a\<lparr>a_KernelID := n\<rparr>)" by (simp add: app_le_def dead_def spent_def)
  then have "gmap_le app_le (s_Applications st) (gput i (a\<lparr>a_KernelID := n\<rparr>) (s_Applications st))"
    by (intro gmap_le_gput) (simp_all add: assms)
  then show ?thesis by (simp add: quiet_parts distinct_update)
qed

lemma quiet_assign_kernel_ids: "quiet_le st (assign_kernel_ids is st)"
proof (induction "is" arbitrary: st)
  case (Cons i "is")
  show ?case
  proof (cases "gget (s_Applications st) i")
    case (Some a)
    show ?thesis
      using Cons quiet_le_trans [OF quiet_kernel_id [OF Some] Cons] by (simp add: Some Let_def)
  qed (simp add: Cons)
qed simp

lemma recover_mailbox_le: "list_all2 message_le ms (recover_mailbox st i ms)"
  by (auto simp: recover_mailbox_def intro!: all2_map_message unclaim_le split: option.split)

lemma quiet_recover: "quiet_le st (recover_mailboxes st)"
proof -
  have "gget (map (\<lambda>(i, ms). (i, recover_mailbox st i ms)) m) i = map_option (recover_mailbox st i) (gget m i)" for m i
    by (induction m) auto
  then have "mailbox (recover_mailboxes st) i = (case gget (s_Mailbox st) i of None \<Rightarrow> [] | Some ms \<Rightarrow> recover_mailbox st i ms)" for i
    by (simp add: mailbox_def recover_mailboxes_def split: option.split)
  then have "list_all2 message_le (mailbox st i) (mailbox (recover_mailboxes st) i)" for i
    using recover_mailbox_le by (auto simp: mailbox_def split: option.split)
  moreover have "map fst (s_Mailbox (recover_mailboxes st)) = map fst (s_Mailbox st)"
    by (auto simp: recover_mailboxes_def)
  ultimately have "mail_quiet st (recover_mailboxes st)" by (simp add: mail_quiet_def)
  then show ?thesis
    by (simp add: quiet_le_def order_parts gmap_le_refl bounded_parts mount_ids_def recover_mailboxes_def)
qed

lemma evo_recover_generations:
  "evo n s0 s \<Longrightarrow> recover_generations now is s = Inr t \<Longrightarrow> n + length is \<le> m \<Longrightarrow> evo m s0 t"
proof (induction now "is" s arbitrary: n rule: recover_generations.induct)
  case (1 now s)
  then show ?case by (auto intro: evo_mono)
next
  case (2 now i "is" s)
  show ?case
  proof (cases "app s i")
    case None
    then show ?thesis using 2(1) [OF None 2(4)] 2(5,6) by simp
  next
    case (Some a)
    let ?g = "if a_Generation a = 0 then 1 else a_Generation a + 1"
    have "evo n s0 (put_app i (a\<lparr>a_Generation := ?g\<rparr>) s)"
      by (rule evo_put_app [OF 2(4)]) (use Some in \<open>simp add: app_le_def dead_def spent_def\<close>)
    then have e: "evo (n + 1) s0 (auditLocked now ''supervisor'' i ''application.recover'' i ''allow'' ''new worker incarnation''
        (put_app i (a\<lparr>a_Generation := ?g\<rparr>) s))" by (intro evo_auditI) simp_all
    show ?thesis
    proof (cases "a_State a = ''tombstoned''")
      case True
      then show ?thesis using 2(2) [OF Some True 2(4)] 2(5,6) Some by simp
    next
      case False
      then show ?thesis using 2(3) [OF Some False _ e] 2(5,6) Some by (simp split: if_splits)
    qed
  qed
qed

lemma rescan_durable: "rescanSourced (durable st) = rescanSourced st"
proof -
  have "rescan_message (durable st) = rescan_message st"
    by (intro ext) (simp add: rescan_message_def message_source_def Let_def)
  then show ?thesis by (simp add: rescanSourced_def)
qed

lemma assign_kernel_ids_keys: "map fst (s_Applications (assign_kernel_ids is st)) = map fst (s_Applications st)"
proof (induction "is" st rule: assign_kernel_ids.induct)
  case (2 i "is" st)
  have "map fst (gput i v m) = map fst m" if "gget m i = Some w" for v w and m :: "application gomap"
    using that by (induction m) auto
  then show ?case using 2 by (simp add: Let_def split: option.split)
qed simp

lemma evo_restart:
  assumes "restart now s = Inr t"
  shows "evo (length (s_Applications (sv_committed s))) s t"
proof -
  define st where "st = assign_kernel_ids (map fst (s_Applications (sv_committed s))) (sv_committed s)"
  define n where "n = length (s_Applications (sv_committed s))"
  define opened where "opened = \<lparr>sv_state = recover_mailboxes st, sv_policy = sv_policy s, sv_previousHash = last_hash st,
      sv_committed = durable st, sv_contexts = sv_contexts s, sv_authorizer = cedarPolicyFromCapabilitySet (sv_policy s),
      sv_kernelApps = [], sv_kernelSrcs = [], sv_lastClaim = [], sv_lastPrefix = [], sv_sourced = rescanSourced st,
      sv_inflight = [], sv_turnConcurrency = 0, sv_dbq = sv_dbq s\<rparr>"
  obtain s1 where g: "recover_generations now (map fst (s_Applications st)) opened = Inr s1" and p: "persistLocked s1 = (None, t)"
    using assms unfolding restart_def load_def Let_def option.case st_def [symmetric] opened_def [symmetric]
    by (auto split: option.splits sum.splits prod.splits)
  let ?r = "restoreLocked s"
  let ?r1 = "?r\<lparr>sv_state := st, sv_dbq := []\<rparr>"
  let ?r2 = "restoreLocked (snd (persistLocked ?r1))"
  have r1: "evo 0 s ?r1"
    by (rule evo.change [OF evo.restore [OF evo.start]]) (simp_all add: restoreLocked_def st_def quiet_assign_kernel_ids)
  have r2: "evo 0 s ?r2" by (rule evo.restore [OF evo.persist [OF r1]])
  have f: "sv_committed ?r2 = durable st" "sv_state ?r2 = durable st" "sv_previousHash ?r2 = last_hash st"
    "sv_sourced ?r2 = rescanSourced st"
    by (simp_all add: persistLocked_def restoreLocked_def rescan_durable)
  have "evo 0 s opened"
    by (rule evo.change [OF r2], unfold f) (simp_all add: opened_def quiet_le_trans [OF durable_quiet(2) quiet_recover])
  moreover have "length (map fst (s_Applications st)) = n"
    using assign_kernel_ids_keys unfolding st_def n_def by (metis length_map)
  ultimately have "evo n s s1" using evo_recover_generations [OF _ g] by simp
  then show ?thesis using evo_persisted [OF _ p] by (simp add: n_def)
qed

section \<open>Steps\<close>

text \<open>A fresh id for a new application.\<close>

definition fresh_id :: "string option \<Rightarrow> supervisor \<Rightarrow> bool" where
  "fresh_id rnd s \<longleftrightarrow>
     (case rnd of None \<Rightarrow> True | Some bs \<Rightarrow> app s (uuid bs) = None \<and> mailbox (sv_state s) (uuid bs) = [])"

inductive step :: "'k kernel \<Rightarrow> nat \<Rightarrow> supervisor \<times> 'k \<Rightarrow> supervisor \<times> 'k \<Rightarrow> bool" for K where
  create: "fresh_id rnd s \<Longrightarrow> step K 1 (s, k) (snd (CreateApplication now rnd ctxrnd princ owner wake s), k)"
| fork: "fresh_id rnd s \<Longrightarrow> step K 1 (s, k) (snd (ForkApplication now rnd ctxrnd princ parent owner wake s), k)"
| contextPages: "step K 0 (s, k) (snd (ContextPages i s), k)"
| auditPages: "step K 1 (s, k) (snd (AuditContextPages now princ i s), k)"
| concurrency: "step K 0 (s, k) (snd (SetTurnConcurrency c s), k)"
| retire: "step K 1 (s, k) (snd (RetireApplication now princ i s), k)"
| routePolicy: "step K 1 (s, k) (snd (SetRoutePolicy now princ i backends s), k)"
| setState: "step K 1 (s, k) (snd (SetApplicationState now princ i st s), k)"
| tokenLimit: "step K 1 (s, k) (snd (SetTokenLimit now princ i limit s), k)"
| enqueue: "step K 2 (s, k) (snd (Enqueue now princ i key payload s), k)"
| claim: "step K 1 (s, k) (snd (ClaimMailbox now princ i s), k)"
| ack: "step K 1 (s, k) (snd (AckMailbox now princ i mid s), k)"
| check: "step K 1 (s, k) (snd (checkToken verify now nanos princ aid object action token s), k)"
| revoke: "step K 1 (s, k) (snd (RevokeCapabilityToken verify now nanos princ tok reason s), k)"
| cosign: "step K 1 (s, k) (snd (RecordCosignature verify now princ cp s), k)"
| export: "step K 1 (s, k) (snd (exportApplication now rnd princ i body confirm escalate requestID s), k)"
| settle: "step K 1 (s, k) (snd (SettleConfirmation now princ rid approve s), k)"
| createChannel: "step K 1 (s, k) (snd (CreateChannel now princ ch kind s), k)"
| revokeChannel: "step K 1 (s, k) (snd (RevokeChannel now princ ch s), k)"
| bindConversation: "step K 1 (s, k) (snd (BindConversation now princ ch ex i s), k)"
| inbound: "utf8_ok ch \<Longrightarrow> utf8_ok ex \<Longrightarrow> step K 2 (s, k) (snd (DeliverInbound now ch ex seq payload s), k)"
| reply: "step K 2 (s, k) (snd (Reply now princ i mid s), k)"
| claimOutbox: "step K 0 (s, k) (snd (ClaimOutbox ch ex s), k)"
| ackOutbox: "step K 1 (s, k) (snd (AckOutbox now princ entry receipt s), k)"
| mount: "step K 2 (s, k) (snd (MountHostfs now princ i path mode limits ttl s), k)"
| unmount: "step K 1 (s, k) (snd (UnmountHostfs now princ mid s), k)"
| exportArtifact: "step K 3 (s, k) (snd (ExportArtifact now princ i key payload s), k)"
| commitImport: "step K 2 (s, k) (snd (CommitImport now princ i key payload s), k)"
| importArtifact: "step K 1 (s, k) (snd (ImportArtifact now princ i key payload s), k)"
| addBinding: "step K 1 (s, k) (snd (AddLSFSBinding now princ i bid ref after s), k)"
| enableBinding: "step K 1 (s, k) (snd (SetLSFSBindingEnabled now princ i bid enabled s), k)"
| addTimer: "step K 1 (s, k) (snd (AddTimer now princ i tid delay interval payload s), k)"
| timers: "step K (3 * length (s_Timers (sv_state s))) (s, k) (snd (deliverTimers now s), k)"
| lsfs: "step K (128 * length (s_Bindings (sv_state s))) (s, k) (snd (deliverLSFS ko now (s, k)))"
| attach: "step K (drain_cost 0 (application_ids s) s) (s, k) (snd (attachKernel K now (s, k)))"
| drain: "deliverKernel K now fuel (s, k) = Some (r, w) \<Longrightarrow> step K (drain_cost fuel (application_ids s) s) (s, k) w"
| snapshot: "step K 0 (s, k) (snapshotKernel K (s, k))"
| claimTurn: "step K 1 (s, k) (snd (claimTurn now s), k)"
| turn: "step K 3 (s, k) (snd (executeTurn now stopped pv i m s), k)"
| kernelMove: "step K 0 (s, k) (s, k')"
| crash: "restart now s = Inr t \<Longrightarrow> step K (length (s_Applications (sv_committed s))) (s, k) (t, k')"

inductive run :: "'k kernel \<Rightarrow> nat \<Rightarrow> supervisor \<times> 'k \<Rightarrow> supervisor \<times> 'k \<Rightarrow> bool" for K where
  stay: "run K 0 w w"
| move: "run K n w w' \<Longrightarrow> step K m w' w'' \<Longrightarrow> run K (n + m) w w''"

inductive_cases step_cases: "step K n w w'"

section \<open>The invariant\<close>

definition ahead_ok :: "supervisor \<Rightarrow> bool" where
  "ahead_ok s \<longleftrightarrow>
     appsOrder.ahead s \<and> resultsOrder.ahead s \<and> revokedOrder.ahead s \<and> mailboxOrder.ahead s \<and> conversationsOrder.ahead s
     \<and> channelsOrder.ahead s \<and> bindingsOrder.ahead s \<and> mountsOrder.ahead s \<and> auditOrder.ahead s"

definition sup_ok :: "supervisor \<Rightarrow> bool" where
  "sup_ok s \<longleftrightarrow>
     audit_inv s \<and> capacity_inv s \<and> ids_inv s \<and> mount_inv s \<and> bounded_inv s \<and> source_inv s \<and> ahead_ok s"

text \<open>Everything the database promises never to take back.\<close>

definition db_le :: "supervisorState \<Rightarrow> supervisorState \<Rightarrow> bool" where
  "db_le a b \<longleftrightarrow>
     apps_le a b \<and> results_le a b \<and> revoked_le a b \<and> mailbox_le a b \<and> conversations_le a b
     \<and> channels_le a b \<and> bindings_le a b \<and> mounts_le a b \<and> audit_le a b"

lemmas orders_evo = appsOrder.evo_le resultsOrder.evo_le revokedOrder.evo_le mailboxOrder.evo_le conversationsOrder.evo_le
  channelsOrder.evo_le bindingsOrder.evo_le mountsOrder.evo_le auditOrder.evo_le

lemma evo_ahead_ok:
  assumes "evo n s t" and "ahead_ok s"
  shows "ahead_ok t \<and> db_le (sv_committed s) (sv_committed t)"
  using assms(2) orders_evo [OF assms(1)] by (simp add: ahead_ok_def db_le_def)

lemma evo_sup_ok:
  assumes "evo n s t" and "sup_ok s" and "top_sequence s + n < 2 ^ 64"
  shows "sup_ok t"
  using assms evo_audit_inv [OF assms(1)] evo_capacity [OF assms(1)] evo_ids [OF assms(1)] evo_mounts [OF assms(1)]
    evo_bounded [OF assms(1)] evo_sources [OF assms(1)] evo_ahead_ok [OF assms(1)]
  by (simp add: sup_ok_def)

text \<open>A step from a good state is a sequence of moves.\<close>

lemma step_evo:
  assumes "step K n w w'" and "sup_ok (fst w)" and "top_sequence (fst w) + n < 2 ^ 64"
  shows "evo n (fst w) (fst w')"
  using assms
proof (induction rule: step.induct)
  case (create rnd s k now ctxrnd princ owner wake)
  then have "\<And>bs. rnd = Some bs \<Longrightarrow> app s (uuid bs) = None \<and> mailbox (sv_state s) (uuid bs) = []" by (simp add: fresh_id_def)
  from evo_CreateApplication [OF this] show ?case by simp
next
  case (fork rnd s k now ctxrnd princ parent owner wake)
  then have "\<And>bs. rnd = Some bs \<Longrightarrow> app s (uuid bs) = None \<and> mailbox (sv_state s) (uuid bs) = []" by (simp add: fresh_id_def)
  from evo_ForkApplication [OF this] show ?case by simp
next
  case (mount s k now princ i path mode limits ttl)
  then have "mount_fresh s" by (intro mount_fresh) (simp_all add: sup_ok_def top_sequence_def)
  then show ?case by (simp add: evo_MountHostfs)
next
  case (unmount s k now princ mid)
  then show ?case using evo_UnmountHostfs [of s now princ mid] by (simp add: sup_ok_def bounded_inv_def)
next
  case (attach s k now)
  then show ?case by (simp add: sup_ok_def bounded_inv_def bounded_def evo_attachKernel)
next
  case (drain now fuel s k r w)
  obtain s' k' where "w = (s', k')" by fastforce
  then show ?case using drain evo_deliverKernel [of s K now fuel k r s' k'] by (simp add: sup_ok_def bounded_inv_def bounded_def)
qed (simp_all only: fst_conv audited evo.start evo_restart)

lemma run_evo:
  assumes "run K n w w'" and "sup_ok (fst w)" and "top_sequence (fst w) + n < 2 ^ 64"
  shows "evo n (fst w) (fst w')"
  using assms
proof (induction rule: run.induct)
  case (move n w w' m w'')
  then have e: "evo n (fst w) (fst w')" by simp
  have ok: "sup_ok (fst w')" "top_sequence (fst w') + m < 2 ^ 64"
    using evo_sup_ok [OF e] evo_audit_inv [OF e] move by (simp_all add: sup_ok_def)
  show ?case using evo_trans [OF step_evo [OF move(2) ok] e] .
qed (rule evo.start)

lemma run_sup_ok: "run K n w w' \<Longrightarrow> sup_ok (fst w) \<Longrightarrow> top_sequence (fst w) + n < 2 ^ 64 \<Longrightarrow> sup_ok (fst w')"
  using run_evo evo_sup_ok by blast

lemma run_db_le:
  "run K n w w' \<Longrightarrow> sup_ok (fst w) \<Longrightarrow> top_sequence (fst w) + n < 2 ^ 64 \<Longrightarrow> db_le (sv_committed (fst w)) (sv_committed (fst w'))"
  using run_evo evo_ahead_ok unfolding sup_ok_def by blast

section \<open>The opened supervisor\<close>

lemma persist_written:
  assumes "persistLocked s = (None, s')"
  obtains q where "s' = s\<lparr>sv_dbq := q, sv_committed := durable (sv_state s)\<rparr>"
  using assms by (cases s rule: persistLocked_cases) auto

lemma load_fresh:
  assumes "load now policy None ctxs dbq = Inr s"
  shows "sv_state s = empty_state" and "sv_committed s = durable empty_state" and "sv_previousHash s = []" and "sv_sourced s = []"
  using assms
  by (auto simp: load_def Let_def empty_state_def recover_mailboxes_def VerifyAudit_def rescanSourced_def last_hash_def
      split: option.splits prod.splits elim!: persist_written)

lemma fresh_sup_ok:
  assumes "load now policy None ctxs dbq = Inr s"
  shows "sup_ok s" and "top_sequence s = 0"
proof -
  note f = load_fresh [OF assms]
  have "chain_ok empty_state" "cap_ok empty_state" "ids_ok empty_state" "mount_ids empty_state" "bounded empty_state"
    by (simp_all add: chain_ok_def cap_ok_def ids_ok_def mount_ids_def bounded_parts empty_state_def mailbox_def all_messages_def)
  then have "audit_inv s" "capacity_inv s" "ids_inv s" "mount_inv s" "bounded_inv s" "source_inv s"
    using f by (simp_all add: audit_inv_def capacity_inv_def ids_inv_def mount_inv_def bounded_inv_def source_inv_def
        last_hash_def empty_state_def)
  moreover have "ahead_ok s"
    unfolding ahead_ok_def appsOrder.ahead_def resultsOrder.ahead_def revokedOrder.ahead_def mailboxOrder.ahead_def
      conversationsOrder.ahead_def channelsOrder.ahead_def bindingsOrder.ahead_def mountsOrder.ahead_def auditOrder.ahead_def f
    by (simp add: order_parts gmap_le_refl audit_le_def)
  ultimately show "sup_ok s" by (simp add: sup_ok_def)
  show "top_sequence s = 0" using f by (simp add: top_sequence_def empty_state_def)
qed

end
