(* ===== verification/Runs.thy ===== *)
theory Runs
  imports System
begin

text \<open>
  What holds along the runs of the whole supervisor (\<open>System\<close>): the invariants of every reachable
  state, the decisions that no later operation, failed write or crash takes back, and a concrete
  run (an application, a message and its turn, a conversation and its reply) on which they are
  instantiated.
\<close>

section \<open>Reachable states\<close>

definition reachable :: "'k kernel \<Rightarrow> nat \<Rightarrow> supervisor \<times> 'k \<Rightarrow> bool" where
  "reachable K n w \<longleftrightarrow>
     (\<exists>now policy ctxs dbq s k. load now policy None ctxs dbq = Inr s \<and> run K n (s, k) w)"

lemma reachable_ok:
  assumes "reachable K n (s, k)" and "n < 2 ^ 64"
  shows "sup_ok s" and "top_sequence s \<le> n"
proof -
  obtain now policy ctxs dbq s0 k0 where r: "load now policy None ctxs dbq = Inr s0" "run K n (s0, k0) (s, k)"
    using assms(1) unfolding reachable_def by blast
  note f = fresh_sup_ok [OF r(1)]
  have e: "evo n s0 s" using run_evo [OF r(2)] f assms(2) by simp
  show "sup_ok s" using run_sup_ok [OF r(2)] f assms(2) by simp
  show "top_sequence s \<le> n" using evo_audit_inv [OF e] f assms(2) by (simp add: sup_ok_def)
qed

lemma reachable_run:
  assumes "reachable K n (s, k)" and "run K m (s, k) (t, l)" and "n + m < 2 ^ 64"
  shows "sup_ok s" and "sup_ok t" and "evo m s t" and "db_le (sv_committed s) (sv_committed t)"
proof -
  have s: "sup_ok s" "top_sequence s + m < 2 ^ 64" using reachable_ok [OF assms(1)] assms(3) by simp_all
  then show "sup_ok s" "sup_ok t" "evo m s t" "db_le (sv_committed s) (sv_committed t)"
    using run_sup_ok [OF assms(2)] run_evo [OF assms(2)] run_db_le [OF assms(2)] by simp_all
qed

text \<open>The live state of a later moment is ahead of the database of an earlier one.\<close>

lemma ahead_parts:
  assumes "sup_ok s"
  shows "apps_le (sv_committed s) (sv_state s)" "results_le (sv_committed s) (sv_state s)"
    "revoked_le (sv_committed s) (sv_state s)" "mailbox_le (sv_committed s) (sv_state s)"
    "channels_le (sv_committed s) (sv_state s)" "mounts_le (sv_committed s) (sv_state s)"
  using assms by (simp_all add: sup_ok_def ahead_ok_def appsOrder.ahead_def resultsOrder.ahead_def revokedOrder.ahead_def
      mailboxOrder.ahead_def channelsOrder.ahead_def mountsOrder.ahead_def)

lemma live_after:
  assumes "reachable K n (s, k)" and "run K m (s, k) (t, l)" and "n + m < 2 ^ 64"
  shows "apps_le (sv_committed s) (sv_state t)" "results_le (sv_committed s) (sv_state t)"
    "revoked_le (sv_committed s) (sv_state t)" "mailbox_le (sv_committed s) (sv_state t)"
    "channels_le (sv_committed s) (sv_state t)" "mounts_le (sv_committed s) (sv_state t)"
  using reachable_run(4) [OF assms] ahead_parts [OF reachable_run(2) [OF assms]] unfolding db_le_def
  by (blast intro: apps_le_trans results_le_trans revoked_le_trans mailbox_le_trans channels_le_trans mounts_le_trans)+

lemma restart_errors:
  assumes "sup_ok s" and "restart now s = Inl e"
  shows "e = ErrStorage \<or> e = ErrMsg ''application generation exhausted''"
proof -
  let ?st = "assign_kernel_ids (map fst (s_Applications (sv_committed s))) (sv_committed s)"
  have g: "recover_generations now is u = Inl e' \<Longrightarrow> e' = ErrMsg ''application generation exhausted''" for "is" u e'
    by (induction now "is" u rule: recover_generations.induct) (auto split: option.splits if_splits)
  have p: "persistLocked u = (Some e', u') \<Longrightarrow> e' = ErrStorage" for u e' u'
    by (cases u rule: persistLocked_cases) auto
  have "s_Audit ?st = s_Audit (sv_committed s)" using quiet_assign_kernel_ids by (simp add: quiet_le_def)
  then have "VerifyAudit (s_Audit ?st) = None"
    using assms(1) by (simp add: sup_ok_def audit_inv_def chain_ok_def VerifyAudit_def)
  then show ?thesis using assms(2) g p unfolding restart_def load_def Let_def option.case
    by (fastforce split: sum.splits option.splits prod.splits)
qed

lemma reachable_step:
  assumes "reachable K n w" and "step K m w w'"
  shows "reachable K (n + m) w'"
  using assms unfolding reachable_def by (blast intro: run.move)

lemma reachable_start: "load now policy None ctxs dbq = Inr s \<Longrightarrow> reachable K 0 (s, k)"
  unfolding reachable_def by (blast intro: run.stay)

section \<open>Invariants of every reachable state\<close>


text \<open>C12. The mailboxes never hold more undelivered messages or bytes than the limits, per application
  and in total.\<close>

theorem mailbox_within_capacity:
  assumes "reachable K n (s, k)" and "n < 2 ^ 64"
  shows "charged_count (mailbox (sv_state s) i) \<le> maxApplicationMailboxMessages
    \<and> charged_bytes (mailbox (sv_state s) i) \<le> maxApplicationMailboxBytes
    \<and> charged_count (all_messages (sv_state s)) \<le> maxSupervisorMailboxMessages
    \<and> charged_bytes (all_messages (sv_state s)) \<le> maxSupervisorMailboxBytes"
  using reachable_ok [OF assms] by (simp add: sup_ok_def capacity_inv_def cap_ok_def)

text \<open>C25. A message id names one message: two messages with the same id are in the same mailbox and
  are the same message, and no mailbox holds an idempotency key twice.\<close>

theorem message_identity:
  assumes "reachable K n (s, k)" and "n < 2 ^ 64"
    and "p < length (mailbox (sv_state s) i)" and "q < length (mailbox (sv_state s) j)"
  shows "(m_MessageID (mailbox (sv_state s) i ! p) = m_MessageID (mailbox (sv_state s) j ! q) \<longrightarrow> i = j \<and> p = q)
    \<and> (i = j \<and> m_IdempotencyKey (mailbox (sv_state s) i ! p) = m_IdempotencyKey (mailbox (sv_state s) j ! q) \<longrightarrow> p = q)"
proof -
  let ?m = "mailbox (sv_state s) i ! p" and ?n = "mailbox (sv_state s) j ! q"
  have ids: "ids_ok (sv_state s)" using reachable_ok [OF assms(1,2)] by (simp add: sup_ok_def ids_inv_def)
  have mem: "?m \<in> set (mailbox (sv_state s) i)" "?n \<in> set (mailbox (sv_state s) j)" using assms(3,4) by simp_all
  have d: "distinct (map m_Sequence (mailbox (sv_state s) i))" "distinct (map m_IdempotencyKey (mailbox (sv_state s) i))"
    using ids by (simp_all add: ids_ok_def)
  have "i = j \<and> p = q" if "m_MessageID ?m = m_MessageID ?n"
  proof -
    have "m_MessageID ?m = ''msg-'' @ dec (unat (m_Sequence ?m))" "m_MessageID ?n = ''msg-'' @ dec (unat (m_Sequence ?n))"
      using ids mem by (simp_all add: ids_ok_def)
    then have "unat (m_Sequence ?m) = unat (m_Sequence ?n)" using that by simp
    then have seq: "m_Sequence ?m = m_Sequence ?n" by (rule unsigned_word_eqI)
    then have ij: "i = j" using ids mem unfolding ids_ok_def by blast
    then show ?thesis using d(1) seq assms(3,4) by (simp add: distinct_conv_nth) metis
  qed
  moreover have "p = q" if "i = j" "m_IdempotencyKey ?m = m_IdempotencyKey ?n"
    using d(2) that assms(3,4) by (simp add: distinct_conv_nth) metis
  ultimately show ?thesis by blast
qed

text \<open>C26. The stored records keep their form: histories stay within their limits, every mount has a
  canonical absolute root, an application id, an outbox key and a transfer key occur once.\<close>

theorem records_wellformed:
  assumes "reachable K n (s, k)" and "n < 2 ^ 64"
  shows "length (s_RouteRecords (sv_state s)) \<le> 512 \<and> length (s_RevokedTokens (sv_state s)) \<le> maxRevokedTokens
    \<and> length (s_WitnessCheckpoints (sv_state s)) \<le> 256 \<and> length (s_Transfers (sv_state s)) \<le> 256
    \<and> (\<forall>m \<in> snd ` set (s_HostfsMounts (sv_state s)). cleanAbs (hm_GuestPath m))
    \<and> distinct (map ob_IdempotencyKey (s_Outbox (sv_state s)))
    \<and> distinct (map (\<lambda>t. (at_ApplicationID t, at_IdempotencyKey t)) (s_Transfers (sv_state s)))
    \<and> distinct (map fst (s_Applications (sv_state s)))"
proof -
  have "(\<lambda>t. (at_ApplicationID t, at_IdempotencyKey t)) = transfer_key"
    by (rule ext) (simp add: transfer_key_def)
  moreover have "bounded (sv_state s)" using reachable_ok [OF assms] by (simp add: sup_ok_def bounded_inv_def)
  ultimately show ?thesis
    by (auto simp: bounded_parts maxRouteRecords_def maxWitnessCheckpoints_def maxTransfers_def)
qed

text \<open>C5. The audit log is append-only: what the database holds at one moment is a prefix of what it
  holds at every later one.\<close>

theorem audit_append_only:
  assumes "reachable K n (s, k)" and "run K m (s, k) (t, l)" and "n + m < 2 ^ 64"
  shows "\<exists>rs. s_Audit (sv_committed t) = s_Audit (sv_committed s) @ rs"
  using reachable_run(4) [OF assms] by (simp add: db_le_def audit_le_def)

text \<open>C15. A turn's result is final: once in the database it reads the same in every later state, and
  finishing the turn again changes nothing but the in-flight mark, so no turn is charged twice.\<close>

theorem result_final:
  assumes "reachable K n (s, k)" and "run K m (s, k) (t, l)" and "n + m < 2 ^ 64"
    and "gget (s_Results (sv_committed s)) (m_MessageID msg) = Some r" and "app t i = Some a"
  shows "Result t (tr_ApplicationID r) (m_MessageID msg) = Inr r
    \<and> finishTurn now i msg body usage route err t = (Inr (), clearInflight i t)"
proof -
  have "gget (s_Results (sv_state t)) (m_MessageID msg) = Some r"
    using live_after(2) [OF assms(1-3)] assms(4) by (simp add: results_le_def gmap_le_def)
  then show ?thesis using finishTurn_done [of t msg i] assms(5) by (simp add: Result_def)
qed

section \<open>Decisions that are never taken back\<close>

lemma persist_failE: "persist_fail e s = (Inr v, s') \<Longrightarrow> P"
  by (cases s rule: persistLocked_cases) (auto simp: persist_fail_def)

lemma enqueueLocked_draws:
  assumes "enqueueLocked now princ i key payload s = (Inr m, t)" and "find_key key (mailbox (sv_state s) i) = None"
  shows "s_NextSequence (sv_state t) = s_NextSequence (sv_state s) + 1 + 1"
  using assms by (simp add: enqueueLocked_def Let_def stage_message_def split: option.split_asm if_split_asm) auto

lemma enqueue_durable:
  assumes "Enqueue now princ i key payload s = (Inr msg, s1)" and "find_key key (mailbox (sv_state s) i) = None"
  shows "msg \<in> set (mailbox (sv_committed s1) i) \<and> m_IdempotencyKey msg = key \<and> m_Payload msg = compact False False payload"
proof -
  obtain r t where q: "enqueueLocked now princ i key payload s = (r, t)" by fastforce
  obtain m1 where r: "r = Inr m1"
    using assms(1) unfolding Enqueue_def q prod.case by (cases r) (simp_all split: if_split_asm)
  note q1 = q [unfolded r]
  have "s_NextSequence (sv_state t) \<noteq> s_NextSequence (sv_state s)"
    unfolding enqueueLocked_draws [OF q1 assms(2)] by simp
  then have "persist_return m1 t = (Inr msg, s1)"
    using assms(1) unfolding Enqueue_def q1 prod.case sum.case by (simp split: if_split_asm)
  from persist_return_Inr [OF this] show ?thesis using enqueueLocked_Inr [OF q1] by simp
qed

text \<open>C3. A revocation is permanent: after a token was revoked, no check in any later state grants
  anything to that token or to a token attenuated from it.\<close>

theorem revocation_permanent:
  assumes "reachable K n (s, k)" and "RevokeCapabilityToken verify now nanos princ tok reason s = (Inr (), s1)"
    and "\<not> list_ex (\<lambda>r. rt_Digest r = tokenDigest tok) (s_RevokedTokens (sv_state s))"
    and "run K m (s1, k) (t, l)" and "n + 1 + m < 2 ^ 64"
    and "t_Subject tok' = t_Subject tok" and "t_PublicKey tok' = t_PublicKey tok"
    and "tok' = tok \<or> (\<exists>c cs. t_Caveats tok' = t_Caveats tok @ c # cs)"
  shows "fst (CheckWithToken verify' now' nanos' princ' aid object action tok' t) \<noteq> Inr True"
proof -
  have r: "reachable K (n + 1) (s1, k)"
    using reachable_step [OF assms(1) step.revoke [where verify = verify and now = now and nanos = nanos and princ = princ
          and tok = tok and reason = reason]] assms(2) by simp
  have "revoked_entry nanos tok reason \<in> set (s_RevokedTokens (sv_committed s1))"
    using assms(2,3) by (auto simp: RevokeCapabilityToken_def list_ex_iff split: if_splits dest!: persist_return_Inr
        elim!: persist_failE)
  moreover have "revokedBy (revoked_entry nanos tok reason) tok'"
    using assms(6-8) by (auto simp: revokedBy_def revoked_entry_def bytesEqual_def)
  ultimately have "tokenRevokedLocked (sv_committed s1) tok'" by (auto simp: tokenRevokedLocked_def list_ex_iff)
  then have "tokenRevokedLocked (sv_state t) tok'"
    using tokenRevoked_mono live_after(3) [OF r assms(4,5)] by blast
  then show ?thesis by (rule revoked_denies)
qed

text \<open>C18. A retired application is never served again: after it was retired, no scheduling decision in
  any later state, after crashes included, picks a turn of it.\<close>

theorem retired_never_served:
  assumes "reachable K n (s, k)" and "app s i = Some a" and "a_State a \<noteq> ''tombstoned''"
    and "RetireApplication now princ i s = (Inr (), s1)" and "run K m (s1, k) (t, l)" and "n + 1 + m < 2 ^ 64"
  shows "choose_turn now' t \<noteq> Some (i, msg)"
proof -
  have r: "reachable K (n + 1) (s1, k)"
    using reachable_step [OF assms(1) step.retire [where now = now and princ = princ and i = i]] assms(4) by simp
  obtain b where b: "gget (s_Applications (sv_committed s1)) i = Some b" "dead b"
    using assms(2-4) by (auto simp: RetireApplication_def Let_def dead_def release_application_def expireMailboxLocked_def
        dest!: persist_return_Inr)
  then obtain c where c: "app t i = Some c" "app_le b c"
    using live_after(1) [OF r assms(5,6)] by (auto simp: apps_le_def gmap_le_def)
  then have "\<not> eligible now' t i" using b(2) by (auto simp: eligible_def app_le_def dead_def)
  then show ?thesis using chosen_candidate candidate_eligible by blast
qed

text \<open>C19. Imported data cannot leave through the artifact export: after an import into an application,
  every later export of an artifact by it fails, as long as the policy does not let the external
  label out.\<close>

theorem import_blocks_export:
  assumes "reachable K n (s, k)" and "CommitImport now princ i key payload s = (Inr x, s1)"
    and "find_transfer i key s = None" and "run K m (s1, k) (t, l)" and "n + 2 + m < 2 ^ 64"
    and "cs_ExportMask (sv_policy t) AND TaintExternal = 0"
  shows "\<exists>e u. ExportArtifact now' princ' i key' payload' t = (Inl e, u)"
proof -
  have r: "reachable K (n + 2) (s1, k)"
    using reachable_step [OF assms(1) step.commitImport [where now = now and princ = princ and i = i and key = key
          and payload = payload]] assms(2) by simp
  show ?thesis using import_blocks_later [OF assms(2,3) reachable_run(3) [OF r assms(4,5)] assms(6)] .
qed

text \<open>C7. An accepted message is never lost: after an enqueue answered, every later state, after
  crashes included, has the message in the mailbox under its key, with its id and its bytes.\<close>

theorem accepted_message_kept:
  assumes "reachable K n (s, k)" and "Enqueue now princ i key payload s = (Inr msg, s1)"
    and "find_key key (mailbox (sv_state s) i) = None" and "run K m (s1, k) (t, l)" and "n + 2 + m < 2 ^ 64"
  shows "\<exists>msg' \<in> set (mailbox (sv_state t) i). m_IdempotencyKey msg' = key \<and> m_MessageID msg' = m_MessageID msg
    \<and> m_Payload msg' = compact False False payload"
proof -
  have r: "reachable K (n + 2) (s1, k)"
    using reachable_step [OF assms(1) step.enqueue [where now = now and princ = princ and i = i and key = key
          and payload = payload]] assms(2) by simp
  have "msg \<in> set (mailbox (sv_committed s1) i) \<and> m_IdempotencyKey msg = key \<and> m_Payload msg = compact False False payload"
    by (rule enqueue_durable [OF assms(2,3)])
  then show ?thesis using message_kept [OF live_after(4) [OF r assms(4,5)], of msg i] by auto
qed

text \<open>C27. A revoked channel stays closed: in every later state nothing is delivered through it and no
  conversation is bound to it.\<close>

theorem revoked_channel_closed:
  assumes "reachable K n (s, k)" and "RevokeChannel now princ ch s = (Inr (), s1)"
    and "run K m (s1, k) (t, l)" and "n + 1 + m < 2 ^ 64"
  shows "DeliverInbound now' ch ex seq payload t = (Inl ErrChannelNotFound, t)
    \<and> BindConversation now' princ' ch ex i t = (Inl ErrChannelNotFound, t)"
proof -
  have r: "reachable K (n + 1) (s1, k)"
    using reachable_step [OF assms(1) step.revokeChannel [where now = now and princ = princ and ch = ch]] assms(2) by simp
  obtain c where c: "gget (s_Channels (sv_committed s1)) ch = Some c" "ch_State c = ''revoked''"
    using assms(2) by (auto simp: RevokeChannel_def split: option.splits dest!: persist_return_Inr)
  then obtain d where "gget (s_Channels (sv_state t)) ch = Some d" "channel_le c d"
    using live_after(5) [OF r assms(3,4)] unfolding channels_le_def gmap_le_def by blast
  then have "\<not> active_channel ch t" using c(2) by (simp add: active_channel_def channel_le_def)
  then show ?thesis by (simp add: DeliverInbound_def BindConversation_def)
qed


section \<open>A run\<close>

text \<open>A supervisor opened on an empty database, an application created, a message accepted, an
  artifact imported; then the crash.\<close>

definition demo_bytes :: string where "demo_bytes = ''abcdefghijklmnop''"

definition demo_id :: string where "demo_id = uuid demo_bytes"

definition demo_policy :: capabilityset where "demo_policy = sample_manifest\<lparr>cs_ExportMask := 0\<rparr>"

definition demo_open :: supervisor where
  "demo_open =
     \<lparr>sv_state = empty_state, sv_policy = demo_policy, sv_previousHash = [], sv_committed = durable empty_state,
      sv_contexts = empty_cstore, sv_authorizer = cedarPolicyFromCapabilitySet demo_policy, sv_kernelApps = [],
      sv_kernelSrcs = [], sv_lastClaim = [], sv_lastPrefix = [], sv_sourced = [], sv_inflight = [],
      sv_turnConcurrency = 0, sv_dbq = []\<rparr>"

definition demo_created :: supervisor where
  "demo_created = snd (CreateApplication 1 (Some demo_bytes) (Some demo_bytes) ''op'' ''owner'' [] demo_open)"

lemma demo_load: "load 0 demo_policy None empty_cstore [] = Inr demo_open"
  by (simp add: load_def demo_open_def empty_state_def recover_mailboxes_def VerifyAudit_def rescanSourced_def
      last_hash_def persistLocked_def Let_def durable_def)

lemma demo_opened: "reachable K 0 (demo_open, k)"
  by (rule reachable_start [OF demo_load])

lemma demo_reachable: "reachable K 1 (demo_created, k)"
  using reachable_step [OF demo_opened step.create [where rnd = "Some demo_bytes" and ctxrnd = "Some demo_bytes"
        and now = 1 and princ = "''op''" and owner = "''owner''" and wake = "[]"]]
  by (simp add: fresh_id_def demo_open_def empty_state_def mailbox_def demo_created_def)

definition demo_app :: application where
  "demo_app = (new_application demo_id ''owner'' [] 1 ''on_event'' 1 0)\<lparr>a_KernelID := 1, a_ContextID := hexbytes demo_bytes\<rparr>"

lemma demo_create: "ContextStore_Create empty_cstore ''owner'' [] (Some demo_bytes)
    = (Inr (hexbytes demo_bytes), empty_cstore\<lparr>db_contexts := [(hexbytes demo_bytes, \<lparr>c_Owner = ''owner'', c_Tail = None\<rparr>)]\<rparr>)"
proof -
  have "\<not> all_space ''owner''" by code_simp
  then show ?thesis
    by (simp add: ContextStore_Create_def newContextID_def begin_tx_def insert_context_def empty_cstore_def)
qed

lemma demo_created_simps [simp]:
  "app demo_created demo_id = Some demo_app" "mailbox (sv_state demo_created) demo_id = []"
  "sv_dbq demo_created = []" "sv_policy demo_created = demo_policy" "s_Transfers (sv_state demo_created) = []"
  "s_RevokedTokens (sv_state demo_created) = []" "s_Mailbox (sv_state demo_created) = [(demo_id, [])]"
  by (simp_all add: demo_created_def CreateApplication_def Let_def default_wake_def valid_wake_def demo_open_def demo_create
      sample_persist demo_id_def demo_app_def empty_state_def new_application_def mailbox_def)

lemma demo_app_simps [simp]: "a_State demo_app = ''serving''" "\<not> retired demo_app" "a_TaintBits demo_app = 0"
  by (simp_all add: demo_app_def new_application_def retired_def)

definition demo_payload :: string where "demo_payload = ''{\"text\":\"hi\"}''"

definition demo_message :: mailboxmessage where
  "demo_message =
     \<lparr>m_MessageID = ''msg-2'', m_IdempotencyKey = ''k1'', m_Payload = demo_payload, m_Status = ''pending'',
      m_Sequence = 2, m_CreatedAt = 2, m_Attempts = 0\<rparr>"

definition demo_queued :: supervisor where
  "demo_queued = snd (Enqueue 2 ''op'' demo_id ''k1'' demo_payload demo_created)"

lemma demo_payload_valid: "json_Valid demo_payload" "compact False False demo_payload = demo_payload"
  by code_simp+

lemma demo_accepts:
  "accepts (mc_Application (mailboxCapacityLocked (sv_state demo_created) demo_id)) (length demo_payload)"
  "accepts (mc_Supervisor (mailboxCapacityLocked (sv_state demo_created) demo_id)) (length demo_payload)"
  by (simp_all add: accepts_def mailboxCapacityLocked_def usage_of_def app_messages_def all_messages_def demo_payload_def
      maxApplicationMailboxMessages_def maxApplicationMailboxBytes_def maxSupervisorMailboxMessages_def maxSupervisorMailboxBytes_def)

lemma auditLocked_prepared [simp]:
  "s_Prepared (sv_state (auditLocked now princ aid action object decision reason s)) = s_Prepared (sv_state s)"
  by (simp add: auditLocked_def Let_def)

lemma demo_sequence [simp]: "s_NextSequence (sv_state demo_created) = 1" "s_Prepared (sv_state demo_created) = []"
  "s_Results (sv_state demo_created) = []"
  by (simp_all add: demo_created_def CreateApplication_def Let_def default_wake_def valid_wake_def demo_open_def demo_create
      sample_persist empty_state_def)

lemma demo_new_message: "new_message 2 ''k1'' demo_payload 2 = demo_message"
proof -
  have "dec 2 = ''2''" by code_simp
  then show ?thesis by (simp add: new_message_def demo_message_def)
qed

lemma demo_enqueue: "enqueueLocked 2 ''op'' demo_id ''k1'' demo_payload demo_created =
    (Inr demo_message, auditLocked 2 ''op'' demo_id ''mailbox.enqueue'' ''k1'' ''allow'' []
      (on_state (stage_message 2 demo_id ''k1'' demo_payload) demo_created))"
proof -
  have "length demo_payload \<le> 6 * maxTextBytes" by (simp add: demo_payload_def maxTextBytes_def)
  then show ?thesis
    using demo_payload_valid demo_accepts demo_new_message by (simp add: enqueueLocked_def find_key_def Let_def)
qed

lemma demo_small: "length demo_payload \<le> maxTextBytes" "\<not> reserved_key ''k1''"
  by (simp_all add: demo_payload_def maxTextBytes_def reserved_key_def hasPrefix_def)

lemma demo_accepted: "Enqueue 2 ''op'' demo_id ''k1'' demo_payload demo_created = (Inr demo_message, demo_queued)"
  using demo_small by (simp add: demo_queued_def Enqueue_def demo_enqueue stage_message_def Let_def sample_persist)

lemma demo_queued_reachable: "reachable K 3 (demo_queued, k)"
  using reachable_step [OF demo_reachable step.enqueue [where now = 2 and princ = "''op''" and i = demo_id and key = "''k1''"
        and payload = demo_payload]] demo_accepted by (simp add: numeral_3_eq_3)

lemma demo_queued_simps [simp]:
  "app demo_queued demo_id = Some demo_app" "mailbox (sv_state demo_queued) demo_id = [demo_message]"
  "sv_dbq demo_queued = []" "s_Prepared (sv_state demo_queued) = []" "s_Results (sv_state demo_queued) = []"
  "sv_policy demo_queued = demo_policy"
  using demo_small demo_new_message
  by (simp_all add: demo_queued_def Enqueue_def demo_enqueue stage_message_def Let_def sample_persist mailbox_def)

lemma demo_created_contexts: "sv_contexts demo_created =
    empty_cstore\<lparr>db_contexts := [(hexbytes demo_bytes, \<lparr>c_Owner = ''owner'', c_Tail = None\<rparr>)]\<rparr>"
  by (simp add: demo_created_def CreateApplication_def Let_def default_wake_def valid_wake_def demo_open_def demo_create sample_persist)

lemma demo_contexts: "sv_contexts demo_queued = sv_contexts demo_created"
  using demo_small by (simp add: demo_queued_def Enqueue_def demo_enqueue stage_message_def Let_def sample_persist)

text \<open>A turn on a context with one owner and no operations yet.\<close>

lemma first_append:
  assumes "st = empty_cstore\<lparr>db_contexts := [(cid, \<lparr>c_Owner = owner, c_Tail = None\<rparr>)]\<rparr>" and "owner \<noteq> []"
    and "key \<noteq> []" and "length key \<le> 1024"
  shows "ContextStore_Append st owner cid key data =
    (Inr (contextHash data), record_operation cid key ''append'' (op_digest ''append'' data) (contextHash data)
      (empty_cstore\<lparr>db_contexts := [(cid, \<lparr>c_Owner = owner, c_Tail = Some (contextHash data)\<rparr>)],
         db_blobs := [(contextHash data, data)]\<rparr>))"
  using assms(2-)
  by (simp add: assms(1) ContextStore_Append_def mutate_def begin_tx_def authorizeContext_def append_tx_def get_tail_def
      putContextBlob_def insert_blob_def contextBlob_def set_tail_def empty_cstore_def Let_def)

lemma first_checkpoint:
  assumes "st = record_operation cid key ''append'' dg res
      (empty_cstore\<lparr>db_contexts := [(cid, \<lparr>c_Owner = owner, c_Tail = Some (contextHash data)\<rparr>)],
         db_blobs := [(contextHash data, data)]\<rparr>)"
    and "owner \<noteq> []" and "key' \<noteq> key" and "key' \<noteq> []" and "length key' \<le> 1024"
  shows "\<exists>c st'. ContextStore_Checkpoint st owner cid key' = (Inr c, st')"
proof -
  have "putContextBlob d st = Inr (contextHash d, insert_blob (contextHash d) d st)" for d
    by (auto simp: assms(1) putContextBlob_def insert_blob_def contextBlob_def record_operation_def empty_cstore_def Let_def)
  then show ?thesis
    using assms(2-)
    by (simp add: assms(1) ContextStore_Checkpoint_def mutate_def begin_tx_def authorizeContext_def checkpoint_tx_def
        snapshotContext_def page_hashes_def page_rows_def get_tail_def blob_page_def contextBlob_def record_operation_def empty_cstore_def)
qed

definition demo_turned :: supervisor where
  "demo_turned = snd (executeTurn 3 False (EchoProvider None) demo_id demo_message demo_queued)"

lemma demo_turned_reachable: "reachable K 6 (demo_turned, k)"
  using reachable_step [OF demo_queued_reachable step.turn [where now = 3 and stopped = False and pv = "EchoProvider None"
        and i = demo_id and m = demo_message]] by (simp add: demo_turned_def numeral_eq_Suc)

lemma first_write:
  assumes "json_Valid (m_Payload m)" and "ctxs = empty_cstore\<lparr>db_contexts := [(a_ContextID a, \<lparr>c_Owner = a_OwnerAgent a, c_Tail = None\<rparr>)]\<rparr>"
    and "a_OwnerAgent a \<noteq> []" and "length (m_MessageID m) \<le> 1000"
  shows "\<exists>c st'. write_context i m p a ctxs = (Inr c, st')"
proof -
  obtain bytes where b: "result_bytes (m_Payload m) (tr_Text p) = Some bytes"
    using assms(1) by (simp add: result_bytes_def marshalRaw_def)
  let ?key = "m_MessageID m @ '':result''" and ?cid = "a_ContextID a" and ?o = "a_OwnerAgent a"
  let ?st = "record_operation ?cid ?key ''append'' (op_digest ''append'' bytes) (contextHash bytes)
      (empty_cstore\<lparr>db_contexts := [(?cid, \<lparr>c_Owner = ?o, c_Tail = Some (contextHash bytes)\<rparr>)], db_blobs := [(contextHash bytes, bytes)]\<rparr>)"
  have a: "ContextStore_Append ctxs ?o ?cid ?key bytes = (Inr (contextHash bytes), ?st)"
    using assms by (intro first_append) simp_all
  obtain c st' where "ContextStore_Checkpoint ?st ?o ?cid (m_MessageID m @ '':checkpoint'') = (Inr c, st')"
    using first_checkpoint [OF refl, of ?o "m_MessageID m @ '':checkpoint''" ?key] assms(3,4) by fastforce
  then show ?thesis using a b by (simp add: write_context_def)
qed

lemma demo_app_owner: "a_OwnerAgent demo_app = ''owner''" "a_ContextID demo_app = hexbytes demo_bytes" "a_TokenLimit demo_app = 0"
  by (simp_all add: demo_app_def new_application_def)

lemma demo_write: "\<exists>c st'. write_context demo_id demo_message p demo_app (sv_contexts demo_queued) = (Inr c, st')"
  by (rule first_write) (simp_all add: demo_message_def demo_payload_valid demo_contexts demo_created_contexts demo_app_owner)

lemma recordRoute_frame [simp]:
  "sv_dbq (recordRouteLocked now r s) = sv_dbq s" "sv_sourced (recordRouteLocked now r s) = sv_sourced s"
  "sv_policy (recordRouteLocked now r s) = sv_policy s"
  "s_Conversations (sv_state (recordRouteLocked now r s)) = s_Conversations (sv_state s)"
  "s_Channels (sv_state (recordRouteLocked now r s)) = s_Channels (sv_state s)"
  "s_Outbox (sv_state (recordRouteLocked now r s)) = s_Outbox (sv_state s)"
  by (simp_all add: recordRouteLocked_def bumpSequence_def Let_def)

lemma audit_frame [simp]:
  "s_Channels (sv_state (auditLocked now princ aid action object decision reason s)) = s_Channels (sv_state s)"
  "s_Outbox (sv_state (auditLocked now princ aid action object decision reason s)) = s_Outbox (sv_state s)"
  by (simp_all add: auditLocked_def Let_def)

text \<open>What a committed turn leaves alone, for a reply.\<close>

definition same_routes :: "supervisor \<Rightarrow> supervisor \<Rightarrow> bool" where
  "same_routes s t \<longleftrightarrow> s_Conversations (sv_state t) = s_Conversations (sv_state s) \<and> s_Channels (sv_state t) = s_Channels (sv_state s)
     \<and> s_Outbox (sv_state t) = s_Outbox (sv_state s) \<and> sv_sourced t = sv_sourced s \<and> sv_policy t = sv_policy s \<and> sv_dbq t = []"

lemma commit_result_done:
  assumes "sv_dbq s = []"
  shows "\<exists>t b r. commit_result now i m p cacheHit routeDenied overflowed route checkpoint a s = (Inr (), t)
    \<and> gget (s_Results (sv_committed t)) (m_MessageID m) = Some r \<and> gget (s_Results (sv_state t)) (m_MessageID m) = Some r
    \<and> tr_ApplicationID r = i \<and> app t i = Some b \<and> a_State b = a_State (charge_application p a)
    \<and> a_TaintBits b = a_TaintBits (charge_application p a) \<and> same_routes s t"
proof -
  obtain status body ov where ts: "turn_status p (charge_application p a) = (status, body, ov)"
    by (cases "turn_status p (charge_application p a)")
  show ?thesis
    unfolding commit_result_def Let_def ts prod.case
    by (cases "status = ''failed''") (simp_all add: sample_persist assms same_routes_def)
qed

lemma complete_turn_done:
  assumes "sv_dbq s = []" and "write_context i m p a (sv_contexts s) = (Inr c, ctxs)"
  shows "\<exists>t b r. complete_turn now i m p cacheHit routeDenied overflowed route a s = (Inr (), t)
    \<and> gget (s_Results (sv_committed t)) (m_MessageID m) = Some r \<and> gget (s_Results (sv_state t)) (m_MessageID m) = Some r
    \<and> tr_ApplicationID r = i \<and> app t i = Some b \<and> a_State b = a_State (charge_application p a)
    \<and> a_TaintBits b = a_TaintBits (charge_application p a) \<and> same_routes s t"
  using commit_result_done [of "s\<lparr>sv_contexts := ctxs\<rparr>" now i m p] assms
  by (simp add: complete_turn_def Let_def same_routes_def)

lemma first_turn:
  assumes "app s i = Some a" and "s_Results (sv_state s) = []" and "s_Prepared (sv_state s) = []" and "sv_dbq s = []"
    and "a_TokenLimit a = 0" and "\<And>p. \<exists>c st'. write_context i m p a (sv_contexts s) = (Inr c, st')"
  shows "\<exists>t b r. executeTurn now False (EchoProvider None) i m s = (Inr (), t)
    \<and> gget (s_Results (sv_committed t)) (m_MessageID m) = Some r \<and> gget (s_Results (sv_state t)) (m_MessageID m) = Some r
    \<and> tr_ApplicationID r = i \<and> app t i = Some b \<and> a_State b = a_State a \<and> a_TaintBits b = a_TaintBits a \<and> same_routes s t"
proof -
  define out where "out = turn_outcome (EchoProvider None) i m s"
  define q where "q = clearInflight i s"
  have q: "app q i = Some a" "s_Results (sv_state q) = []" "s_Prepared (sv_state q) = []" "sv_dbq q = []"
    "sv_contexts q = sv_contexts s" using assms by (simp_all add: q_def clearInflight_def)
  have out: "to_Taint out = 0" "to_Err out \<noteq> Some ErrTurnBusy"
    by (auto simp: out_def turn_outcome_def run_provider_def EchoProvider_def Let_def)
  define hit where "hit = cacheHitKind (to_Usage out) (a_LastCompat a) (ri_CompatKey (to_Route out))"
  define p where "p = prepare_result i (m_MessageID m) (to_Text out) (to_Usage out) (to_Route out) hit (to_Err out)"
  define q1 where "q1 = (on_state (s_Prepared_update (gput (m_MessageID m) p)) q)
    \<lparr>sv_committed := durable (sv_state (on_state (s_Prepared_update (gput (m_MessageID m) p)) q))\<rparr>"
  have q1: "persistLocked (on_state (s_Prepared_update (gput (m_MessageID m) p)) q) = (None, q1)" "sv_dbq q1 = []"
    "sv_contexts q1 = sv_contexts s" "same_routes s q1"
    using q assms(4) by (simp_all add: q1_def persistLocked_def same_routes_def) (simp_all add: q_def clearInflight_def)
  obtain c ctxs where w: "write_context i m p a (sv_contexts q1) = (Inr c, ctxs)" using assms(6) q1(3) by metis
  have f: "finishTurn now i m (to_Text out) (to_Usage out) (to_Route out) (to_Err out) s =
      complete_turn now i m p hit (to_Err out = Some ErrRouteDenied) (to_Err out = None \<and> length (to_Text out) > maxTextBytes)
        (to_Route out) a q1"
    unfolding finishTurn_def Let_def q_def [symmetric] using q q1(1) by (simp add: p_def hit_def)
  obtain u b r where u: "finishTurn now i m (to_Text out) (to_Usage out) (to_Route out) (to_Err out) s = (Inr (), u)"
    "gget (s_Results (sv_committed u)) (m_MessageID m) = Some r" "gget (s_Results (sv_state u)) (m_MessageID m) = Some r"
    "tr_ApplicationID r = i" "app u i = Some b" "a_State b = a_State (charge_application p a)"
    "a_TaintBits b = a_TaintBits (charge_application p a)" "same_routes q1 u"
    using complete_turn_done [OF q1(2) w] unfolding f by blast
  have ch: "a_State (charge_application p a) = a_State a" "a_TaintBits (charge_application p a) = a_TaintBits a"
    using assms(5) by (simp_all add: charge_application_def Let_def)
  have "executeTurn now False (EchoProvider None) i m s = (Inr (), clearInflight i u)"
    using out u(1) by (simp add: executeTurn_def settleTurn_def Let_def out_def [symmetric])
  moreover have "same_routes s (clearInflight i u)"
    using u(8) q1(4) by (simp add: same_routes_def clearInflight_def)
  ultimately show ?thesis using u(2-7) ch
    by (intro exI [of _ "clearInflight i u"] exI [of _ b] exI [of _ r]) (simp add: clearInflight_def)
qed

lemma demo_result: "\<exists>r. gget (s_Results (sv_committed demo_turned)) ''msg-2'' = Some r"
  using first_turn [of demo_queued demo_id demo_app demo_message 3] demo_write
  by (auto simp: demo_turned_def demo_message_def demo_app_def new_application_def)


theorem mailbox_within_capacity_witness:
  "charged_count (mailbox (sv_state demo_queued) demo_id) \<le> maxApplicationMailboxMessages
    \<and> charged_bytes (mailbox (sv_state demo_queued) demo_id) \<le> maxApplicationMailboxBytes
    \<and> charged_count (all_messages (sv_state demo_queued)) \<le> maxSupervisorMailboxMessages
    \<and> charged_bytes (all_messages (sv_state demo_queued)) \<le> maxSupervisorMailboxBytes"
  by (rule mailbox_within_capacity [OF demo_queued_reachable]) simp

theorem message_identity_witness:
  "{p. p < length (mailbox (sv_state demo_queued) demo_id) \<and> m_MessageID (mailbox (sv_state demo_queued) demo_id ! p) = ''msg-2''} = {0}"
proof -
  have z: "0 < length (mailbox (sv_state demo_queued) demo_id)" "m_MessageID (mailbox (sv_state demo_queued) demo_id ! 0) = ''msg-2''"
    by (simp_all add: demo_message_def)
  have "p = 0" if "p < length (mailbox (sv_state demo_queued) demo_id)" "m_MessageID (mailbox (sv_state demo_queued) demo_id ! p) = ''msg-2''" for p
    using message_identity [OF demo_queued_reachable _ that(1) z(1)] that(2) z(2) by simp
  then show ?thesis using z by blast
qed

theorem records_wellformed_witness:
  "length (s_RouteRecords (sv_state demo_turned)) \<le> 512 \<and> length (s_Transfers (sv_state demo_turned)) \<le> 256
    \<and> list_all (\<lambda>m. cleanAbs (hm_GuestPath m)) (map snd (s_HostfsMounts (sv_state demo_turned)))
    \<and> distinct (map fst (s_Applications (sv_state demo_turned)))"
  using records_wellformed [OF demo_turned_reachable] by (simp add: list_all_iff)

lemma demo_turn_run: "run K 3 (demo_queued, k) (demo_turned, k)"
  using run.move [OF run.stay step.turn [where now = 3 and stopped = False and pv = "EchoProvider None" and i = demo_id
        and m = demo_message]] by (simp add: demo_turned_def)

theorem audit_append_only_witness:
  "\<exists>rs. s_Audit (sv_committed demo_turned) = s_Audit (sv_committed demo_queued) @ rs"
  by (rule audit_append_only [OF demo_queued_reachable demo_turn_run]) simp

lemma demo_turned_app: "\<exists>a. app demo_turned demo_id = Some a"
proof -
  have "gget (s_Applications (sv_committed demo_queued)) demo_id = Some demo_app"
    using demo_small by (simp add: demo_queued_def Enqueue_def demo_enqueue stage_message_def Let_def sample_persist)
  then show ?thesis
    using live_after(1) [OF demo_queued_reachable demo_turn_run] by (auto simp: apps_le_def gmap_le_def)
qed

theorem result_final_witness:
  "\<exists>r. gget (s_Results (sv_committed demo_turned)) ''msg-2'' = Some r
    \<and> Result demo_turned (tr_ApplicationID r) ''msg-2'' = Inr r
    \<and> finishTurn 9 demo_id demo_message ''other'' zero_usage no_route None demo_turned = (Inr (), clearInflight demo_id demo_turned)"
proof -
  obtain r where r: "gget (s_Results (sv_committed demo_turned)) (m_MessageID demo_message) = Some r"
    using demo_result by (auto simp: demo_message_def)
  obtain a where a: "app demo_turned demo_id = Some a" using demo_turned_app by blast
  show ?thesis using result_final [OF demo_turned_reachable run.stay _ r a] r by (auto simp: demo_message_def)
qed

text \<open>The operations of the other witnesses.\<close>

definition demo_revoked :: supervisor where
  "demo_revoked = snd (RevokeCapabilityToken sample_verify 50 4 ''op'' (sample_token [] [''/data/**'']) [] demo_created)"

lemma demo_revoke: "RevokeCapabilityToken sample_verify 50 4 ''op'' (sample_token [] [''/data/**'']) [] demo_created = (Inr (), demo_revoked)"
  by (simp add: demo_revoked_def RevokeCapabilityToken_def sample_token_verify sample_persist maxRevokedTokens_def)

theorem revocation_permanent_witness:
  "fst (CheckWithToken sample_verify 60 5 ''worker'' [] ''fs.read'' ''/data/a'' (sample_token [''narrow''] [''/data/a'']) demo_revoked) \<noteq> Inr True"
  by (rule revocation_permanent [OF demo_reachable demo_revoke _ run.stay]) (simp_all add: sample_token_def)

definition demo_retired :: supervisor where
  "demo_retired = snd (RetireApplication 4 ''op'' demo_id demo_queued)"

lemma demo_retire: "RetireApplication 4 ''op'' demo_id demo_queued = (Inr (), demo_retired)"
  by (simp add: demo_retired_def RetireApplication_def Let_def sample_persist release_application_def expireMailboxLocked_def)

theorem retired_never_served_witness: "choose_turn 9 demo_retired \<noteq> Some (demo_id, demo_message)"
  by (rule retired_never_served [OF demo_queued_reachable demo_queued_simps(1) _ demo_retire run.stay]) simp_all

definition demo_imported :: supervisor where
  "demo_imported = snd (CommitImport 4 ''op'' demo_id ''i1'' demo_payload demo_created)"

lemma demo_no_transfer: "find_transfer demo_id ''i1'' demo_created = None"
  by (simp add: find_transfer_def)

lemma demo_import: "\<exists>x. CommitImport 4 ''op'' demo_id ''i1'' demo_payload demo_created = (Inr x, demo_imported)"
    and demo_imported_policy: "sv_policy demo_imported = demo_policy"
proof -
  have "\<not> transfer_invalid ''i1'' demo_payload" using demo_payload_valid demo_small by (simp add: transfer_invalid_def)
  then show "\<exists>x. CommitImport 4 ''op'' demo_id ''i1'' demo_payload demo_created = (Inr x, demo_imported)"
      "sv_policy demo_imported = demo_policy"
    by (simp_all add: demo_imported_def CommitImport_def demo_no_transfer Let_def sample_persist bumpSequence_def stage_transfer_def
        accumulateTaint_def)
qed

theorem import_blocks_export_witness:
  "\<exists>e u. ExportArtifact 9 ''op'' demo_id ''x1'' demo_payload demo_imported = (Inl e, u)"
proof -
  obtain x where x: "CommitImport 4 ''op'' demo_id ''i1'' demo_payload demo_created = (Inr x, demo_imported)" using demo_import by blast
  show ?thesis
    by (rule import_blocks_export [OF demo_reachable x demo_no_transfer run.stay])
      (simp_all add: demo_imported_policy demo_policy_def)
qed

theorem accepted_message_kept_witness:
  "\<exists>msg' \<in> set (mailbox (sv_state demo_turned) demo_id). m_IdempotencyKey msg' = ''k1'' \<and> m_MessageID msg' = ''msg-2''
    \<and> m_Payload msg' = demo_payload"
  using accepted_message_kept [OF demo_reachable demo_accepted _ demo_turn_run] demo_payload_valid(2)
  by (simp add: find_key_def demo_message_def)

definition demo_channel :: supervisor where
  "demo_channel = snd (CreateChannel 2 ''op'' ''c'' ''chat'' demo_open)"

definition demo_closed :: supervisor where
  "demo_closed = snd (RevokeChannel 3 ''op'' ''c'' demo_channel)"

lemma demo_channel_reachable: "reachable K 1 (demo_channel, k)"
  using reachable_step [OF demo_opened step.createChannel [where now = 2 and princ = "''op''" and ch = "''c''" and kind = "''chat''"]]
  by (simp add: demo_channel_def)

lemma demo_revoke_channel: "RevokeChannel 3 ''op'' ''c'' demo_channel = (Inr (), demo_closed)"
proof -
  have "\<exists>c. gget (s_Channels (sv_state demo_channel)) ''c'' = Some c" "sv_dbq demo_channel = []"
    by (simp_all add: demo_channel_def CreateChannel_def demo_open_def empty_state_def Let_def sample_persist)
  then show ?thesis by (auto simp: demo_closed_def RevokeChannel_def sample_persist)
qed

theorem revoked_channel_closed_witness:
  "DeliverInbound 9 ''c'' ''u'' 1 ''{}'' demo_closed = (Inl ErrChannelNotFound, demo_closed)
    \<and> BindConversation 9 ''op'' ''c'' ''u'' ''a'' demo_closed = (Inl ErrChannelNotFound, demo_closed)"
  by (rule revoked_channel_closed [OF demo_channel_reachable demo_revoke_channel run.stay]) simp

text \<open>A conversation: a channel, a sender bound to the application, a message, its turn and the reply.\<close>

definition chat_channel :: messagechannel where
  "chat_channel = \<lparr>ch_ChannelID = ''c'', ch_Kind = ''im'', ch_State = ''active'', ch_CreatedAt = 2\<rparr>"

definition chat_conversation :: messageconversation where
  "chat_conversation = \<lparr>cv_ChannelID = ''c'', cv_ExternalID = ''u'', cv_Principal = [], cv_ApplicationID = demo_id,
     cv_LastSequence = 0, cv_CreatedAt = 3\<rparr>"

definition chat_open :: supervisor where "chat_open = snd (CreateChannel 2 ''op'' ''c'' ''im'' demo_created)"

definition chat_bound :: supervisor where "chat_bound = snd (BindConversation 3 ''op'' ''c'' ''u'' demo_id chat_open)"

definition chat_delivered :: supervisor where "chat_delivered = snd (DeliverInbound 4 ''c'' ''u'' 1 sample_inbound chat_bound)"

definition chat_message :: mailboxmessage where "chat_message = new_message 4 ''gw:c:u:1'' sample_wrapped 4"

definition chat_turned :: supervisor where
  "chat_turned = snd (executeTurn 5 False (EchoProvider None) demo_id chat_message chat_delivered)"

lemma demo_more [simp]: "s_Channels (sv_state demo_created) = []" "s_Conversations (sv_state demo_created) = []"
  "s_Outbox (sv_state demo_created) = []" "sv_sourced demo_created = []"
  by (simp_all add: demo_created_def CreateApplication_def Let_def default_wake_def valid_wake_def demo_open_def demo_create
      sample_persist empty_state_def)

lemma chat_open_eq: "chat_open = (let s = auditLocked 2 ''op'' [] ''channel.create'' ''c'' ''allow'' ''im''
    (on_state (s_Channels_update (gput ''c'' chat_channel)) demo_created) in s\<lparr>sv_committed := durable (sv_state s)\<rparr>)"
  by (simp add: chat_open_def CreateChannel_def Let_def sample_persist chat_channel_def)

lemma chat_open_simps [simp]:
  "app chat_open i = app demo_created i" "s_Mailbox (sv_state chat_open) = [(demo_id, [])]" "sv_dbq chat_open = []"
  "s_Channels (sv_state chat_open) = [(''c'', chat_channel)]" "s_Conversations (sv_state chat_open) = []"
  "s_Outbox (sv_state chat_open) = []" "s_Results (sv_state chat_open) = []" "s_Prepared (sv_state chat_open) = []"
  "sv_sourced chat_open = []" "s_NextSequence (sv_state chat_open) = 2" "sv_contexts chat_open = sv_contexts demo_created"
  "sv_policy chat_open = demo_policy"
  by (simp_all add: chat_open_eq Let_def)

lemma chat_bound_eq: "chat_bound = (let s = auditLocked 3 ''op'' demo_id ''conversation.bind'' ''c:u'' ''allow'' []
    (on_state (s_Conversations_update (gput ''c:u'' chat_conversation)) chat_open) in s\<lparr>sv_committed := durable (sv_state s)\<rparr>)"
  by (simp add: chat_bound_def BindConversation_def active_channel_def chat_channel_def conversationKey_def Let_def sample_persist
      chat_conversation_def)

lemma chat_bound_simps [simp]:
  "app chat_bound i = app demo_created i" "s_Mailbox (sv_state chat_bound) = [(demo_id, [])]" "sv_dbq chat_bound = []"
  "s_Channels (sv_state chat_bound) = [(''c'', chat_channel)]" "s_Conversations (sv_state chat_bound) = [(''c:u'', chat_conversation)]"
  "s_Outbox (sv_state chat_bound) = []" "s_Results (sv_state chat_bound) = []" "s_Prepared (sv_state chat_bound) = []"
  "sv_sourced chat_bound = []" "s_NextSequence (sv_state chat_bound) = 3" "sv_contexts chat_bound = sv_contexts demo_created"
  "sv_policy chat_bound = demo_policy"
  by (simp_all add: chat_bound_eq Let_def)

lemma chat_accepts:
  "accepts (mc_Application (mailboxCapacityLocked (sv_state chat_bound) demo_id)) (length sample_wrapped)"
  "accepts (mc_Supervisor (mailboxCapacityLocked (sv_state chat_bound) demo_id)) (length sample_wrapped)"
  by (simp_all add: accepts_def mailboxCapacityLocked_def usage_of_def app_messages_def all_messages_def sample_wrapped_def
      maxApplicationMailboxMessages_def maxApplicationMailboxBytes_def maxSupervisorMailboxMessages_def maxSupervisorMailboxBytes_def)

lemma chat_enqueue: "enqueueLocked 4 ''gateway'' demo_id ''gw:c:u:1'' sample_wrapped chat_bound =
    (Inr chat_message, auditLocked 4 ''gateway'' demo_id ''mailbox.enqueue'' ''gw:c:u:1'' ''allow'' []
      (on_state (stage_message 4 demo_id ''gw:c:u:1'' sample_wrapped) chat_bound))"
proof -
  have "length sample_wrapped \<le> 6 * maxTextBytes" by (simp add: sample_wrapped_def maxTextBytes_def)
  then show ?thesis
    using sample_wrapped_valid sample_wrapped_compact chat_accepts
    by (simp add: enqueueLocked_def find_key_def mailbox_def Let_def chat_message_def)
qed

lemma chat_delivered_eq: "chat_delivered = (let s = on_state (s_Conversations_update (gput ''c:u'' (chat_conversation\<lparr>cv_LastSequence := 1\<rparr>)))
    (sourceOf (m_MessageID chat_message) ''c:u'' (auditLocked 4 ''gateway'' demo_id ''mailbox.enqueue'' ''gw:c:u:1'' ''allow'' []
      (on_state (stage_message 4 demo_id ''gw:c:u:1'' sample_wrapped) chat_bound))) in s\<lparr>sv_committed := durable (sv_state s)\<rparr>)"
proof -
  have "length sample_inbound \<le> maxTextBytes" by (simp add: sample_inbound_def maxTextBytes_def)
  moreover have "active_channel ''c'' chat_bound" by (simp add: active_channel_def chat_channel_def)
  moreover have "conversationLocked ''c'' ''u'' chat_bound = Some (''c:u'', chat_conversation)"
    by (simp add: conversationLocked_def conversationKey_def chat_conversation_def)
  moreover have "cv_LastSequence chat_conversation = 0" "cv_ApplicationID chat_conversation = demo_id"
    by (simp_all add: chat_conversation_def)
  ultimately show ?thesis
    using sample_valid chat_enqueue
    by (simp add: chat_delivered_def DeliverInbound_def sample_envelope sample_key sourceOf_def sample_persist Let_def)
qed

lemma chat_delivered_simps [simp]:
  "app chat_delivered i = app demo_created i" "sv_dbq chat_delivered = []"
  "s_Channels (sv_state chat_delivered) = [(''c'', chat_channel)]"
  "s_Conversations (sv_state chat_delivered) = [(''c:u'', chat_conversation\<lparr>cv_LastSequence := 1\<rparr>)]"
  "s_Outbox (sv_state chat_delivered) = []" "s_Results (sv_state chat_delivered) = []" "s_Prepared (sv_state chat_delivered) = []"
  "sv_sourced chat_delivered = [(m_MessageID chat_message, ''c:u'')]" "sv_contexts chat_delivered = sv_contexts demo_created"
  "sv_policy chat_delivered = demo_policy"
  by (simp_all add: chat_delivered_eq Let_def sourceOf_def stage_message_def)

lemma chat_reachable: "reachable K 8 (chat_turned, k)"
proof -
  have u: "utf8_ok ''c''" "utf8_ok ''u''" by code_simp+
  have 1: "reachable K 2 (chat_open, k)"
    using reachable_step [OF demo_reachable step.createChannel [where now = 2 and princ = "''op''" and ch = "''c''" and kind = "''im''"]]
    by (simp add: chat_open_def numeral_2_eq_2)
  have 2: "reachable K 3 (chat_bound, k)"
    using reachable_step [OF 1 step.bindConversation [where now = 3 and princ = "''op''" and ch = "''c''" and ex = "''u''" and i = demo_id]]
    by (simp add: chat_bound_def numeral_3_eq_3)
  have 3: "reachable K 5 (chat_delivered, k)"
    using reachable_step [OF 2 step.inbound [OF u, where now = 4 and seq = 1 and payload = sample_inbound]]
    by (simp add: chat_delivered_def numeral_eq_Suc)
  show ?thesis
    using reachable_step [OF 3 step.turn [where now = 5 and stopped = False and pv = "EchoProvider None" and i = demo_id
          and m = chat_message]] by (simp add: chat_turned_def numeral_eq_Suc)
qed

lemma chat_message_id: "m_MessageID chat_message = ''msg-4''" "m_Payload chat_message = sample_wrapped"
proof -
  have "dec 4 = ''4''" by code_simp
  then show "m_MessageID chat_message = ''msg-4''" "m_Payload chat_message = sample_wrapped"
    by (simp_all add: chat_message_def new_message_def)
qed

lemma chat_turn: "\<exists>b r. gget (s_Results (sv_state chat_turned)) ''msg-4'' = Some r \<and> tr_ApplicationID r = demo_id
    \<and> app chat_turned demo_id = Some b \<and> a_State b = ''serving'' \<and> a_TaintBits b = 0 \<and> same_routes chat_delivered chat_turned"
proof -
  have "\<exists>c st'. write_context demo_id chat_message p demo_app (sv_contexts chat_delivered) = (Inr c, st')" for p
    by (rule first_write) (simp_all add: chat_message_id sample_wrapped_valid demo_created_contexts demo_app_owner)
  from first_turn [of chat_delivered demo_id demo_app chat_message 5, OF _ _ _ _ _ this] show ?thesis
    by (auto simp: chat_turned_def chat_message_id demo_app_owner)
qed


end
