(* ===== verification/Spec2Isabelle.thy ===== *)
theory Spec2Isabelle
  imports Ledger ContextRuns Runs
begin

text \<open>
  A verification development for the AOK runtime (\<^verbatim>\<open>src/runtime\<close>).
\<close>

end
